(* ===== verification/Tx_Prelude.thy ===== *)
theory Tx_Prelude
  imports Main "HOL-Library.Word"
begin

text \<open>
  Shared vocabulary of the development: the fixed-width integer types of the C++ sources,
  the fact collections the component theories add to, generic lemmas on lists, and the
  transition-system locale in which the state machines of the components are analysed.

  Conventions. A C++ class is a record and its methods are functions that take the object
  and return the updated object beside the method's result. \<open>size_t\<close> indices and counters
  are natural numbers; the places where an unsigned subtraction can wrap write the wrap out.
  \<open>assert\<close> is compiled out of release builds, so an assertion does not stop the model; that
  the asserted condition holds is stated as a lemma where the development proves it.
  Log messages and trace hooks have no effect on the modelled state and are left out.
\<close>

section \<open>Fixed-width integers\<close>

type_synonym u8 = "8 word"
type_synonym u16 = "16 word"
type_synonym u32 = "32 word"
type_synonym u64 = "64 word"

text \<open>\<open>tx_id.h\<close>: \<open>using TxNumber = uint64_t\<close>.\<close>

type_synonym TxNumber = u64

text \<open>Decrement of an unsigned 64-bit counter, with the wrap-around at zero.\<close>

definition size_dec :: "nat \<Rightarrow> nat" where
  "size_dec n = (if n = 0 then 2 ^ 64 - 1 else n - 1)"

lemma size_dec_pos [simp]: "0 < n \<Longrightarrow> size_dec n = n - 1"
  by (simp add: size_dec_def)

section \<open>Fact collections\<close>

named_theorems queue_laws \<open>the list view of the queue operations\<close>
named_theorems lock_defs \<open>definitions of the lock operations\<close>
named_theorems entry_defs \<open>definitions of the entry operations\<close>

section \<open>Lists\<close>

lemma filter_neq_remove_nth:
  assumes "i < length xs" and "\<not> P (xs ! i)"
  shows "filter P (take i xs @ drop (Suc i) xs) = filter P xs"
proof -
  have "xs = take i xs @ xs ! i # drop (Suc i) xs"
    using assms(1) by (simp add: id_take_nth_drop)
  then have "filter P xs = filter P (take i xs @ xs ! i # drop (Suc i) xs)"
    by simp
  then show ?thesis using assms(2) by simp
qed

lemma hd_conv_nth_Suc: "xs \<noteq> [] \<Longrightarrow> xs = hd xs # tl xs"
  by simp

lemma sorted_wrt_greater_last:
  assumes "sorted_wrt (\<lambda>a b. f b < (f a :: 'k :: linorder)) xs" and "x \<in> set xs"
  shows "f (last xs) \<le> f x"
  using assms by (induction xs) (auto simp: less_imp_le)

section \<open>Transition systems\<close>

text \<open>
  A transition system given by its initial states and its step relation. The rule
  \<open>reach_invariant\<close> is the one every state-machine property of the development uses: a
  predicate that holds initially and is kept by each step holds in every reachable state.
\<close>

inductive reachable :: "('s \<Rightarrow> bool) \<Rightarrow> ('s \<Rightarrow> 's \<Rightarrow> bool) \<Rightarrow> 's \<Rightarrow> bool"
  for init :: "'s \<Rightarrow> bool" and step :: "'s \<Rightarrow> 's \<Rightarrow> bool" where
  reach_init: "init s \<Longrightarrow> reachable init step s"
| reach_step: "reachable init step s \<Longrightarrow> step s t \<Longrightarrow> reachable init step t"

locale transition_invariant =
  fixes init :: "'s \<Rightarrow> bool"
    and step :: "'s \<Rightarrow> 's \<Rightarrow> bool"
    and inv :: "'s \<Rightarrow> bool"
  assumes inv_init: "init s \<Longrightarrow> inv s"
    and inv_step: "inv s \<Longrightarrow> step s t \<Longrightarrow> inv t"
begin

lemma reach_invariant: "reachable init step s \<Longrightarrow> inv s"
  by (induction rule: reachable.induct) (auto intro: inv_init inv_step)

end

end
