(* ===== verification/Circular_Queue.thy ===== *)
theory Circular_Queue
  imports Tx_Prelude
begin

text \<open>
  \<open>include/circular_queue.h\<close>: a growable ring buffer with access from both ends, by index,
  and removal in the middle. The object is a record of the array, the head index, the number
  of elements and the capacity; \<open>cq_default\<close> is the value-initialised element \<open>T{}\<close> with
  which \<open>std::make_unique<T[]>\<close> fills a new array. The list view \<open>cq_list\<close> reads the window
  of \<open>cq_cnt\<close> cells that starts at the head.
\<close>

section \<open>Model\<close>

record 'a circular_queue =
  cq_vec :: "'a list"
  cq_head :: nat
  cq_cnt :: nat
  cq_capacity :: nat
  cq_default :: 'a

definition cq_new :: "'a \<Rightarrow> nat \<Rightarrow> 'a circular_queue" where
  "cq_new d capacity =
     \<lparr>cq_vec = replicate capacity d, cq_head = 0, cq_cnt = 0, cq_capacity = capacity,
      cq_default = d\<rparr>"

definition cq_Reset :: "'a circular_queue \<Rightarrow> 'a circular_queue" where
  "cq_Reset q =
     (let q1 = q\<lparr>cq_head := 0, cq_cnt := 0\<rparr>
      in if cq_capacity q1 > 8
         then q1\<lparr>cq_capacity := 8, cq_vec := replicate 8 (cq_default q1)\<rparr>
         else q1)"

text \<open>\<open>Enqueue(const T &)\<close> doubles a full array with two \<open>std::copy\<close> calls.\<close>

definition cq_Enqueue_copy :: "'a circular_queue \<Rightarrow> 'a \<Rightarrow> 'a circular_queue" where
  "cq_Enqueue_copy q item =
     (if cq_cnt q = 0 then
        q\<lparr>cq_vec := (cq_vec q)[0 := item], cq_head := 0, cq_cnt := 1\<rparr>
      else if cq_cnt q = cq_capacity q then
        let new_capacity = 2 * cq_capacity q;
            half_cnt = cq_capacity q - cq_head q;
            new_vec = take half_cnt (drop (cq_head q) (cq_vec q)) @ take (cq_head q) (cq_vec q)
                      @ replicate (new_capacity - cq_capacity q) (cq_default q)
        in q\<lparr>cq_vec := new_vec[cq_capacity q := item], cq_cnt := cq_capacity q + 1,
             cq_capacity := new_capacity, cq_head := 0\<rparr>
      else
        let tail = (cq_head q + cq_cnt q) mod cq_capacity q
        in q\<lparr>cq_vec := (cq_vec q)[tail := item], cq_cnt := cq_cnt q + 1\<rparr>)"

text \<open>
  The element-wise moves of \<open>Enqueue(T &&)\<close>: cells \<open>idx .. stop - 1\<close> of the old array go to
  the new array from position \<open>end\<close> on; the loop also returns the next free position.
\<close>

function cq_move_loop :: "'a list \<Rightarrow> nat \<Rightarrow> nat \<Rightarrow> 'a list \<Rightarrow> nat \<Rightarrow> 'a list \<times> nat" where
  "cq_move_loop src idx stop dst endp =
     (if idx < stop then cq_move_loop src (Suc idx) stop (dst[endp := src ! idx]) (Suc endp)
      else (dst, endp))"
  by pat_completeness auto
termination
  by (relation "measure (\<lambda>(src, idx, stop, dst, endp). stop - idx)") auto

declare cq_move_loop.simps [simp del]

text \<open>\<open>Enqueue(T &&)\<close> grows a full array by half: \<open>static_cast<size_t>(capacity_ * 1.5)\<close>.\<close>

definition cq_Enqueue :: "'a circular_queue \<Rightarrow> 'a \<Rightarrow> 'a circular_queue" where
  "cq_Enqueue q item =
     (if cq_cnt q = 0 then
        q\<lparr>cq_vec := (cq_vec q)[0 := item], cq_head := 0, cq_cnt := 1\<rparr>
      else if cq_cnt q = cq_capacity q then
        let new_capacity = (cq_capacity q * 3) div 2;
            new_vec = replicate new_capacity (cq_default q);
            (new_vec1, end1) = cq_move_loop (cq_vec q) (cq_head q) (cq_capacity q) new_vec 0;
            (new_vec2, end2) = cq_move_loop (cq_vec q) 0 (cq_head q) new_vec1 end1
        in q\<lparr>cq_vec := new_vec2[cq_capacity q := item], cq_cnt := cq_capacity q + 1,
             cq_capacity := new_capacity, cq_head := 0\<rparr>
      else
        let tail = (cq_head q + cq_cnt q) mod cq_capacity q
        in q\<lparr>cq_vec := (cq_vec q)[tail := item], cq_cnt := cq_cnt q + 1\<rparr>)"

definition cq_EnqueueAsFirst :: "'a circular_queue \<Rightarrow> 'a \<Rightarrow> 'a circular_queue" where
  "cq_EnqueueAsFirst q item =
     (if cq_cnt q = 0 then
        q\<lparr>cq_vec := (cq_vec q)[0 := item], cq_head := 0, cq_cnt := 1\<rparr>
      else if cq_cnt q = cq_capacity q then
        let new_capacity = (cq_capacity q * 3) div 2;
            half_cnt = cq_capacity q - cq_head q;
            new_vec = take half_cnt (drop (cq_head q) (cq_vec q)) @ take (cq_head q) (cq_vec q)
                      @ replicate (new_capacity - cq_capacity q) (cq_default q)
        in q\<lparr>cq_vec := new_vec[new_capacity - 1 := item], cq_head := new_capacity - 1,
             cq_cnt := cq_capacity q + 1, cq_capacity := new_capacity\<rparr>
      else if cq_head q \<noteq> 0 then
        q\<lparr>cq_vec := (cq_vec q)[cq_head q - 1 := item], cq_head := cq_head q - 1,
          cq_cnt := cq_cnt q + 1\<rparr>
      else
        q\<lparr>cq_vec := (cq_vec q)[cq_capacity q - 1 := item], cq_head := cq_capacity q - 1,
          cq_cnt := cq_cnt q + 1\<rparr>)"

definition cq_Dequeue :: "'a circular_queue \<Rightarrow> 'a circular_queue" where
  "cq_Dequeue q =
     (if cq_cnt q > 0 then
        let h = cq_head q + 1
        in q\<lparr>cq_head := (if h = cq_capacity q then 0 else h), cq_cnt := cq_cnt q - 1\<rparr>
      else q)"

definition cq_Peek :: "'a circular_queue \<Rightarrow> 'a" where
  "cq_Peek q = cq_vec q ! cq_head q"

definition cq_Size :: "'a circular_queue \<Rightarrow> nat" where
  "cq_Size q = cq_cnt q"

definition cq_Get :: "'a circular_queue \<Rightarrow> nat \<Rightarrow> 'a" where
  "cq_Get q index = cq_vec q ! ((cq_head q + index) mod cq_capacity q)"

function cq_erase_loop :: "nat \<Rightarrow> nat \<Rightarrow> nat \<Rightarrow> nat \<Rightarrow> 'a list \<Rightarrow> 'a list" where
  "cq_erase_loop index limit head capacity vec =
     (if index < limit then
        cq_erase_loop (Suc index) limit head capacity
          (vec[(head + index) mod capacity := vec ! ((head + index + 1) mod capacity)])
      else vec)"
  by pat_completeness auto
termination
  by (relation "measure (\<lambda>(index, limit, head, capacity, vec). limit - index)") auto

declare cq_erase_loop.simps [simp del]

definition cq_Erase :: "'a circular_queue \<Rightarrow> nat \<Rightarrow> 'a circular_queue" where
  "cq_Erase q index =
     (let vec = cq_erase_loop index (size_dec (cq_cnt q)) (cq_head q) (cq_capacity q) (cq_vec q);
          cnt = size_dec (cq_cnt q)
      in q\<lparr>cq_vec := vec, cq_cnt := cnt, cq_head := (if cnt = 0 then 0 else cq_head q)\<rparr>)"

section \<open>List view and representation invariant\<close>

text \<open>
  Every queue of the code base is built with a capacity of at least two (8 by default); with
  capacity one, growing by half would not make room for the new element.
\<close>

definition cq_inv :: "'a circular_queue \<Rightarrow> bool" where
  "cq_inv q \<longleftrightarrow> length (cq_vec q) = cq_capacity q \<and> 2 \<le> cq_capacity q
     \<and> cq_head q < cq_capacity q \<and> cq_cnt q \<le> cq_capacity q"

definition cq_list :: "'a circular_queue \<Rightarrow> 'a list" where
  "cq_list q = map (cq_Get q) [0..<cq_cnt q]"

lemma ring_idx:
  "head < cap \<Longrightarrow> i \<le> cap \<Longrightarrow>
     (head + i) mod cap = (if head + i < cap then head + i else head + i - (cap :: nat))"
  by (simp add: le_mod_geq)

lemma ring_idx_inj:
  "head < cap \<Longrightarrow> i < cap \<Longrightarrow> j < cap \<Longrightarrow>
     (head + i) mod cap = (head + j) mod cap \<longleftrightarrow> i = (j :: nat)"
  by (auto simp: ring_idx split: if_splits)

lemma length_cq_list [simp]: "length (cq_list q) = cq_cnt q"
  by (simp add: cq_list_def)

lemma cq_list_nth [simp]: "i < cq_cnt q \<Longrightarrow> cq_list q ! i = cq_Get q i"
  by (simp add: cq_list_def)

lemma cq_list_eqI:
  assumes "cq_cnt q = length xs" and "\<And>i. i < length xs \<Longrightarrow> cq_Get q i = xs ! i"
  shows "cq_list q = xs"
  using assms by (intro nth_equalityI) auto

section \<open>Laws of the operations\<close>

lemma cq_new_laws: "2 \<le> n \<Longrightarrow> cq_inv (cq_new d n)" "cq_list (cq_new d n) = []"
  by (auto simp: cq_new_def cq_inv_def cq_list_def)

lemma cq_Reset_laws: "cq_inv q \<Longrightarrow> cq_inv (cq_Reset q)" "cq_list (cq_Reset q) = []"
  by (auto simp: cq_Reset_def cq_inv_def cq_list_def Let_def)

lemma cq_Size_law: "cq_Size q = length (cq_list q)"
  by (simp add: cq_Size_def)

lemma cq_Size_0: "cq_Size q = 0 \<longleftrightarrow> cq_list q = []"
  unfolding cq_Size_law by (rule length_0_conv)

lemma cq_Peek_law:
  assumes "cq_inv q" and "cq_list q \<noteq> []"
  shows "cq_Peek q = hd (cq_list q)"
proof -
  from assms(2) have "0 < cq_cnt q" by (metis length_cq_list length_greater_0_conv)
  then have "hd (cq_list q) = cq_Get q 0" by (simp add: hd_conv_nth assms(2))
  then show ?thesis using assms(1) by (simp add: cq_Peek_def cq_Get_def cq_inv_def)
qed

lemma cq_Get_law: "i < length (cq_list q) \<Longrightarrow> cq_Get q i = cq_list q ! i"
  by simp

lemma cq_Dequeue_list:
  assumes "cq_inv q" shows "cq_list (cq_Dequeue q) = tl (cq_list q)"
proof (rule cq_list_eqI)
  show "cq_cnt (cq_Dequeue q) = length (tl (cq_list q))"
    by (simp add: cq_Dequeue_def Let_def)
next
  fix i assume i: "i < length (tl (cq_list q))"
  then have "tl (cq_list q) ! i = cq_Get q (Suc i)" by (simp add: nth_tl)
  moreover have "(cq_head q + Suc i) mod cq_capacity q = i"
    if "Suc (cq_head q) = cq_capacity q"
    using i assms that by (subst ring_idx) (auto simp: cq_inv_def)
  ultimately show "cq_Get (cq_Dequeue q) i = tl (cq_list q) ! i"
    using i assms by (auto simp: cq_Dequeue_def cq_Get_def cq_inv_def Let_def)
qed

lemma cq_Dequeue_inv: "cq_inv q \<Longrightarrow> cq_inv (cq_Dequeue q)"
  by (auto simp: cq_Dequeue_def cq_inv_def Let_def)

text \<open>Writing one free cell next to the window, at either end.\<close>

lemma cq_append_cell:
  assumes "cq_inv q" and "cq_cnt q < cq_capacity q"
  shows "cq_list (q\<lparr>cq_vec := (cq_vec q)[(cq_head q + cq_cnt q) mod cq_capacity q := x],
                    cq_cnt := Suc (cq_cnt q)\<rparr>) = cq_list q @ [x]"
  using assms
  by (intro cq_list_eqI) (auto simp: cq_Get_def cq_inv_def nth_append less_Suc_eq nth_list_update ring_idx_inj)

lemma cq_list_empty: "cq_cnt q = 0 \<Longrightarrow> cq_list q = []"
  by (simp add: cq_list_def)

lemma cq_first_cell:
  assumes "cq_inv q"
  shows "cq_list (q\<lparr>cq_vec := (cq_vec q)[0 := x], cq_head := 0, cq_cnt := Suc 0\<rparr>) = [x]"
  using assms by (intro cq_list_eqI) (auto simp: cq_Get_def cq_inv_def)

text \<open>The unrolled copy of a full ring.\<close>

lemma cq_full_list:
  assumes "cq_inv q" and "cq_cnt q = cq_capacity q"
  shows "cq_list q = drop (cq_head q) (cq_vec q) @ take (cq_head q) (cq_vec q)"
  using assms
  by (intro cq_list_eqI) (auto simp: cq_Get_def cq_inv_def nth_append ring_idx add.commute)

lemma cq_move_loop_eq:
  assumes "idx \<le> stop" and "stop \<le> length src" and "endp + (stop - idx) \<le> length dst"
  shows "cq_move_loop src idx stop dst endp =
           (take endp dst @ take (stop - idx) (drop idx src) @ drop (endp + (stop - idx)) dst,
            endp + (stop - idx))"
  using assms
proof (induction src idx stop dst endp rule: cq_move_loop.induct)
  case (1 src idx stop dst endp)
  have shift: "Suc (endp + (stop - Suc idx)) = endp + (stop - idx)" if "idx < stop"
    using that by simp
  show ?case
  proof (cases "idx < stop")
    case True
    have "take (Suc endp) (dst[endp := src ! idx]) = take endp dst @ [src ! idx]"
      using 1 True by (simp add: take_Suc_conv_app_nth)
    moreover have "take (stop - idx) (drop idx src)
        = src ! idx # take (stop - Suc idx) (drop (Suc idx) src)"
      using 1 True by (simp flip: Cons_nth_drop_Suc add: take_Cons')
    ultimately show ?thesis
      using 1 True shift by (simp add: cq_move_loop.simps [of src idx] del: add_diff_assoc Nat.add_diff_assoc)
  next
    case False
    with 1 show ?thesis by (subst cq_move_loop.simps) simp
  qed
qed

lemma cq_grown_list:
  assumes "cq_vec q = xs @ x # ys" and "cq_head q = 0" and "cq_cnt q = Suc (length xs)"
    and "cq_capacity q = Suc (length xs + length ys)"
  shows "cq_list q = xs @ [x]"
  using assms by (intro cq_list_eqI) (auto simp: cq_Get_def nth_append less_Suc_eq)

lemma replicate_update_first: "0 < k \<Longrightarrow> (replicate k d)[0 := x] = x # replicate (k - 1) d"
  by (cases k) auto

text \<open>The three cases every insertion distinguishes.\<close>

lemma cq_fill_cases [consumes 1, case_names empty full room]:
  assumes "cq_inv q"
  obtains "cq_cnt q = 0"
  | "cq_cnt q \<noteq> 0" "cq_cnt q = cq_capacity q"
      "length (drop (cq_head q) (cq_vec q) @ take (cq_head q) (cq_vec q)) = cq_capacity q"
      "cq_list q = drop (cq_head q) (cq_vec q) @ take (cq_head q) (cq_vec q)"
  | "cq_cnt q \<noteq> 0" "cq_cnt q < cq_capacity q"
proof -
  have "cq_cnt q < cq_capacity q \<or> cq_cnt q = cq_capacity q"
    using assms by (auto simp: cq_inv_def)
  then show ?thesis
    using that assms cq_full_list [OF assms] by (cases "cq_cnt q = 0") (auto simp: cq_inv_def)
qed

lemma cq_Enqueue_copy_list:
  assumes "cq_inv q" shows "cq_list (cq_Enqueue_copy q x) = cq_list q @ [x]"
  using assms
proof (cases rule: cq_fill_cases)
  case empty
  then show ?thesis using assms by (simp add: cq_Enqueue_copy_def cq_first_cell cq_list_empty)
next
  case full
  let ?xs = "drop (cq_head q) (cq_vec q) @ take (cq_head q) (cq_vec q)"
  from full assms show ?thesis
    unfolding full(4) cq_Enqueue_copy_def
    by (intro cq_grown_list [where ys = "replicate (cq_capacity q - 1) (cq_default q)"])
      (auto simp: Let_def cq_inv_def list_update_append replicate_update_first)
next
  case room
  with assms show ?thesis by (simp add: cq_Enqueue_copy_def Let_def cq_append_cell)
qed

lemma cq_Enqueue_list:
  assumes "cq_inv q" shows "cq_list (cq_Enqueue q x) = cq_list q @ [x]"
  using assms
proof (cases rule: cq_fill_cases)
  case empty
  then show ?thesis using assms by (simp add: cq_Enqueue_def cq_first_cell cq_list_empty)
next
  case full
  let ?xs = "drop (cq_head q) (cq_vec q) @ take (cq_head q) (cq_vec q)"
  from full assms show ?thesis
    unfolding full(4) cq_Enqueue_def
    by (intro cq_grown_list [where ys = "replicate ((cq_capacity q * 3) div 2 - Suc (cq_capacity q)) (cq_default q)"])
      (auto simp: Let_def cq_inv_def cq_move_loop_eq list_update_append replicate_update_first)
next
  case room
  with assms show ?thesis by (simp add: cq_Enqueue_def Let_def cq_append_cell)
qed

lemma cq_EnqueueAsFirst_room:
  assumes "cq_inv q" and "cq_cnt q < cq_capacity q"
    and "h = (if cq_head q \<noteq> 0 then cq_head q - 1 else cq_capacity q - 1)"
  shows "cq_list (q\<lparr>cq_vec := (cq_vec q)[h := x], cq_head := h, cq_cnt := cq_cnt q + 1\<rparr>)
           = x # cq_list q"
proof (rule cq_list_eqI)
  fix i assume "i < length (x # cq_list q)"
  then have i: "i \<le> cq_cnt q" by simp
  have h: "h < cq_capacity q" "(h + Suc j) mod cq_capacity q = (cq_head q + j) mod cq_capacity q" for j
    using assms by (auto simp: cq_inv_def)
  show "cq_Get (q\<lparr>cq_vec := (cq_vec q)[h := x], cq_head := h, cq_cnt := cq_cnt q + 1\<rparr>) i
          = (x # cq_list q) ! i"
  proof (cases i)
    case 0
    then show ?thesis using assms h(1) by (simp add: cq_Get_def cq_inv_def)
  next
    case (Suc j)
    have "(h + i) mod cq_capacity q \<noteq> (h + 0) mod cq_capacity q"
      using ring_idx_inj [of h "cq_capacity q" i 0] h(1) i Suc assms(2) by simp
    with Suc i h show ?thesis by (simp add: cq_Get_def)
  qed
qed simp

lemma cq_EnqueueAsFirst_list:
  assumes "cq_inv q" shows "cq_list (cq_EnqueueAsFirst q x) = x # cq_list q"
  using assms
proof (cases rule: cq_fill_cases)
  case empty
  then show ?thesis
    using assms by (simp add: cq_EnqueueAsFirst_def cq_first_cell cq_list_empty)
next
  case full
  let ?xs = "drop (cq_head q) (cq_vec q) @ take (cq_head q) (cq_vec q)"
  let ?n = "(cq_capacity q * 3) div 2"
  have n: "cq_capacity q < ?n" using assms by (auto simp: cq_inv_def)
  show ?thesis
  proof (rule cq_list_eqI)
    show "cq_cnt (cq_EnqueueAsFirst q x) = length (x # cq_list q)"
      using full by (simp add: cq_EnqueueAsFirst_def Let_def)
  next
    fix i assume "i < length (x # cq_list q)"
    then have i: "i \<le> cq_capacity q" using full by simp
    have idx: "(?n - 1 + i) mod ?n = (if i = 0 then ?n - 1 else i - 1)"
      using n i by (subst ring_idx) auto
    have neq: "?n - Suc 0 \<noteq> i - Suc 0" if "0 < i"
      using n i that by linarith
    show "cq_Get (cq_EnqueueAsFirst q x) i = (x # cq_list q) ! i"
      using full assms n i idx neq
      by (auto simp: cq_EnqueueAsFirst_def Let_def cq_Get_def cq_inv_def nth_append nth_Cons' full(4)
               simp del: cq_list_nth)
  qed
next
  case room
  with assms show ?thesis
    using cq_EnqueueAsFirst_room [OF assms room(2) refl]
    by (auto simp: cq_EnqueueAsFirst_def)
qed

lemma cq_insert_inv:
  assumes "cq_inv q"
  shows "cq_inv (cq_Enqueue_copy q x)" "cq_inv (cq_Enqueue q x)" "cq_inv (cq_EnqueueAsFirst q x)"
  using assms
  by (auto simp: cq_inv_def cq_Enqueue_copy_def cq_Enqueue_def cq_EnqueueAsFirst_def cq_move_loop_eq Let_def)

lemma length_cq_erase_loop [simp]: "length (cq_erase_loop i lim h cap vec) = length vec"
proof (induction i lim h cap vec rule: cq_erase_loop.induct)
  case (1 i lim h cap vec)
  then show ?case by (cases "i < lim") (simp_all add: cq_erase_loop.simps [of i lim h cap vec])
qed

lemma cq_erase_loop_nth:
  assumes "length vec = cap" and "h < cap" and "lim < cap" and "i \<le> lim" and "j < lim"
  shows "cq_erase_loop i lim h cap vec ! ((h + j) mod cap)
           = vec ! ((h + (if j < i then j else Suc j)) mod cap)"
  using assms
proof (induction i lim h cap vec rule: cq_erase_loop.induct)
  case (1 i lim h cap vec)
  show ?case
  proof (cases "i < lim")
    case True
    let ?v = "vec[(h + i) mod cap := vec ! ((h + i + 1) mod cap)]"
    have "cq_erase_loop i lim h cap vec ! ((h + j) mod cap)
            = ?v ! ((h + (if j < Suc i then j else Suc j)) mod cap)"
      using 1 True by (simp add: cq_erase_loop.simps [of i lim h cap vec])
    also have "\<dots> = vec ! ((h + (if j < i then j else Suc j)) mod cap)"
      using "1.prems" True
      by (auto simp: nth_list_update ring_idx_inj less_Suc_eq)
    finally show ?thesis .
  next
    case False
    with 1 show ?thesis by (subst cq_erase_loop.simps) simp
  qed
qed

lemma cq_Erase_list:
  assumes "cq_inv q" and "i < length (cq_list q)"
  shows "cq_list (cq_Erase q i) = take i (cq_list q) @ drop (Suc i) (cq_list q)"
proof (rule cq_list_eqI)
  show "cq_cnt (cq_Erase q i) = length (take i (cq_list q) @ drop (Suc i) (cq_list q))"
    using assms by (simp add: cq_Erase_def Let_def)
next
  fix j assume "j < length (take i (cq_list q) @ drop (Suc i) (cq_list q))"
  then have j: "j < cq_cnt q - 1" using assms by simp
  then have "cq_Get (cq_Erase q i) j = cq_Get q (if j < i then j else Suc j)"
    using assms by (auto simp: cq_Erase_def Let_def cq_Get_def cq_inv_def cq_erase_loop_nth)
  then show "cq_Get (cq_Erase q i) j = (take i (cq_list q) @ drop (Suc i) (cq_list q)) ! j"
    using assms j by (simp add: nth_append)
qed

lemma cq_Erase_inv: "cq_inv q \<Longrightarrow> i < length (cq_list q) \<Longrightarrow> cq_inv (cq_Erase q i)"
  by (auto simp: cq_inv_def cq_Erase_def Let_def)

section \<open>The queue interface\<close>

text \<open>
  What the lock manager and the command queue rely on: a double-ended sequence with indexed
  access. The laws speak about the list view only, so a client never looks at the ring.
\<close>

locale indexed_queue =
  fixes invar :: "'q \<Rightarrow> bool"
    and view :: "'q \<Rightarrow> 'a list"
    and enq :: "'q \<Rightarrow> 'a \<Rightarrow> 'q"
    and enq_first :: "'q \<Rightarrow> 'a \<Rightarrow> 'q"
    and deq :: "'q \<Rightarrow> 'q"
    and peek :: "'q \<Rightarrow> 'a"
    and size_of :: "'q \<Rightarrow> nat"
    and get :: "'q \<Rightarrow> nat \<Rightarrow> 'a"
    and erase :: "'q \<Rightarrow> nat \<Rightarrow> 'q"
    and reset :: "'q \<Rightarrow> 'q"
  assumes view_enq: "invar q \<Longrightarrow> view (enq q x) = view q @ [x]"
    and view_enq_first: "invar q \<Longrightarrow> view (enq_first q x) = x # view q"
    and view_deq: "invar q \<Longrightarrow> view (deq q) = tl (view q)"
    and peek_hd: "invar q \<Longrightarrow> view q \<noteq> [] \<Longrightarrow> peek q = hd (view q)"
    and size_of_view: "size_of q = length (view q)"
    and get_nth: "i < length (view q) \<Longrightarrow> get q i = view q ! i"
    and view_erase: "invar q \<Longrightarrow> i < length (view q) \<Longrightarrow>
          view (erase q i) = take i (view q) @ drop (Suc i) (view q)"
    and view_reset: "view (reset q) = []"
    and invar_enq: "invar q \<Longrightarrow> invar (enq q x)"
    and invar_enq_first: "invar q \<Longrightarrow> invar (enq_first q x)"
    and invar_deq: "invar q \<Longrightarrow> invar (deq q)"
    and invar_erase: "invar q \<Longrightarrow> i < length (view q) \<Longrightarrow> invar (erase q i)"
    and invar_reset: "invar q \<Longrightarrow> invar (reset q)"
begin

lemmas view_laws = view_enq view_enq_first view_deq view_erase view_reset size_of_view
lemmas invar_laws = invar_enq invar_enq_first invar_deq invar_erase invar_reset

lemma scan_get: "map (get q) [0..<size_of q] = view q"
  by (rule nth_equalityI) (auto simp: size_of_view get_nth)

lemma deq_enq_first: "invar q \<Longrightarrow> view (deq (enq_first q x)) = view q"
  by (simp add: view_deq view_enq_first invar_enq_first)

lemma fifo_order:
  assumes "invar q"
  shows "view (foldl enq q xs) = view q @ xs \<and> invar (foldl enq q xs)"
  using assms by (induction xs arbitrary: q) (auto simp: view_enq invar_enq)

lemma drain_order:
  assumes "invar q"
  shows "view ((deq ^^ n) q) = drop n (view q) \<and> invar ((deq ^^ n) q)"
  using assms by (induction n) (auto simp: view_deq invar_deq drop_Suc tl_drop)

lemma erase_filter:
  assumes "invar q" and "i < length (view q)" and "\<not> P (view q ! i)"
  shows "filter P (view (erase q i)) = filter P (view q)"
  unfolding view_erase [OF assms(1,2)] using assms(2,3) by (rule filter_neq_remove_nth)

end

interpretation ring: indexed_queue cq_inv cq_list cq_Enqueue cq_EnqueueAsFirst cq_Dequeue
  cq_Peek cq_Size cq_Get cq_Erase cq_Reset
  by unfold_locales
    (simp_all add: cq_Enqueue_list cq_EnqueueAsFirst_list cq_Dequeue_list cq_Peek_law cq_Size_law
      cq_Erase_list cq_Reset_laws cq_insert_inv cq_Dequeue_inv cq_Erase_inv)

text \<open>The copying \<open>Enqueue\<close> overload honours the same contract.\<close>

interpretation ring_copy: indexed_queue cq_inv cq_list cq_Enqueue_copy cq_EnqueueAsFirst cq_Dequeue
  cq_Peek cq_Size cq_Get cq_Erase cq_Reset
  by unfold_locales
    (simp_all add: cq_Enqueue_copy_list cq_EnqueueAsFirst_list cq_Dequeue_list cq_Peek_law cq_Size_law
      cq_Erase_list cq_Reset_laws cq_insert_inv cq_Dequeue_inv cq_Erase_inv)

declare ring.view_laws [queue_laws] ring.invar_laws [queue_laws]

section \<open>Whole histories\<close>

datatype 'a queue_op = Q_Enqueue_copy 'a | Q_Enqueue 'a | Q_EnqueueAsFirst 'a | Q_Dequeue | Q_Erase nat | Q_Reset

text \<open>\<open>Erase\<close> is only called with an index below the size, which the code base's loops test.\<close>

primrec queue_exec :: "'a queue_op \<Rightarrow> 'a circular_queue \<Rightarrow> 'a circular_queue" where
  "queue_exec (Q_Enqueue_copy x) q = cq_Enqueue_copy q x"
| "queue_exec (Q_Enqueue x) q = cq_Enqueue q x"
| "queue_exec (Q_EnqueueAsFirst x) q = cq_EnqueueAsFirst q x"
| "queue_exec Q_Dequeue q = cq_Dequeue q"
| "queue_exec (Q_Erase i) q = (if i < cq_Size q then cq_Erase q i else q)"
| "queue_exec Q_Reset q = cq_Reset q"

primrec list_exec :: "'a queue_op \<Rightarrow> 'a list \<Rightarrow> 'a list" where
  "list_exec (Q_Enqueue_copy x) xs = xs @ [x]"
| "list_exec (Q_Enqueue x) xs = xs @ [x]"
| "list_exec (Q_EnqueueAsFirst x) xs = x # xs"
| "list_exec Q_Dequeue xs = tl xs"
| "list_exec (Q_Erase i) xs = (if i < length xs then take i xs @ drop (Suc i) xs else xs)"
| "list_exec Q_Reset xs = []"

lemma queue_exec_refines:
  "cq_inv q \<Longrightarrow> cq_inv (queue_exec op q) \<and> cq_list (queue_exec op q) = list_exec op (cq_list q)"
  by (cases op) (simp_all add: queue_laws ring_copy.view_laws ring_copy.invar_laws del: length_cq_list)

lemma queue_run_refines:
  "cq_inv q \<Longrightarrow> cq_inv (fold queue_exec ops q) \<and> cq_list (fold queue_exec ops q) = fold list_exec ops (cq_list q)"
  by (induction ops arbitrary: q) (simp_all add: queue_exec_refines)

text \<open>
  C14: The ring buffer is a double-ended sequence. After any history of enqueues (either
  overload), enqueues at the front, dequeues, erasures in the middle and resets on a queue built
  with any capacity of at least two, reading it by index yields the list that the same
  operations on plain lists give, whatever wrap-arounds and growths happened on the way.
\<close>

theorem circular_queue_refines_list:
  "map (cq_Get (fold queue_exec ops (cq_new d (n + 2))))
       [0..<cq_Size (fold queue_exec ops (cq_new d (n + 2)))] = fold list_exec ops []"
  unfolding ring.scan_get
  using queue_run_refines [of "cq_new d (n + 2)" ops] by (simp add: cq_new_laws)


end
