(* ===== verification/Cc_Protocol.thy ===== *)
theory Cc_Protocol
  imports Tx_Prelude
begin

text \<open>
  \<open>include/cc_protocol.h\<close>, \<open>include/tx_id.h\<close>, and the enumerations \<open>CcErrorCode\<close>
  (\<open>include/error_messages.h\<close>) and \<open>RecordStatus\<close> (\<open>include/tx_record.h\<close>): the
  vocabulary of concurrency control. An enumerator whose name two enumerations share carries
  a prefix here: \<open>CcOperation::Read\<close> is \<open>CcOp_Read\<close>.
\<close>

section \<open>Protocols, operations and lock types\<close>

datatype CcProtocol = OCC | OccRead | Locking

datatype CcOperation = CcOp_Read | CcOp_ReadForWrite | CcOp_Write | CcOp_ReadSkIndex

datatype IsolationLevel = ReadCommitted | Snapshot | RepeatableRead | Serializable

datatype LockType = NoLock | ReadIntent | ReadLock | WriteIntent | WriteLock

datatype OperationType = OpUpdate | OpDelete | OpInsert | OpUpsert | OpCreateTable | OpDropTable
  | OpTruncateTable | OpAddIndex | OpDropIndex | OpCommitCommands

datatype LockOpStatus = Successful | Failed | Blocked

definition DeduceLockType ::
    "CcOperation \<Rightarrow> IsolationLevel \<Rightarrow> CcProtocol \<Rightarrow> bool \<Rightarrow> LockType" where
  "DeduceLockType cc_op iso_level cc_protocol is_covering_keys =
     (if cc_op = CcOp_ReadSkIndex then
        if iso_level = Snapshot \<or> (iso_level = ReadCommitted \<and> is_covering_keys)
        then NoLock else ReadLock
      else if cc_op = CcOp_ReadForWrite then WriteIntent
      else if cc_op = CcOp_Write then WriteLock
      else (case iso_level of
              ReadCommitted \<Rightarrow> NoLock
            | Snapshot \<Rightarrow> NoLock
            | RepeatableRead \<Rightarrow> if cc_protocol = Locking then ReadLock else ReadIntent
            | Serializable \<Rightarrow> if cc_protocol = Locking then ReadLock else ReadIntent))"

text \<open>
  The numeric values of the enumerators order the lock types by strength; the source compares
  the underlying \<open>uint8_t\<close> values.
\<close>

primrec lock_code :: "LockType \<Rightarrow> nat" where
  "lock_code NoLock = 0"
| "lock_code ReadIntent = 1"
| "lock_code ReadLock = 2"
| "lock_code WriteIntent = 3"
| "lock_code WriteLock = 4"

instantiation LockType :: linorder
begin

definition less_eq_LockType :: "LockType \<Rightarrow> LockType \<Rightarrow> bool" where
  "less_eq_LockType a b = (lock_code a \<le> lock_code b)"

definition less_LockType :: "LockType \<Rightarrow> LockType \<Rightarrow> bool" where
  "less_LockType a b = (lock_code a < lock_code b)"

instance
proof
  fix a b :: LockType
  show "a \<le> b \<Longrightarrow> b \<le> a \<Longrightarrow> a = b"
    by (cases a; cases b) (simp_all add: less_eq_LockType_def)
qed (auto simp: less_eq_LockType_def less_LockType_def)

end

section \<open>Error codes and record status\<close>

datatype CcErrorCode =
    NO_ERROR | UNDEFINED_ERR | FORCE_FAIL | REQUESTED_NODE_NOT_LEADER
  | REQUESTED_TABLE_NOT_EXISTS | REQUESTED_INDEX_TABLE_NOT_EXISTS
  | REQUESTED_TABLE_SCHEMA_MISMATCH | NG_TERM_CHANGED | ACQUIRE_LOCK_BLOCKED
  | ACQUIRE_KEY_LOCK_FAILED_FOR_RW_CONFLICT | ACQUIRE_KEY_LOCK_FAILED_FOR_WW_CONFLICT
  | ACQUIRE_GAP_LOCK_FAILED | MVCC_READ_MUST_WAIT_WRITE | MVCC_READ_FOR_WRITE_CONFLICT
  | TX_NODE_NOT_LEADER | NEGOTIATED_TX_UNKNOWN | NEGOTIATE_TX_ERR | CRATE_CCM_SCANNER_FAILED
  | DUPLICATE_INSERT_ERR | VALIDATION_FAILED_FOR_VERSION_MISMATCH
  | VALIDATION_FAILED_FOR_CONFILICTED_TXS | GET_RANGE_ID_ERR | PIN_RANGE_SLICE_FAILED
  | DATA_STORE_ERR | LOG_CLOSURE_RESULT_UNKNOWN_ERR | WRITE_LOG_FAILED
  | DUPLICATE_MIGRATION_TX_ERR | DUPLICATE_CLUSTER_SCALE_TX_ERR | DEAD_LOCK_ABORT
  | REQUEST_LOST | OUT_OF_MEMORY | ACQUIRE_LEADER_TERM_ERR | ESTABLISH_NODE_CHANNEL_FAILED
  | PACK_SK_ERR | UNIQUE_CONSTRAINT | SYSTEM_HANDLER_ERR | DATA_NOT_ON_LOCAL_NODE
  | TASK_EXPIRED | LOG_NOT_TRUNCATABLE | UPLOAD_BATCH_REJECTED | READ_CATALOG_FAIL
  | READ_CATALOG_CONFLICT | LAST_ERROR_CODE

datatype RecordStatus =
    Normal | Unknown | Deleted | RemoteUnknown | VersionUnknown | BaseVersionMiss
  | ArchiveVersionMiss | Invalid | NonExistent | Uncreated

section \<open>Transaction identifiers\<close>

record TxId =
  global_core_id :: u32
  ident :: u32
  vec_idx :: u32

definition TxId_Reset :: "u32 \<Rightarrow> u32 \<Rightarrow> u32 \<Rightarrow> TxId \<Rightarrow> TxId" where
  "TxId_Reset core_id idt idx t = t\<lparr>global_core_id := core_id, ident := idt, vec_idx := idx\<rparr>"

definition TxId_Empty :: "TxId \<Rightarrow> bool" where
  "TxId_Empty t \<longleftrightarrow> global_core_id t = - 1"

definition TxId_eq :: "TxId \<Rightarrow> TxId \<Rightarrow> bool" where
  "TxId_eq a b \<longleftrightarrow> global_core_id a = global_core_id b \<and> ident a = ident b"

definition TxId_TxNumber :: "TxId \<Rightarrow> TxNumber" where
  "TxId_TxNumber t = or (push_bit 32 (ucast (global_core_id t))) (ucast (ident t))"

definition GetNodeId :: "TxId \<Rightarrow> u32" where
  "GetNodeId t = drop_bit 10 (global_core_id t)"

text \<open>
  Readers of a transaction number take its parts back out with shifts and masks:
  \<open>cc_shard.cpp\<close> the identity (\<open>LocateTx\<close>) and the node group (\<open>CheckRecoverTx\<close>).
\<close>

definition txn_identity :: "TxNumber \<Rightarrow> u32" where
  "txn_identity txn = ucast (and txn 0xFFFFFFFF)"

definition txn_node_group :: "TxNumber \<Rightarrow> u32" where
  "txn_node_group txn = ucast (drop_bit 42 txn)"

section \<open>Properties\<close>

lemma DeduceLockType_strength:
  "CcOp_Write = cc_op \<longleftrightarrow> DeduceLockType cc_op lvl p cov = WriteLock"
  "CcOp_ReadForWrite = cc_op \<longleftrightarrow> DeduceLockType cc_op lvl p cov = WriteIntent"
  by (cases cc_op; cases lvl; simp add: DeduceLockType_def)+

lemma TxNumber_bit:
  "bit (TxId_TxNumber t) n \<longleftrightarrow>
     (if n < 32 then bit (ident t) n else n < 64 \<and> bit (global_core_id t) (n - 32))"
  by (auto simp: TxId_TxNumber_def bit_simps dest: bit_imp_le_length)

lemma txn_identity_TxNumber: "txn_identity (TxId_TxNumber t) = ident t"
proof (rule bit_word_eqI)
  fix n
  assume "n < LENGTH(32)"
  moreover have "bit (0xFFFFFFFF :: u64) n" if "n < 32" for n
  proof -
    have eq: "(0xFFFFFFFF :: u64) = mask 32" by (simp add: mask_eq_exp_minus_1)
    show ?thesis unfolding eq using that by (simp only: bit_mask_iff) simp
  qed
  ultimately show "bit (txn_identity (TxId_TxNumber t)) n = bit (ident t) n"
    by (simp add: txn_identity_def bit_simps TxNumber_bit)
qed

lemma txn_core_TxNumber: "ucast (drop_bit 32 (TxId_TxNumber t)) = global_core_id t"
  by (rule bit_word_eqI) (simp add: bit_simps TxNumber_bit)

lemma txn_node_group_TxNumber: "txn_node_group (TxId_TxNumber t) = GetNodeId t"
  by (rule bit_word_eqI)
    (auto simp: txn_node_group_def GetNodeId_def bit_simps TxNumber_bit dest: bit_imp_le_length)

end
