(* ===== verification/Non_Blocking_Lock.thy ===== *)
theory Non_Blocking_Lock
  imports Circular_Queue Cc_Protocol
begin

text \<open>
  \<open>include/cc/non_blocking_lock.h\<close> and \<open>src/cc/non_blocking_lock.cpp\<close>: the lock of one key,
  with read intents, read locks, the fast read counter of the catalog, one write lock or write
  intent, and the queue of blocked requests.

  A request is known to the lock by its transaction number only; \<open>req_id\<close> stands for its
  address. The calls the lock makes on its surroundings are collected in a record: requests
  handed back to the shard with \<open>CcShard::Enqueue\<close>, and requests told to give up with
  \<open>AbortCcRequest\<close>. The \<open>unordered_set\<close> fields are sets: the code only inserts, erases,
  tests membership and size.
\<close>

section \<open>State\<close>

record cc_req =
  req_id :: nat
  req_txn :: TxNumber

record cc_env =
  enqueued :: "cc_req list"
  aborted :: "(cc_req \<times> CcErrorCode) list"

definition ccs_Enqueue :: "cc_req \<Rightarrow> cc_env \<Rightarrow> cc_env" where
  "ccs_Enqueue r E = E\<lparr>enqueued := enqueued E @ [r]\<rparr>"

definition AbortCcRequest :: "cc_req \<Rightarrow> CcErrorCode \<Rightarrow> cc_env \<Rightarrow> cc_env" where
  "AbortCcRequest r err E = E\<lparr>aborted := aborted E @ [(r, err)]\<rparr>"

datatype WriteLockType = NoWritelock | WLT_WriteLock | WLT_WriteIntent

record LockQueueEntry =
  lqe_req :: cc_req
  lk_type :: LockType

definition lqe_default :: LockQueueEntry where
  "lqe_default = \<lparr>lqe_req = \<lparr>req_id = 0, req_txn = 0\<rparr>, lk_type = ReadLock\<rparr>"

abbreviation lqe_txn :: "LockQueueEntry \<Rightarrow> TxNumber" where
  "lqe_txn e \<equiv> req_txn (lqe_req e)"

record NonBlockingLock =
  read_intentions :: "TxNumber set"
  read_locks :: "TxNumber set"
  read_cnt :: int
  write_lk_type :: WriteLockType
  write_txn :: TxNumber
  wlock_ts :: u64
  blocking_queue :: "LockQueueEntry circular_queue"

text \<open>
  A lock is \<open>Reset\<close> before it is first used (\<open>CcShard::NewLock\<close>), which gives the fields
  without an initialiser their values.
\<close>

definition lock_Reset :: "NonBlockingLock \<Rightarrow> NonBlockingLock" where
  "lock_Reset l = l\<lparr>read_intentions := {}, read_locks := {}, read_cnt := 0,
     write_lk_type := NoWritelock, write_txn := 0,
     blocking_queue := cq_Reset (blocking_queue l), wlock_ts := 0\<rparr>"

definition lock_new :: NonBlockingLock where
  "lock_new = \<lparr>read_intentions = {}, read_locks = {}, read_cnt = 0, write_lk_type = NoWritelock,
     write_txn = 0, wlock_ts = 0, blocking_queue = cq_new lqe_default 8\<rparr>"

section \<open>Conflict tests\<close>

definition NoReadLockConflict :: "NonBlockingLock \<Rightarrow> TxNumber \<Rightarrow> bool" where
  "NoReadLockConflict l tx_number =
     (if read_cnt l > 0 then False
      else read_locks l = {} \<or> (card (read_locks l) = 1 \<and> tx_number \<in> read_locks l))"

definition NoWriteLockConflict :: "NonBlockingLock \<Rightarrow> TxNumber \<Rightarrow> bool" where
  "NoWriteLockConflict l tx_number \<longleftrightarrow>
     write_lk_type l \<noteq> WLT_WriteLock \<or> write_txn l = tx_number"

definition NoWriteConflict :: "NonBlockingLock \<Rightarrow> TxNumber \<Rightarrow> bool" where
  "NoWriteConflict l txn \<longleftrightarrow> write_lk_type l = NoWritelock \<or> write_txn l = txn"

section \<open>Granting and waking\<close>

definition UpgradeLock :: "TxNumber \<Rightarrow> LockType \<Rightarrow> NonBlockingLock \<Rightarrow> NonBlockingLock" where
  "UpgradeLock tx_number lock_type l =
     (let l1 = (if lock_type = WriteLock then
                  l\<lparr>write_txn := tx_number, write_lk_type := WLT_WriteLock\<rparr>
                else if lock_type = WriteIntent then
                  l\<lparr>write_txn := tx_number, write_lk_type := WLT_WriteIntent\<rparr>
                else l)
      in l1\<lparr>read_intentions := read_intentions l1 - {tx_number},
            read_locks := read_locks l1 - {tx_number}\<rparr>)"

definition ExecuteQueuedRequest ::
    "LockQueueEntry \<Rightarrow> NonBlockingLock \<Rightarrow> cc_env \<Rightarrow> NonBlockingLock \<times> cc_env" where
  "ExecuteQueuedRequest queue_head l E =
     (l\<lparr>blocking_queue := cq_Dequeue (blocking_queue l)\<rparr>, ccs_Enqueue (lqe_req queue_head) E)"

text \<open>One turn of the loop of \<open>TryPopBlockingQueue\<close>: \<open>None\<close> when the head is in conflict.\<close>

definition pop_head :: "NonBlockingLock \<Rightarrow> cc_env \<Rightarrow> (NonBlockingLock \<times> cc_env) option" where
  "pop_head l E =
     (let queue_head = cq_Peek (blocking_queue l);
          queued_txn = lqe_txn queue_head
      in if lk_type queue_head = WriteLock then
           if NoWriteConflict l queued_txn \<and> NoReadLockConflict l queued_txn
           then Some (ExecuteQueuedRequest queue_head (UpgradeLock queued_txn WriteLock l) E)
           else None
         else if lk_type queue_head = WriteIntent then
           if NoWriteConflict l queued_txn
           then Some (ExecuteQueuedRequest queue_head (UpgradeLock queued_txn WriteIntent l) E)
           else None
         else if lk_type queue_head = ReadLock then
           if NoWriteLockConflict l queued_txn
           then Some (ExecuteQueuedRequest queue_head
                  (l\<lparr>read_locks := insert queued_txn (read_locks l),
                     read_intentions := read_intentions l - {queued_txn}\<rparr>) E)
           else None
         else Some (ExecuteQueuedRequest queue_head l E))"

lemma pop_head_cnt:
  "pop_head l E = Some (l', E') \<Longrightarrow> cq_cnt (blocking_queue l') = cq_cnt (blocking_queue l) - 1"
  by (auto simp: pop_head_def ExecuteQueuedRequest_def UpgradeLock_def Let_def cq_Dequeue_def
      split: if_splits)

function TryPopBlockingQueue :: "NonBlockingLock \<Rightarrow> cc_env \<Rightarrow> NonBlockingLock \<times> cc_env" where
  "TryPopBlockingQueue l E =
     (if cq_Size (blocking_queue l) > 0 then
        (case pop_head l E of
           None \<Rightarrow> (l, E)
         | Some (l', E') \<Rightarrow> TryPopBlockingQueue l' E')
      else (l, E))"
  by pat_completeness auto
termination
  by (relation "measure (\<lambda>(l, E). cq_cnt (blocking_queue l))")
    (auto simp: cq_Size_def dest: pop_head_cnt)

declare TryPopBlockingQueue.simps [simp del]

section \<open>Acquiring\<close>

definition AcquireWriteLock ::
    "cc_req \<Rightarrow> CcProtocol \<Rightarrow> NonBlockingLock \<Rightarrow> bool \<times> NonBlockingLock" where
  "AcquireWriteLock cc_req protocol l =
     (let tx_number = req_txn cc_req
      in if write_lk_type l = WLT_WriteLock \<and> write_txn l = tx_number then (True, l)
         else if NoWriteConflict l tx_number \<and> NoReadLockConflict l tx_number
         then (True, UpgradeLock tx_number WriteLock l)
         else if protocol = Locking \<or> protocol = OccRead
         then (False, l\<lparr>blocking_queue :=
                 cq_Enqueue (blocking_queue l) \<lparr>lqe_req = cc_req, lk_type = WriteLock\<rparr>\<rparr>)
         else (False, l))"

definition no_blocking_queue_conflict :: "NonBlockingLock \<Rightarrow> bool" where
  "no_blocking_queue_conflict l \<longleftrightarrow>
     cq_Size (blocking_queue l) = 0 \<or> lk_type (cq_Peek (blocking_queue l)) = WriteIntent"

definition AcquireReadLockFast :: "TxNumber \<Rightarrow> NonBlockingLock \<Rightarrow> bool \<times> NonBlockingLock" where
  "AcquireReadLockFast tx_number l =
     (if NoWriteLockConflict l tx_number \<and> no_blocking_queue_conflict l
      then (True, l\<lparr>read_cnt := read_cnt l + 1\<rparr>) else (False, l))"

definition AcquireReadLock :: "cc_req \<Rightarrow> NonBlockingLock \<Rightarrow> bool \<times> NonBlockingLock" where
  "AcquireReadLock cc_req l =
     (let tx_number = req_txn cc_req
      in if tx_number \<in> read_locks l
            \<or> (write_lk_type l \<noteq> NoWritelock \<and> write_txn l = tx_number)
         then (True, l)
         else if NoWriteLockConflict l tx_number \<and> no_blocking_queue_conflict l
         then (True, l\<lparr>read_locks := insert tx_number (read_locks l),
                        read_intentions := read_intentions l - {tx_number}\<rparr>)
         else (False, l\<lparr>blocking_queue :=
                 cq_Enqueue (blocking_queue l) \<lparr>lqe_req = cc_req, lk_type = ReadLock\<rparr>\<rparr>))"

definition AcquireWriteIntent ::
    "cc_req \<Rightarrow> CcProtocol \<Rightarrow> NonBlockingLock \<Rightarrow> bool \<times> NonBlockingLock" where
  "AcquireWriteIntent cc_req protocol l =
     (let tx_number = req_txn cc_req
      in if write_lk_type l \<noteq> NoWritelock \<and> write_txn l = tx_number then (True, l)
         else if NoWriteConflict l tx_number \<and> cq_Size (blocking_queue l) = 0
         then (True, UpgradeLock tx_number WriteIntent l)
         else if protocol \<noteq> OCC
         then (False, l\<lparr>blocking_queue :=
                 cq_Enqueue (blocking_queue l) \<lparr>lqe_req = cc_req, lk_type = WriteIntent\<rparr>\<rparr>)
         else (False, l))"

definition AcquireReadIntent :: "TxNumber \<Rightarrow> NonBlockingLock \<Rightarrow> bool \<times> NonBlockingLock" where
  "AcquireReadIntent tx_number l =
     (if tx_number \<in> read_locks l \<or> tx_number \<in> read_intentions l
         \<or> (write_lk_type l \<noteq> NoWritelock \<and> write_txn l = tx_number)
      then (False, l)
      else (True, l\<lparr>read_intentions := insert tx_number (read_intentions l)\<rparr>))"

definition AcquireLock ::
    "cc_req \<Rightarrow> CcProtocol \<Rightarrow> LockType \<Rightarrow> NonBlockingLock \<Rightarrow> LockOpStatus \<times> NonBlockingLock" where
  "AcquireLock cc_req cc_protocol lock_type l =
     (case lock_type of
        NoLock \<Rightarrow> (Successful, l)
      | ReadIntent \<Rightarrow> (Successful, snd (AcquireReadIntent (req_txn cc_req) l))
      | ReadLock \<Rightarrow>
          let (success, l') = AcquireReadLock cc_req l
          in (if success then Successful else Blocked, l')
      | WriteIntent \<Rightarrow>
          let (success, l') = AcquireWriteIntent cc_req cc_protocol l
          in (if success then Successful
              else if cc_protocol = OCC then Failed else Blocked, l')
      | WriteLock \<Rightarrow>
          let (success, l') = AcquireWriteLock cc_req cc_protocol l
          in (if success then Successful
              else if cc_protocol = OCC then Failed else Blocked, l'))"

section \<open>Releasing\<close>

definition ReleaseReadLockFast ::
    "NonBlockingLock \<Rightarrow> cc_env \<Rightarrow> bool \<times> NonBlockingLock \<times> cc_env" where
  "ReleaseReadLockFast l E =
     (True, TryPopBlockingQueue (l\<lparr>read_cnt := read_cnt l - 1\<rparr>) E)"

definition ReleaseReadLock ::
    "TxNumber \<Rightarrow> NonBlockingLock \<Rightarrow> cc_env \<Rightarrow> bool \<times> NonBlockingLock \<times> cc_env" where
  "ReleaseReadLock tx_number l E =
     (if read_locks l = {} then (False, l, E)
      else if tx_number \<notin> read_locks l then (False, l, E)
      else (True, TryPopBlockingQueue (l\<lparr>read_locks := read_locks l - {tx_number}\<rparr>) E))"

text \<open>The flag says that the shard pointer is null, which only unit tests pass.\<close>

definition ReleaseWriteLock ::
    "TxNumber \<Rightarrow> bool \<Rightarrow> NonBlockingLock \<Rightarrow> cc_env \<Rightarrow> bool \<times> NonBlockingLock \<times> cc_env" where
  "ReleaseWriteLock tx_number ccs_null l E =
     (if write_lk_type l \<noteq> WLT_WriteLock \<or> write_txn l \<noteq> tx_number then (False, l, E)
      else let l' = l\<lparr>write_lk_type := NoWritelock, write_txn := 0\<rparr>
           in if ccs_null then (True, l', E) else (True, TryPopBlockingQueue l' E))"

definition DowngradeWriteLock ::
    "TxNumber \<Rightarrow> NonBlockingLock \<Rightarrow> cc_env \<Rightarrow> NonBlockingLock \<times> cc_env" where
  "DowngradeWriteLock tx_number l E =
     (if write_lk_type l \<noteq> WLT_WriteLock \<or> write_txn l \<noteq> tx_number then (l, E)
      else TryPopBlockingQueue (l\<lparr>write_lk_type := WLT_WriteIntent\<rparr>) E)"

definition ReleaseWriteIntent ::
    "TxNumber \<Rightarrow> NonBlockingLock \<Rightarrow> cc_env \<Rightarrow> bool \<times> NonBlockingLock \<times> cc_env" where
  "ReleaseWriteIntent tx_number l E =
     (if write_lk_type l \<noteq> WLT_WriteIntent \<or> write_txn l \<noteq> tx_number then (False, l, E)
      else (True, TryPopBlockingQueue (l\<lparr>write_lk_type := NoWritelock, write_txn := 0\<rparr>) E))"

definition ReleaseReadIntent :: "TxNumber \<Rightarrow> NonBlockingLock \<Rightarrow> bool \<times> NonBlockingLock" where
  "ReleaseReadIntent tx_number l =
     (if read_intentions l = {} then (False, l)
      else (tx_number \<in> read_intentions l,
            l\<lparr>read_intentions := read_intentions l - {tx_number}\<rparr>))"

definition lock_ClearTx ::
    "TxNumber \<Rightarrow> NonBlockingLock \<Rightarrow> cc_env \<Rightarrow> LockType \<times> NonBlockingLock \<times> cc_env" where
  "lock_ClearTx tx_number l E =
     (let (r1, l1, E1) = ReleaseReadLock tx_number l E
      in if r1 then (ReadLock, l1, E1)
         else let (r2, l2) = ReleaseReadIntent tx_number l1
              in if r2 then (ReadIntent, l2, E1)
                 else if write_lk_type l2 \<noteq> NoWritelock \<and> write_txn l2 = tx_number
                 then (if write_lk_type l2 = WLT_WriteLock then WriteLock else WriteIntent,
                       TryPopBlockingQueue
                         (l2\<lparr>write_lk_type := NoWritelock, write_txn := 0\<rparr>) E1)
                 else (NoLock, l2, E1))"

section \<open>The queue of blocked requests\<close>

definition InsertBlockingQueue ::
    "cc_req \<Rightarrow> LockType \<Rightarrow> NonBlockingLock \<Rightarrow> NonBlockingLock" where
  "InsertBlockingQueue cc_req lock_type l =
     l\<lparr>blocking_queue :=
         cq_EnqueueAsFirst (blocking_queue l) \<lparr>lqe_req = cc_req, lk_type = lock_type\<rparr>\<rparr>"

definition GetBlockTxIds :: "TxNumber \<Rightarrow> NonBlockingLock \<Rightarrow> TxNumber list" where
  "GetBlockTxIds exclude_id l =
     concat (map (\<lambda>i. let lqe = cq_Get (blocking_queue l) i
                      in if lqe_txn lqe = exclude_id then [] else [lqe_txn lqe])
              [0..<cq_Size (blocking_queue l)])"

definition AbortAllQueuedRequests ::
    "CcErrorCode \<Rightarrow> NonBlockingLock \<Rightarrow> cc_env \<Rightarrow> NonBlockingLock \<times> cc_env" where
  "AbortAllQueuedRequests err l E =
     (l\<lparr>blocking_queue := cq_Reset (blocking_queue l)\<rparr>,
      fold (\<lambda>i. AbortCcRequest (lqe_req (cq_Get (blocking_queue l) i)) err)
        [0..<cq_Size (blocking_queue l)] E)"

text \<open>
  The loop of \<open>AbortQueueRequest\<close> from index \<open>i\<close> on: after an erasure the index stays, since
  \<open>i--\<close> undoes the increment.
\<close>

function abort_queue_loop ::
    "TxNumber \<Rightarrow> CcErrorCode \<Rightarrow> nat \<Rightarrow> NonBlockingLock \<Rightarrow> cc_env \<Rightarrow> NonBlockingLock \<times> cc_env" where
  "abort_queue_loop txid err i l E =
     (if i < cq_Size (blocking_queue l) then
        let ety = cq_Get (blocking_queue l) i
        in if lqe_txn ety = txid
           then abort_queue_loop txid err i
                  (l\<lparr>blocking_queue := cq_Erase (blocking_queue l) i\<rparr>)
                  (AbortCcRequest (lqe_req ety) err E)
           else abort_queue_loop txid err (i + 1) l E
      else (l, E))"
  by pat_completeness auto
termination
  by (relation "measure (\<lambda>(txid, err, i, l, E). cq_cnt (blocking_queue l) - i)")
    (auto simp: cq_Size_def cq_Erase_def Let_def)

declare abort_queue_loop.simps [simp del]

definition AbortQueueRequest ::
    "TxNumber \<Rightarrow> CcErrorCode \<Rightarrow> NonBlockingLock \<Rightarrow> cc_env \<Rightarrow> NonBlockingLock \<times> cc_env" where
  "AbortQueueRequest txid err l E = abort_queue_loop txid err 0 l E"

definition FindQueueRequest :: "TxNumber \<Rightarrow> NonBlockingLock \<Rightarrow> bool" where
  "FindQueueRequest txid l =
     list_ex (\<lambda>i. lqe_txn (cq_Get (blocking_queue l) i) = txid) [0..<cq_Size (blocking_queue l)]"

section \<open>Queries\<close>

definition lock_IsEmpty :: "NonBlockingLock \<Rightarrow> bool" where
  "lock_IsEmpty l \<longleftrightarrow> read_intentions l = {} \<and> read_locks l = {} \<and> read_cnt l = 0
     \<and> write_lk_type l = NoWritelock \<and> cq_Size (blocking_queue l) = 0"

definition HasWriteLock :: "NonBlockingLock \<Rightarrow> bool" where
  "HasWriteLock l \<longleftrightarrow> write_lk_type l = WLT_WriteLock"

definition WriteTx :: "NonBlockingLock \<Rightarrow> TxNumber \<times> WriteLockType" where
  "WriteTx l = (write_txn l, write_lk_type l)"

definition HasWriteLockOrWriteIntent :: "NonBlockingLock \<Rightarrow> TxNumber \<Rightarrow> bool" where
  "HasWriteLockOrWriteIntent l txn \<longleftrightarrow> write_lk_type l \<noteq> NoWritelock \<and> write_txn l = txn"

definition HasWriteLock_of :: "NonBlockingLock \<Rightarrow> TxNumber \<Rightarrow> bool" where
  "HasWriteLock_of l txn \<longleftrightarrow> write_lk_type l = WLT_WriteLock \<and> write_txn l = txn"

definition SetWLockTs :: "u64 \<Rightarrow> NonBlockingLock \<Rightarrow> NonBlockingLock" where
  "SetWLockTs ts l = l\<lparr>wlock_ts := ts\<rparr>"

definition SearchLock :: "TxNumber \<Rightarrow> NonBlockingLock \<Rightarrow> LockType" where
  "SearchLock txn l =
     (if write_lk_type l \<noteq> NoWritelock \<and> write_txn l = txn
      then if write_lk_type l = WLT_WriteLock then WriteLock else WriteIntent
      else if txn \<in> read_locks l then ReadLock
      else if txn \<in> read_intentions l then ReadIntent
      else NoLock)"

end
