(* ===== verification/Lock_Spec.thy ===== *)
theory Lock_Spec
  imports Non_Blocking_Lock
begin

text \<open>
  What a key lock promises. The abstract lock is a relation between transactions and the lock
  types they hold, the number of fast readers, and the list of waiting requests. Its conflict
  table is the one the header comment of \<open>blocking_queue_\<close> gives: a write lock conflicts with
  write locks, write intents and read locks, a write intent with write locks and write
  intents, a read lock with write locks. Exclusion, wake-up and order of service are proved of
  the abstract lock here; \<open>Lock_Refinement\<close> carries them over to the code.
\<close>

section \<open>The abstract lock\<close>

record abstract_lock =
  holders :: "(TxNumber \<times> LockType) set"
  fast_readers :: int
  waiting :: "LockQueueEntry list"

primrec conflicts :: "LockType \<Rightarrow> LockType \<Rightarrow> bool" where
  "conflicts NoLock h = False"
| "conflicts ReadIntent h = False"
| "conflicts ReadLock h = (h = WriteLock)"
| "conflicts WriteIntent h = (h = WriteLock \<or> h = WriteIntent)"
| "conflicts WriteLock h = (h = WriteLock \<or> h = WriteIntent \<or> h = ReadLock)"

definition grantable :: "abstract_lock \<Rightarrow> TxNumber \<Rightarrow> LockType \<Rightarrow> bool" where
  "grantable s t lt \<longleftrightarrow>
     (\<forall>(u, h) \<in> holders s. u \<noteq> t \<longrightarrow> \<not> conflicts lt h)
     \<and> (lt = WriteLock \<longrightarrow> fast_readers s \<le> 0)"

definition grant :: "TxNumber \<Rightarrow> LockType \<Rightarrow> abstract_lock \<Rightarrow> abstract_lock" where
  "grant t lt s =
     (if lt = WriteLock \<or> lt = WriteIntent
      then s\<lparr>holders := insert (t, lt) {p \<in> holders s. fst p \<noteq> t}\<rparr>
      else if lt = ReadLock
      then s\<lparr>holders := insert (t, ReadLock) (holders s - {(t, ReadIntent)})\<rparr>
      else s)"

text \<open>Waking serves the waiting list from the front and stops at the first conflict.\<close>

primrec serve :: "LockQueueEntry list \<Rightarrow> abstract_lock \<Rightarrow> cc_env \<Rightarrow> abstract_lock \<times> cc_env" where
  "serve [] s E = (s\<lparr>waiting := []\<rparr>, E)"
| "serve (e # es) s E =
     (if grantable s (lqe_txn e) (lk_type e)
      then serve es (grant (lqe_txn e) (lk_type e) s) (ccs_Enqueue (lqe_req e) E)
      else (s\<lparr>waiting := e # es\<rparr>, E))"

definition wake :: "abstract_lock \<Rightarrow> cc_env \<Rightarrow> abstract_lock \<times> cc_env" where
  "wake s E = serve (waiting s) s E"

text \<open>
  A transaction that already holds a lock at least as strong as the one it asks for succeeds
  at once. A read lock is only admitted past an empty queue or a waiting write intent, a
  write intent only past an empty queue, a write lock past any queue.
\<close>

definition covered :: "TxNumber \<Rightarrow> LockType \<Rightarrow> abstract_lock \<Rightarrow> bool" where
  "covered t lt s \<longleftrightarrow>
     (case lt of
        NoLock \<Rightarrow> True
      | ReadIntent \<Rightarrow> (t, ReadIntent) \<in> holders s \<or> (t, ReadLock) \<in> holders s
          \<or> (t, WriteIntent) \<in> holders s \<or> (t, WriteLock) \<in> holders s
      | ReadLock \<Rightarrow> (t, ReadLock) \<in> holders s
          \<or> (t, WriteIntent) \<in> holders s \<or> (t, WriteLock) \<in> holders s
      | WriteIntent \<Rightarrow> (t, WriteIntent) \<in> holders s \<or> (t, WriteLock) \<in> holders s
      | WriteLock \<Rightarrow> (t, WriteLock) \<in> holders s)"

definition admitted :: "LockType \<Rightarrow> abstract_lock \<Rightarrow> bool" where
  "admitted lt s \<longleftrightarrow>
     (case lt of
        ReadLock \<Rightarrow> waiting s = [] \<or> lk_type (hd (waiting s)) = WriteIntent
      | WriteIntent \<Rightarrow> waiting s = []
      | _ \<Rightarrow> True)"

definition spec_acquire ::
    "cc_req \<Rightarrow> CcProtocol \<Rightarrow> LockType \<Rightarrow> abstract_lock \<Rightarrow> LockOpStatus \<times> abstract_lock" where
  "spec_acquire r p lt s =
     (if covered (req_txn r) lt s then (Successful, s)
      else if lt = ReadIntent
      then (Successful, s\<lparr>holders := insert (req_txn r, ReadIntent) (holders s)\<rparr>)
      else if grantable s (req_txn r) lt \<and> admitted lt s
      then (Successful, grant (req_txn r) lt s)
      else if p = OCC \<and> lt \<noteq> ReadLock then (Failed, s)
      else (Blocked, s\<lparr>waiting := waiting s @ [\<lparr>lqe_req = r, lk_type = lt\<rparr>]\<rparr>))"

definition unhold :: "TxNumber \<Rightarrow> LockType \<Rightarrow> abstract_lock \<Rightarrow> abstract_lock" where
  "unhold t lt s = s\<lparr>holders := holders s - {(t, lt)}\<rparr>"

definition spec_release ::
    "TxNumber \<Rightarrow> LockType \<Rightarrow> abstract_lock \<Rightarrow> cc_env \<Rightarrow> bool \<times> abstract_lock \<times> cc_env" where
  "spec_release t lt s E =
     (if (t, lt) \<in> holders s then (True, wake (unhold t lt s) E) else (False, s, E))"

definition spec_clear ::
    "TxNumber \<Rightarrow> abstract_lock \<Rightarrow> cc_env \<Rightarrow> LockType \<times> abstract_lock \<times> cc_env" where
  "spec_clear t s E =
     (if (t, ReadLock) \<in> holders s then (ReadLock, wake (unhold t ReadLock s) E)
      else if (t, ReadIntent) \<in> holders s then (ReadIntent, unhold t ReadIntent s, E)
      else if (t, WriteLock) \<in> holders s then (WriteLock, wake (unhold t WriteLock s) E)
      else if (t, WriteIntent) \<in> holders s then (WriteIntent, wake (unhold t WriteIntent s) E)
      else (NoLock, s, E))"

section \<open>Operations and their results\<close>

datatype lock_op =
    Op_Acquire cc_req CcProtocol LockType
  | Op_ReadFast TxNumber
  | Op_ReleaseReadFast
  | Op_ReleaseRead TxNumber
  | Op_ReleaseWrite TxNumber
  | Op_Downgrade TxNumber
  | Op_ReleaseWriteIntent TxNumber
  | Op_ReleaseReadIntent TxNumber
  | Op_ClearTx TxNumber
  | Op_Insert cc_req LockType
  | Op_AbortQueued TxNumber CcErrorCode
  | Op_AbortAll CcErrorCode
  | Op_Reset

datatype lock_result = R_Status LockOpStatus | R_Bool bool | R_Type LockType | R_Unit

definition abort_entries :: "CcErrorCode \<Rightarrow> LockQueueEntry list \<Rightarrow> cc_env \<Rightarrow> cc_env" where
  "abort_entries err es E = E\<lparr>aborted := aborted E @ map (\<lambda>e. (lqe_req e, err)) es\<rparr>"

primrec spec_exec ::
    "lock_op \<Rightarrow> abstract_lock \<Rightarrow> cc_env \<Rightarrow> lock_result \<times> abstract_lock \<times> cc_env" where
  "spec_exec (Op_Acquire r p lt) s E = (let (st, s') = spec_acquire r p lt s in (R_Status st, s', E))"
| "spec_exec (Op_ReadFast t) s E =
     (if grantable s t ReadLock \<and> admitted ReadLock s
      then (R_Bool True, s\<lparr>fast_readers := fast_readers s + 1\<rparr>, E) else (R_Bool False, s, E))"
| "spec_exec Op_ReleaseReadFast s E =
     (R_Bool True, wake (s\<lparr>fast_readers := fast_readers s - 1\<rparr>) E)"
| "spec_exec (Op_ReleaseRead t) s E = map_prod R_Bool id (spec_release t ReadLock s E)"
| "spec_exec (Op_ReleaseWrite t) s E = map_prod R_Bool id (spec_release t WriteLock s E)"
| "spec_exec (Op_Downgrade t) s E =
     (R_Unit, if (t, WriteLock) \<in> holders s
              then wake (s\<lparr>holders := insert (t, WriteIntent) (holders s - {(t, WriteLock)})\<rparr>) E
              else (s, E))"
| "spec_exec (Op_ReleaseWriteIntent t) s E = map_prod R_Bool id (spec_release t WriteIntent s E)"
| "spec_exec (Op_ReleaseReadIntent t) s E =
     (R_Bool ((t, ReadIntent) \<in> holders s), unhold t ReadIntent s, E)"
| "spec_exec (Op_ClearTx t) s E = map_prod R_Type id (spec_clear t s E)"
| "spec_exec (Op_Insert r lt) s E =
     (R_Unit, s\<lparr>waiting := \<lparr>lqe_req = r, lk_type = lt\<rparr> # waiting s\<rparr>, E)"
| "spec_exec (Op_AbortQueued t err) s E =
     (R_Unit, s\<lparr>waiting := filter (\<lambda>e. lqe_txn e \<noteq> t) (waiting s)\<rparr>,
      abort_entries err (filter (\<lambda>e. lqe_txn e = t) (waiting s)) E)"
| "spec_exec (Op_AbortAll err) s E = (R_Unit, s\<lparr>waiting := []\<rparr>, abort_entries err (waiting s) E)"
| "spec_exec Op_Reset s E = (R_Unit, \<lparr>holders = {}, fast_readers = 0, waiting = []\<rparr>, E)"

lemma grantable_waiting [simp]: "grantable (s\<lparr>waiting := w\<rparr>) t lt = grantable s t lt"
  by (simp add: grantable_def)

lemma grant_waiting:
  "waiting (grant t lt s) = waiting s" "grant t lt (s\<lparr>waiting := w\<rparr>) = (grant t lt s)\<lparr>waiting := w\<rparr>"
  by (simp_all add: grant_def)

lemma serve_waiting [simp]: "serve es (s\<lparr>waiting := w\<rparr>) E = serve es s E"
  by (induction es arbitrary: s E w) (simp_all add: grant_waiting)

section \<open>Exclusion\<close>

text \<open>
  Transactions that hold conflicting locks never coexist. The ghost list \<open>fs\<close> names the
  transactions behind the fast read counter.
\<close>

definition excl :: "TxNumber list \<Rightarrow> abstract_lock \<Rightarrow> bool" where
  "excl fs s \<longleftrightarrow>
     (\<forall>t h u k. (t, h) \<in> holders s \<longrightarrow> (u, k) \<in> holders s \<longrightarrow> t \<noteq> u \<longrightarrow> \<not> conflicts h k)
     \<and> fast_readers s = int (length fs)
     \<and> (\<forall>w. (w, WriteLock) \<in> holders s \<longrightarrow> set fs \<subseteq> {w})"

lemma conflicts_sym: "conflicts h k = conflicts k h"
  by (cases h; cases k) simp_all

lemma excl_no_conflict:
  "excl fs s \<Longrightarrow> (t, h) \<in> holders s \<Longrightarrow> (u, k) \<in> holders s \<Longrightarrow> t \<noteq> u \<Longrightarrow> \<not> conflicts h k"
  by (simp add: excl_def)

lemma excl_fast_readers: "excl fs s \<Longrightarrow> (w, WriteLock) \<in> holders s \<Longrightarrow> set fs \<subseteq> {w}"
  by (simp add: excl_def)

lemma exclI:
  assumes "\<And>t h u k. (t, h) \<in> holders s \<Longrightarrow> (u, k) \<in> holders s \<Longrightarrow> t \<noteq> u \<Longrightarrow> \<not> conflicts h k"
    and "fast_readers s = int (length fs)"
    and "\<And>w. (w, WriteLock) \<in> holders s \<Longrightarrow> set fs \<subseteq> {w}"
  shows "excl fs s"
  unfolding excl_def using assms by simp

lemma excl_mono:
  assumes "excl fs s" and "holders s' \<subseteq> holders s" and "fast_readers s' = fast_readers s"
  shows "excl fs s'"
proof (rule exclI)
  show "fast_readers s' = int (length fs)" using assms(1,3) by (simp add: excl_def)
qed (use assms(2) excl_no_conflict [OF assms(1)] excl_fast_readers [OF assms(1)] in \<open>meson subsetD\<close>)+

lemma excl_waiting [simp]: "excl fs (s\<lparr>waiting := w\<rparr>) = excl fs s"
  by (simp add: excl_def)

lemma excl_unhold: "excl fs s \<Longrightarrow> excl fs (unhold t lt s)"
  by (erule excl_mono) (auto simp: unhold_def)

lemma grantable_no_conflict:
  "grantable s t lt \<Longrightarrow> (u, h) \<in> holders s \<Longrightarrow> u \<noteq> t \<Longrightarrow> \<not> conflicts lt h \<and> \<not> conflicts h lt"
  unfolding conflicts_sym [of h] by (auto simp: grantable_def)

lemma excl_insert:
  assumes "excl fs s" and sub: "holders s' \<subseteq> insert (t, lt) (holders s)"
    and "fast_readers s' = fast_readers s" and "grantable s t lt"
  shows "excl fs s'"
proof -
  have "fs = []" if "lt = WriteLock"
    using assms(1,4) that by (simp add: excl_def grantable_def)
  then have "set fs \<subseteq> {w}" if "(w, WriteLock) \<in> holders s'" for w
    using that assms(1) sub by (cases "(w, WriteLock) = (t, lt)") (auto simp: excl_def)
  moreover have "\<not> conflicts h k" if vu: "(v, h) \<in> holders s'" "(u, k) \<in> holders s'" "v \<noteq> u" for v h u k
  proof -
    consider "(v, h) = (t, lt)" "(u, k) \<in> holders s" | "(u, k) = (t, lt)" "(v, h) \<in> holders s"
      | "(v, h) \<in> holders s" "(u, k) \<in> holders s"
      using vu sub by blast
    then show ?thesis
      using vu(3) grantable_no_conflict [OF assms(4)] excl_no_conflict [OF assms(1)] by cases auto
  qed
  ultimately show ?thesis
    using assms(1,3) by (intro exclI) (simp_all add: excl_def)
qed

lemma excl_grant: "excl fs s \<Longrightarrow> grantable s t lt \<Longrightarrow> excl fs (grant t lt s)"
  by (erule excl_insert [of _ _ _ t lt]) (auto simp: grant_def)

lemma excl_serve: "excl fs s \<Longrightarrow> excl fs (fst (serve es s E))"
  by (induction es arbitrary: s E) (auto simp: excl_grant)

lemma excl_wake: "excl fs s \<Longrightarrow> excl fs (fst (wake s E))"
  by (simp add: wake_def excl_serve)

lemma excl_downgrade:
  assumes "excl fs s" and "(t, WriteLock) \<in> holders s"
  shows "excl fs (s\<lparr>holders := insert (t, WriteIntent) (holders s - {(t, WriteLock)})\<rparr>)"
proof (rule excl_insert [OF assms(1), of _ t WriteIntent])
  show "grantable s t WriteIntent"
    using excl_no_conflict [OF assms(1,2)] by (auto simp: grantable_def)
qed auto

lemma excl_acquire:
  assumes "excl fs s"
  shows "excl fs (snd (spec_acquire r p lt s))"
proof -
  have "excl fs (s\<lparr>holders := insert (t, ReadIntent) (holders s)\<rparr>)" for t
    by (rule excl_insert [OF assms, of _ t ReadIntent]) (simp_all add: grantable_def)
  then show ?thesis using assms by (simp add: spec_acquire_def excl_grant)
qed

text \<open>Every operation but the two that move the fast read counter, and \<open>Reset\<close>.\<close>

lemma excl_exec:
  assumes "excl fs s" and "op \<noteq> Op_ReleaseReadFast" and "op \<noteq> Op_Reset" and "\<And>t. op \<noteq> Op_ReadFast t"
  shows "excl fs (fst (snd (spec_exec op s E)))"
  using assms excl_acquire [OF assms(1)]
  by (cases op) (auto simp: spec_release_def spec_clear_def excl_wake excl_unhold excl_downgrade
      case_prod_beta)

lemma excl_fast:
  assumes "excl fs s" and "spec_exec (Op_ReadFast t) s E = (R_Bool True, s', E')"
  shows "excl (t # fs) s'"
proof -
  have s': "s' = s\<lparr>fast_readers := fast_readers s + 1\<rparr>" and "grantable s t ReadLock"
    using assms(2) by (simp_all split: if_splits)
  then have "w = t" if "(w, WriteLock) \<in> holders s" for w
    using that grantable_no_conflict [of s t ReadLock w WriteLock] by auto
  then show ?thesis
    using assms(1) unfolding s' by (auto simp: excl_def)
qed

lemma excl_fast_release:
  assumes "excl fs s" and "t \<in> set fs"
  shows "excl (remove1 t fs) (fst (snd (spec_exec Op_ReleaseReadFast s E)))"
proof -
  have len: "int (length fs) - 1 = int (length (remove1 t fs))"
    using assms(2) length_pos_if_in_set [OF assms(2)] by (simp only: length_remove1 if_True)
  have "excl (remove1 t fs) (s\<lparr>fast_readers := fast_readers s - 1\<rparr>)"
  proof (rule exclI)
    fix w
    assume "(w, WriteLock) \<in> holders (s\<lparr>fast_readers := fast_readers s - 1\<rparr>)"
    then have "set fs \<subseteq> {w}" using excl_fast_readers [OF assms(1)] by simp
    then show "set (remove1 t fs) \<subseteq> {w}" using set_remove1_subset [of t fs] by (rule subset_trans [rotated])
  qed (use assms(1) len in \<open>simp_all add: excl_def\<close>)
  then show ?thesis by (simp add: excl_wake)
qed

section \<open>Wake-up\<close>

text \<open>No request that could be granted is left at the head of the queue.\<close>

definition head_blocked :: "abstract_lock \<Rightarrow> bool" where
  "head_blocked s \<longleftrightarrow>
     (case waiting s of [] \<Rightarrow> True | e # _ \<Rightarrow> \<not> grantable s (lqe_txn e) (lk_type e))"

lemma serve_head_blocked: "head_blocked (fst (serve es s E))"
  by (induction es arbitrary: s E) (simp_all add: head_blocked_def)

lemma wake_head_blocked: "head_blocked (fst (wake s E))"
  by (simp add: wake_def serve_head_blocked)

lemma grantable_weaker: "grantable s t WriteLock \<Longrightarrow> grantable s t lt"
  unfolding grantable_def by (cases lt) auto

lemma grantable_holders:
  assumes "\<And>u h. (u, h) \<in> holders s \<Longrightarrow> u \<noteq> t \<Longrightarrow> conflicts lt h \<Longrightarrow> (u, h) \<in> holders s'"
    and "lt = WriteLock \<Longrightarrow> fast_readers s \<le> fast_readers s'"
  shows "grantable s' t lt \<Longrightarrow> grantable s t lt"
  using assms unfolding grantable_def by fastforce

lemma head_blocked_Nil: "waiting s = [] \<Longrightarrow> head_blocked s"
  by (simp add: head_blocked_def)

lemma head_blocked_same_queue:
  assumes "head_blocked s" and "waiting s' = waiting s"
    and "\<And>e es. waiting s = e # es \<Longrightarrow> grantable s' (lqe_txn e) (lk_type e) \<Longrightarrow>
           grantable s (lqe_txn e) (lk_type e)"
  shows "head_blocked s'"
  using assms by (cases "waiting s") (auto simp: head_blocked_def)

lemma head_blocked_grant_write:
  assumes "head_blocked s" and "grantable s t WriteLock"
  shows "head_blocked (grant t WriteLock s)"
proof (rule head_blocked_same_queue [OF assms(1)])
  fix e es
  assume "waiting s = e # es"
  then have "\<not> grantable s (lqe_txn e) (lk_type e)"
    using assms(1) by (simp add: head_blocked_def)
  then have "lqe_txn e \<noteq> t" and "lk_type e \<noteq> NoLock" and "lk_type e \<noteq> ReadIntent"
    using grantable_weaker [OF assms(2)] by (auto simp: grantable_def [of s _ NoLock] grantable_def [of s _ ReadIntent])
  then show "grantable (grant t WriteLock s) (lqe_txn e) (lk_type e) \<Longrightarrow>
      grantable s (lqe_txn e) (lk_type e)"
    by (cases "lk_type e") (auto simp: grant_def grantable_def)
qed (simp add: grant_waiting)

lemma head_blocked_grant_read:
  assumes "head_blocked s" and "admitted ReadLock s"
  shows "head_blocked (grant t ReadLock s)"
proof (rule head_blocked_same_queue [OF assms(1)])
  fix e es
  assume "waiting s = e # es"
  then have "lk_type e = WriteIntent" using assms(2) by (simp add: admitted_def)
  then show "grantable (grant t ReadLock s) (lqe_txn e) (lk_type e) \<Longrightarrow>
      grantable s (lqe_txn e) (lk_type e)"
    by (intro grantable_holders [of s _ _ "grant t ReadLock s"]) (auto simp: grant_def)
qed (simp add: grant_waiting)

lemma head_blocked_unhold_intent:
  assumes "head_blocked s"
  shows "head_blocked (unhold t ReadIntent s)"
  using assms
proof (rule head_blocked_same_queue)
  fix e
  show "grantable (unhold t ReadIntent s) (lqe_txn e) (lk_type e) \<Longrightarrow>
      grantable s (lqe_txn e) (lk_type e)"
    by (rule grantable_holders) (auto simp: unhold_def conflicts_sym [of "lk_type e"])
qed (simp add: unhold_def)

lemma head_blocked_append:
  assumes "head_blocked s" and "waiting s = [] \<Longrightarrow> \<not> grantable s (lqe_txn e) (lk_type e)"
  shows "head_blocked (s\<lparr>waiting := waiting s @ [e]\<rparr>)"
  using assms by (cases "waiting s") (auto simp: head_blocked_def)

lemma head_blocked_acquire:
  assumes "head_blocked s"
  shows "head_blocked (snd (spec_acquire r p lt s))"
proof (cases lt)
  case ReadIntent
  have "head_blocked (s\<lparr>holders := insert (req_txn r, ReadIntent) (holders s)\<rparr>)"
    using assms by (rule head_blocked_same_queue) (auto simp: grantable_def)
  then show ?thesis using assms ReadIntent by (simp add: spec_acquire_def)
next
  case WriteIntent
  then show ?thesis
    using assms by (auto simp: spec_acquire_def admitted_def grant_waiting head_blocked_Nil
        intro!: head_blocked_append)
next
  case WriteLock
  then show ?thesis
    using assms by (auto simp: spec_acquire_def admitted_def
        intro!: head_blocked_append head_blocked_grant_write)
next
  case ReadLock
  then show ?thesis
    using assms by (auto simp: spec_acquire_def intro!: head_blocked_append head_blocked_grant_read)
      (auto simp: admitted_def)
qed (use assms in \<open>simp_all add: spec_acquire_def covered_def\<close>)

text \<open>
  All operations keep the head blocked, save two: \<open>AbortQueueRequest\<close> removes entries without
  waking what follows, and \<open>InsertBlockingQueue\<close> keeps it only for a request in conflict.
\<close>

lemma head_blocked_exec:
  assumes "head_blocked s" and "\<And>t err. op \<noteq> Op_AbortQueued t err"
    and "\<And>r lt. op = Op_Insert r lt \<Longrightarrow> \<not> grantable s (req_txn r) lt"
  shows "head_blocked (fst (snd (spec_exec op s E)))"
proof (cases op)
  case (Op_ReadFast t)
  have "head_blocked (s\<lparr>fast_readers := fast_readers s + 1\<rparr>)"
    using assms(1) by (rule head_blocked_same_queue) (auto simp: grantable_def)
  with Op_ReadFast assms(1) show ?thesis by simp
next
  case (Op_Insert r lt)
  with assms(3) show ?thesis by (simp add: head_blocked_def grantable_def)
next
  case (Op_Acquire r p lt)
  with head_blocked_acquire [OF assms(1)] show ?thesis by (simp add: case_prod_beta)
next
  case (Op_AbortAll err)
  then show ?thesis by (simp add: head_blocked_def)
next
  case Op_Reset
  then show ?thesis by (simp add: head_blocked_def)
qed (use assms in \<open>auto simp: wake_head_blocked spec_release_def spec_clear_def head_blocked_unhold_intent\<close>)


section \<open>Order of service\<close>

lemma serve_prefix:
  "\<exists>ps. es = ps @ waiting (fst (serve es s E))
     \<and> snd (serve es s E) = E\<lparr>enqueued := enqueued E @ map lqe_req ps\<rparr>"
proof (induction es arbitrary: s E)
  case (Cons e es)
  show ?case
  proof (cases "grantable s (lqe_txn e) (lk_type e)")
    case True
    from Cons [of "grant (lqe_txn e) (lk_type e) s" "ccs_Enqueue (lqe_req e) E"] obtain ps where
      "es = ps @ waiting (fst (serve (e # es) s E))"
      "snd (serve (e # es) s E) = E\<lparr>enqueued := enqueued E @ map lqe_req (e # ps)\<rparr>"
      using True by (auto simp: ccs_Enqueue_def)
    then show ?thesis by (intro exI [of _ "e # ps"]) simp
  qed simp
qed simp

lemma grant_other: "u \<noteq> t \<Longrightarrow> (u, h) \<in> holders (grant t lt s) \<longleftrightarrow> (u, h) \<in> holders s"
  by (auto simp: grant_def)

lemma serve_other:
  "u \<notin> lqe_txn ` set es \<Longrightarrow> (u, h) \<in> holders (fst (serve es s E)) \<longleftrightarrow> (u, h) \<in> holders s"
  by (induction es arbitrary: s E) (auto simp: grant_other)

lemma serve_fast [simp]: "fast_readers (fst (serve es s E)) = fast_readers s"
  by (induction es arbitrary: s E) (auto simp: grant_def)

text \<open>A request leaves the queue with its lock, provided no transaction waits twice.\<close>

lemma serve_holds:
  assumes "distinct (map lqe_txn es)" and "es = ps @ waiting (fst (serve es s E))"
    and "e \<in> set ps" and "lk_type e \<notin> {NoLock, ReadIntent}"
  shows "(lqe_txn e, lk_type e) \<in> holders (fst (serve es s E))"
  using assms
proof (induction es arbitrary: s E ps)
  case (Cons a es)
  let ?s = "grant (lqe_txn a) (lk_type a) s" and ?E = "ccs_Enqueue (lqe_req a) E"
  have "ps = []" if "\<not> grantable s (lqe_txn a) (lk_type a)"
    using that Cons.prems(2) by simp
  with Cons.prems(3) have g: "grantable s (lqe_txn a) (lk_type a)" by fastforce
  then obtain ps' where ps: "ps = a # ps'" "es = ps' @ waiting (fst (serve es ?s ?E))"
    using Cons.prems(2,3) by (cases ps) auto
  show ?case
  proof (cases "e = a")
    case True
    then have "(lqe_txn e, lk_type e) \<in> holders ?s"
      using Cons.prems(4) by (cases "lk_type e") (auto simp: grant_def)
    then show ?thesis
      using True g Cons.prems(1) serve_other [of "lqe_txn e" es "lk_type e" ?s ?E] by simp
  next
    case False
    then show ?thesis
      using Cons.IH [OF _ ps(2)] Cons.prems(1,3,4) ps(1) g by auto
  qed
qed simp

text \<open>With nothing but read intents held, the head of the queue is served.\<close>

lemma serve_progress:
  assumes "\<And>u h. (u, h) \<in> holders s \<Longrightarrow> h = ReadIntent" and "fast_readers s \<le> 0"
  shows "\<exists>ps :: LockQueueEntry list. enqueued (snd (serve (e # es) s E)) = enqueued E @ lqe_req e # map lqe_req ps"
proof -
  have "grantable s (lqe_txn e) (lk_type e)"
    using assms by (cases "lk_type e") (auto simp: grantable_def)
  moreover from serve_prefix [of es "grant (lqe_txn e) (lk_type e) s" "ccs_Enqueue (lqe_req e) E"]
  obtain ps :: "LockQueueEntry list" where
    "snd (serve es (grant (lqe_txn e) (lk_type e) s) (ccs_Enqueue (lqe_req e) E))
       = (ccs_Enqueue (lqe_req e) E)\<lparr>enqueued := enqueued (ccs_Enqueue (lqe_req e) E) @ map lqe_req ps\<rparr>"
    by (elim exE conjE)
  ultimately show ?thesis by (intro exI [of _ ps]) (simp add: ccs_Enqueue_def)
qed

section \<open>Outcomes\<close>

lemma spec_acquire_outcome:
  assumes "spec_acquire r p lt s = (st, s')"
  shows "st = Successful \<Longrightarrow> covered (req_txn r) lt s' \<and> waiting s' = waiting s"
    and "st = Failed \<Longrightarrow> s' = s \<and> p = OCC"
    and "st = Blocked \<Longrightarrow> s' = s\<lparr>waiting := waiting s @ [\<lparr>lqe_req = r, lk_type = lt\<rparr>]\<rparr>"
  using assms
  by (cases lt; auto simp: spec_acquire_def covered_def grant_def split: if_splits)+

lemma spec_clear_holders:
  assumes "(t, NoLock) \<notin> holders s" and cl: "spec_clear t s E = (r, s', E')"
  shows "(r = NoLock \<longleftrightarrow> (\<forall>h. (t, h) \<notin> holders s)) \<and> (r \<noteq> NoLock \<longrightarrow> (t, r) \<in> holders s)"
    and "u \<notin> lqe_txn ` set (waiting s) \<Longrightarrow> (u, h) \<in> holders s' \<longleftrightarrow> (u, h) \<in> holders s \<and> (u, h) \<noteq> (t, r)"
proof -
  have none: "(\<forall>h. (t, h) \<notin> holders s) \<longleftrightarrow> (t, ReadLock) \<notin> holders s \<and> (t, ReadIntent) \<notin> holders s \<and>
      (t, WriteLock) \<notin> holders s \<and> (t, WriteIntent) \<notin> holders s"
    using assms(1) by (metis LockType.exhaust)
  show "(r = NoLock \<longleftrightarrow> (\<forall>h. (t, h) \<notin> holders s)) \<and> (r \<noteq> NoLock \<longrightarrow> (t, r) \<in> holders s)"
    unfolding none using cl by (auto simp: spec_clear_def split: if_splits)
  assume u: "u \<notin> lqe_txn ` set (waiting s)"
  have "(u, h) \<in> holders (fst (wake (unhold t lt s) E)) \<longleftrightarrow> (u, h) \<in> holders s \<and> (u, h) \<noteq> (t, lt)" for lt
    using u serve_other [of u "waiting s" h "unhold t lt s" E] by (simp add: wake_def unhold_def)
  note woken = this
  have unheld: "holders (unhold t lt s) = holders s - {(t, lt)}" for lt by (simp add: unhold_def)
  have r: "r = fst (spec_clear t s E)" "s' = fst (snd (spec_clear t s E))" using cl by simp_all
  show "(u, h) \<in> holders s' \<longleftrightarrow> (u, h) \<in> holders s \<and> (u, h) \<noteq> (t, r)"
    unfolding r
    by (cases "(t, ReadLock) \<in> holders s"; cases "(t, ReadIntent) \<in> holders s"; cases "(t, WriteLock) \<in> holders s";
        cases "(t, WriteIntent) \<in> holders s"; use assms(1) in \<open>auto simp: spec_clear_def woken unheld\<close>)
qed


end
