(* ===== verification/Lock_Refinement.thy ===== *)
theory Lock_Refinement
  imports Lock_Spec
begin

text \<open>
  The lock of \<open>Non_Blocking_Lock\<close> computes the abstract lock of \<open>Lock_Spec\<close>: every operation
  of the code has the result, the effects and the state of the abstract operation of the same
  name. The laws of the abstract lock then hold of the code.
\<close>

section \<open>Operations of the code\<close>

primrec lock_exec ::
    "lock_op \<Rightarrow> NonBlockingLock \<Rightarrow> cc_env \<Rightarrow> lock_result \<times> NonBlockingLock \<times> cc_env" where
  "lock_exec (Op_Acquire r p lt) l E = (let (st, l') = AcquireLock r p lt l in (R_Status st, l', E))"
| "lock_exec (Op_ReadFast t) l E = (let (b, l') = AcquireReadLockFast t l in (R_Bool b, l', E))"
| "lock_exec Op_ReleaseReadFast l E = map_prod R_Bool id (ReleaseReadLockFast l E)"
| "lock_exec (Op_ReleaseRead t) l E = map_prod R_Bool id (ReleaseReadLock t l E)"
| "lock_exec (Op_ReleaseWrite t) l E = map_prod R_Bool id (ReleaseWriteLock t False l E)"
| "lock_exec (Op_Downgrade t) l E = (R_Unit, DowngradeWriteLock t l E)"
| "lock_exec (Op_ReleaseWriteIntent t) l E = map_prod R_Bool id (ReleaseWriteIntent t l E)"
| "lock_exec (Op_ReleaseReadIntent t) l E =
     (let (b, l') = ReleaseReadIntent t l in (R_Bool b, l', E))"
| "lock_exec (Op_ClearTx t) l E = map_prod R_Type id (lock_ClearTx t l E)"
| "lock_exec (Op_Insert r lt) l E = (R_Unit, InsertBlockingQueue r lt l, E)"
| "lock_exec (Op_AbortQueued t err) l E = (R_Unit, AbortQueueRequest t err l E)"
| "lock_exec (Op_AbortAll err) l E = (R_Unit, AbortAllQueuedRequests err l E)"
| "lock_exec Op_Reset l E = (R_Unit, lock_Reset l, E)"

section \<open>Abstraction\<close>

definition holders_of :: "NonBlockingLock \<Rightarrow> (TxNumber \<times> LockType) set" where
  "holders_of l =
     (\<lambda>t. (t, ReadIntent)) ` read_intentions l \<union> (\<lambda>t. (t, ReadLock)) ` read_locks l
     \<union> (case write_lk_type l of
          NoWritelock \<Rightarrow> {}
        | WLT_WriteLock \<Rightarrow> {(write_txn l, WriteLock)}
        | WLT_WriteIntent \<Rightarrow> {(write_txn l, WriteIntent)})"

definition lock_abs :: "NonBlockingLock \<Rightarrow> abstract_lock" where
  "lock_abs l = \<lparr>holders = holders_of l, fast_readers = read_cnt l,
                 waiting = cq_list (blocking_queue l)\<rparr>"

definition lock_inv :: "NonBlockingLock \<Rightarrow> bool" where
  "lock_inv l \<longleftrightarrow> cq_inv (blocking_queue l)"

lemma lock_abs_sel [simp]:
  "holders (lock_abs l) = holders_of l"
  "fast_readers (lock_abs l) = read_cnt l"
  "waiting (lock_abs l) = cq_list (blocking_queue l)"
  by (simp_all add: lock_abs_def)

lemma holders_of_iff [simp]:
  "(t, ReadIntent) \<in> holders_of l \<longleftrightarrow> t \<in> read_intentions l"
  "(t, ReadLock) \<in> holders_of l \<longleftrightarrow> t \<in> read_locks l"
  "(t, WriteIntent) \<in> holders_of l \<longleftrightarrow> write_lk_type l = WLT_WriteIntent \<and> t = write_txn l"
  "(t, WriteLock) \<in> holders_of l \<longleftrightarrow> write_lk_type l = WLT_WriteLock \<and> t = write_txn l"
  "(t, NoLock) \<in> holders_of l \<longleftrightarrow> False"
  by (auto simp: holders_of_def split: WriteLockType.splits)

lemma holders_of_eqI:
  assumes "\<And>t. (t, ReadIntent) \<in> H \<longleftrightarrow> t \<in> read_intentions l"
    and "\<And>t. (t, ReadLock) \<in> H \<longleftrightarrow> t \<in> read_locks l"
    and "\<And>t. (t, WriteIntent) \<in> H \<longleftrightarrow> write_lk_type l = WLT_WriteIntent \<and> t = write_txn l"
    and "\<And>t. (t, WriteLock) \<in> H \<longleftrightarrow> write_lk_type l = WLT_WriteLock \<and> t = write_txn l"
    and "\<And>t. (t, NoLock) \<notin> H"
  shows "holders_of l = H"
proof (rule set_eqI)
  fix p :: "TxNumber \<times> LockType"
  obtain t h where "p = (t, h)" by (cases p)
  then show "p \<in> holders_of l \<longleftrightarrow> p \<in> H" by (cases h) (simp_all add: assms)
qed

lemma card_le_1_iff: "R = {} \<or> (card R = 1 \<and> t \<in> R) \<longleftrightarrow> R \<subseteq> {t}"
  by (auto simp: card_1_singleton_iff)

lemma ball_holders_of:
  "(\<forall>(u, h) \<in> holders_of l. P u h) \<longleftrightarrow>
     (\<forall>u \<in> read_intentions l. P u ReadIntent) \<and> (\<forall>u \<in> read_locks l. P u ReadLock)
     \<and> (write_lk_type l = WLT_WriteLock \<longrightarrow> P (write_txn l) WriteLock)
     \<and> (write_lk_type l = WLT_WriteIntent \<longrightarrow> P (write_txn l) WriteIntent)"
  by (auto simp: holders_of_def split: WriteLockType.splits)

lemma grantable_code [lock_defs]:
  "grantable (lock_abs l) t WriteLock \<longleftrightarrow> NoWriteConflict l t \<and> NoReadLockConflict l t"
  "grantable (lock_abs l) t WriteIntent \<longleftrightarrow> NoWriteConflict l t"
  "grantable (lock_abs l) t ReadLock \<longleftrightarrow> NoWriteLockConflict l t"
  "grantable (lock_abs l) t ReadIntent" "grantable (lock_abs l) t NoLock"
  unfolding grantable_def lock_abs_sel ball_holders_of NoReadLockConflict_def card_le_1_iff
    NoWriteConflict_def NoWriteLockConflict_def
  by (cases "write_lk_type l"; auto)+

section \<open>Refinement\<close>

lemma UpgradeLock_abs:
  assumes "NoWriteConflict l t" and "lt = WriteLock \<or> lt = WriteIntent"
  shows "lock_abs (UpgradeLock t lt l) = grant t lt (lock_abs l)"
proof -
  have "holders_of (UpgradeLock t lt l) = insert (t, lt) {p \<in> holders_of l. fst p \<noteq> t}"
    using assms by (intro holders_of_eqI) (auto simp: UpgradeLock_def Let_def NoWriteConflict_def)
  then show ?thesis
    using assms(2) by (simp add: lock_abs_def grant_def)
      (auto simp: UpgradeLock_def Let_def)
qed

lemma add_reader_abs:
  "lock_abs (l\<lparr>read_locks := insert t (read_locks l), read_intentions := read_intentions l - {t}\<rparr>)
     = grant t ReadLock (lock_abs l)"
  unfolding lock_abs_def grant_def by simp (intro holders_of_eqI, auto)

lemma queue_UpgradeLock [simp]: "blocking_queue (UpgradeLock t lt l) = blocking_queue l"
  by (simp add: UpgradeLock_def Let_def)

lemma set_queue_abs: "lock_abs (l\<lparr>blocking_queue := q\<rparr>) = (lock_abs l)\<lparr>waiting := cq_list q\<rparr>"
  by (simp add: lock_abs_def holders_of_def split: WriteLockType.split)

lemma pop_head_abs:
  assumes "lock_inv l" and "cq_list (blocking_queue l) = e # es"
  shows "case pop_head l E of
      None \<Rightarrow> \<not> grantable (lock_abs l) (lqe_txn e) (lk_type e)
    | Some (l', E') \<Rightarrow> grantable (lock_abs l) (lqe_txn e) (lk_type e) \<and> lock_inv l'
        \<and> E' = ccs_Enqueue (lqe_req e) E
        \<and> lock_abs l' = (grant (lqe_txn e) (lk_type e) (lock_abs l))\<lparr>waiting := es\<rparr>"
proof -
  have "cq_Peek (blocking_queue l) = e"
    using assms ring.peek_hd by (fastforce simp: lock_inv_def)
  then show ?thesis
    using assms
    by (cases "lk_type e")
      (auto simp: pop_head_def Let_def ExecuteQueuedRequest_def grantable_code set_queue_abs
        queue_laws lock_inv_def UpgradeLock_abs add_reader_abs grant_def [of _ NoLock]
        grant_def [of _ ReadIntent])
qed

lemma TryPop_abs:
  assumes "lock_inv l" and "TryPopBlockingQueue l E = (l', E')"
  shows "lock_inv l'" and "serve (waiting (lock_abs l)) (lock_abs l) E = (lock_abs l', E')"
proof -
  have "lock_inv l' \<and> serve (waiting (lock_abs l)) (lock_abs l) E = (lock_abs l', E')"
    using assms
  proof (induction l E rule: TryPopBlockingQueue.induct)
    case (1 l E)
    show ?case
    proof (cases "cq_list (blocking_queue l)")
      case Nil
      then show ?thesis
        using 1(2,3) by (simp add: TryPopBlockingQueue.simps [of l] ring.size_of_view lock_abs_def)
    next
      case (Cons e es)
      note pop = pop_head_abs [OF 1(2) Cons, of E]
      show ?thesis
      proof (cases "pop_head l E")
        case None
        then show ?thesis
          using 1(2,3) pop Cons
          by (simp add: TryPopBlockingQueue.simps [of l] ring.size_of_view lock_abs_def)
      next
        case (Some p)
        obtain l1 E1 where p: "p = (l1, E1)" by (cases p)
        have l1: "lock_inv l1" "E1 = ccs_Enqueue (lqe_req e) E"
          "grantable (lock_abs l) (lqe_txn e) (lk_type e)"
          "lock_abs l1 = (grant (lqe_txn e) (lk_type e) (lock_abs l))\<lparr>waiting := es\<rparr>"
          using pop Some p by auto
        have "lock_inv l' \<and> serve (waiting (lock_abs l1)) (lock_abs l1) E1 = (lock_abs l', E')"
          using 1 l1(1) Some p Cons
          by (auto simp: TryPopBlockingQueue.simps [of l] ring.size_of_view)
        moreover have "waiting (lock_abs l1) = es" by (simp only: l1(4)) simp
        ultimately show ?thesis
          using l1 Cons by simp
      qed
    qed
  qed
  then show "lock_inv l'" "serve (waiting (lock_abs l)) (lock_abs l) E = (lock_abs l', E')"
    by auto
qed


text \<open>Field updates of the code as updates of the abstract lock.\<close>

lemma holders_of_updates:
  "holders_of (l\<lparr>read_cnt := c\<rparr>) = holders_of l"
  "holders_of (l\<lparr>read_locks := read_locks l - {t}\<rparr>) = holders_of l - {(t, ReadLock)}"
  "holders_of (l\<lparr>read_intentions := read_intentions l - {t}\<rparr>) = holders_of l - {(t, ReadIntent)}"
  "holders_of (l\<lparr>read_intentions := insert t (read_intentions l)\<rparr>)
     = insert (t, ReadIntent) (holders_of l)"
  "write_lk_type l = WLT_WriteLock \<Longrightarrow> write_txn l = t \<Longrightarrow>
     holders_of (l\<lparr>write_lk_type := NoWritelock, write_txn := 0\<rparr>) = holders_of l - {(t, WriteLock)}"
  "write_lk_type l = WLT_WriteIntent \<Longrightarrow> write_txn l = t \<Longrightarrow>
     holders_of (l\<lparr>write_lk_type := NoWritelock, write_txn := 0\<rparr>) = holders_of l - {(t, WriteIntent)}"
  "write_lk_type l = WLT_WriteLock \<Longrightarrow> write_txn l = t \<Longrightarrow>
     holders_of (l\<lparr>write_lk_type := WLT_WriteIntent\<rparr>)
       = insert (t, WriteIntent) (holders_of l - {(t, WriteLock)})"
  by (rule holders_of_eqI; auto)+

lemma field_updates_abs:
  "lock_abs (l\<lparr>read_cnt := c\<rparr>) = (lock_abs l)\<lparr>fast_readers := c\<rparr>"
  "lock_abs (l\<lparr>read_locks := read_locks l - {t}\<rparr>) = unhold t ReadLock (lock_abs l)"
  "lock_abs (l\<lparr>read_intentions := read_intentions l - {t}\<rparr>) = unhold t ReadIntent (lock_abs l)"
  "lock_abs (l\<lparr>read_intentions := insert t (read_intentions l)\<rparr>)
     = (lock_abs l)\<lparr>holders := insert (t, ReadIntent) (holders_of l)\<rparr>"
  by (simp_all add: lock_abs_def unhold_def holders_of_updates)

lemma drop_write_abs:
  "write_lk_type l = WLT_WriteLock \<Longrightarrow> write_txn l = t \<Longrightarrow>
     lock_abs (l\<lparr>write_lk_type := NoWritelock, write_txn := 0\<rparr>) = unhold t WriteLock (lock_abs l)"
  "write_lk_type l = WLT_WriteIntent \<Longrightarrow> write_txn l = t \<Longrightarrow>
     lock_abs (l\<lparr>write_lk_type := NoWritelock, write_txn := 0\<rparr>) = unhold t WriteIntent (lock_abs l)"
  "write_lk_type l = WLT_WriteLock \<Longrightarrow> write_txn l = t \<Longrightarrow>
     lock_abs (l\<lparr>write_lk_type := WLT_WriteIntent\<rparr>)
       = (lock_abs l)\<lparr>holders := insert (t, WriteIntent) (holders_of l - {(t, WriteLock)})\<rparr>"
  by (simp_all add: lock_abs_def unhold_def holders_of_updates)

lemma lock_inv_updates [simp]:
  "lock_inv (l\<lparr>read_cnt := c\<rparr>) = lock_inv l"
  "lock_inv (l\<lparr>read_locks := R\<rparr>) = lock_inv l"
  "lock_inv (l\<lparr>read_intentions := R\<rparr>) = lock_inv l"
  "lock_inv (l\<lparr>write_lk_type := w\<rparr>) = lock_inv l"
  "lock_inv (l\<lparr>write_lk_type := w, write_txn := t\<rparr>) = lock_inv l"
  "lock_inv (l\<lparr>read_locks := R, read_intentions := R'\<rparr>) = lock_inv l"
  "lock_inv (UpgradeLock t lt l) = lock_inv l"
  by (simp_all add: lock_inv_def)

lemma queue_test_abs:
  assumes "lock_inv l"
  shows "no_blocking_queue_conflict l = admitted ReadLock (lock_abs l)"
    and "(cq_Size (blocking_queue l) = 0) = admitted WriteIntent (lock_abs l)"
  using assms by (cases "cq_list (blocking_queue l) = []";
      simp add: no_blocking_queue_conflict_def admitted_def cq_Size_0 lock_inv_def ring.peek_hd)+

lemma enqueue_abs:
  assumes "lock_inv l"
  shows "lock_inv (l\<lparr>blocking_queue := cq_Enqueue (blocking_queue l) e\<rparr>)"
    and "lock_abs (l\<lparr>blocking_queue := cq_Enqueue (blocking_queue l) e\<rparr>)
           = (lock_abs l)\<lparr>waiting := waiting (lock_abs l) @ [e]\<rparr>"
  using assms by (simp_all add: lock_inv_def set_queue_abs queue_laws)

lemma covered_code:
  "covered t NoLock (lock_abs l)"
  "covered t ReadIntent (lock_abs l) \<longleftrightarrow> t \<in> read_locks l \<or> t \<in> read_intentions l
     \<or> (write_lk_type l \<noteq> NoWritelock \<and> write_txn l = t)"
  "covered t ReadLock (lock_abs l) \<longleftrightarrow> t \<in> read_locks l
     \<or> (write_lk_type l \<noteq> NoWritelock \<and> write_txn l = t)"
  "covered t WriteIntent (lock_abs l) \<longleftrightarrow> write_lk_type l \<noteq> NoWritelock \<and> write_txn l = t"
  "covered t WriteLock (lock_abs l) \<longleftrightarrow> write_lk_type l = WLT_WriteLock \<and> write_txn l = t"
  by (cases "write_lk_type l"; auto simp: covered_def)+

lemmas acquire_abs = queue_test_abs UpgradeLock_abs add_reader_abs enqueue_abs
  covered_code grantable_code

lemma AcquireWriteLock_abs:
  assumes "lock_inv l" and "AcquireWriteLock r p l = (b, l')"
  shows "lock_inv l'"
    and "spec_acquire r p WriteLock (lock_abs l)
           = (if b then Successful else if p = OCC then Failed else Blocked, lock_abs l')"
  using assms
  by (cases p; auto simp: AcquireWriteLock_def Let_def spec_acquire_def acquire_abs admitted_def
      split: if_splits)+

lemma AcquireWriteIntent_abs:
  assumes "lock_inv l" and "AcquireWriteIntent r p l = (b, l')"
  shows "lock_inv l'"
    and "spec_acquire r p WriteIntent (lock_abs l)
           = (if b then Successful else if p = OCC then Failed else Blocked, lock_abs l')"
  using assms
  by (auto simp: AcquireWriteIntent_def Let_def spec_acquire_def acquire_abs split: if_splits)

lemma AcquireReadLock_abs:
  assumes "lock_inv l" and "AcquireReadLock r l = (b, l')"
  shows "lock_inv l'"
    and "spec_acquire r p ReadLock (lock_abs l) = (if b then Successful else Blocked, lock_abs l')"
  using assms
  by (auto simp: AcquireReadLock_def Let_def spec_acquire_def acquire_abs split: if_splits)

lemma AcquireReadIntent_abs:
  assumes "lock_inv l" and "AcquireReadIntent (req_txn r) l = (b, l')"
  shows "lock_inv l'"
    and "spec_acquire r p ReadIntent (lock_abs l) = (Successful, lock_abs l')"
  using assms
  by (auto simp: AcquireReadIntent_def spec_acquire_def covered_code field_updates_abs
      split: if_splits)

lemma AcquireLock_abs:
  assumes "lock_inv l" and "AcquireLock r p lt l = (st, l')"
  shows "lock_inv l' \<and> spec_acquire r p lt (lock_abs l) = (st, lock_abs l')"
proof (cases lt)
  case NoLock
  then show ?thesis
    using assms by (auto simp: AcquireLock_def spec_acquire_def covered_code)
next
  case ReadIntent
  obtain b l1 where "AcquireReadIntent (req_txn r) l = (b, l1)" by fastforce
  with AcquireReadIntent_abs [OF assms(1) this] assms(2) ReadIntent show ?thesis
    by (auto simp: AcquireLock_def)
next
  case ReadLock
  obtain b l1 where "AcquireReadLock r l = (b, l1)" by fastforce
  with AcquireReadLock_abs [OF assms(1) this] assms(2) ReadLock show ?thesis
    by (auto simp: AcquireLock_def)
next
  case WriteIntent
  obtain b l1 where "AcquireWriteIntent r p l = (b, l1)" by fastforce
  with AcquireWriteIntent_abs [OF assms(1) this] assms(2) WriteIntent show ?thesis
    by (auto simp: AcquireLock_def)
next
  case WriteLock
  obtain b l1 where "AcquireWriteLock r p l = (b, l1)" by fastforce
  with AcquireWriteLock_abs [OF assms(1) this] assms(2) WriteLock show ?thesis
    by (auto simp: AcquireLock_def)
qed

lemma abort_entries_Cons:
  "abort_entries err es (AbortCcRequest (lqe_req e) err E) = abort_entries err (e # es) E"
  by (simp add: abort_entries_def AbortCcRequest_def)

lemma abort_queue_loop_abs:
  assumes "lock_inv l" and "abort_queue_loop t err i l E = (l', E')"
  shows "lock_inv l'"
    and "lock_abs l' = (lock_abs l)\<lparr>waiting := take i (waiting (lock_abs l))
           @ filter (\<lambda>e. lqe_txn e \<noteq> t) (drop i (waiting (lock_abs l)))\<rparr>"
    and "E' = abort_entries err (filter (\<lambda>e. lqe_txn e = t) (drop i (waiting (lock_abs l)))) E"
proof -
  have "lock_inv l' \<and> lock_abs l' = (lock_abs l)\<lparr>waiting := take i (waiting (lock_abs l))
           @ filter (\<lambda>e. lqe_txn e \<noteq> t) (drop i (waiting (lock_abs l)))\<rparr>
      \<and> E' = abort_entries err (filter (\<lambda>e. lqe_txn e = t) (drop i (waiting (lock_abs l)))) E"
    using assms
  proof (induction t err i l E rule: abort_queue_loop.induct)
    case (1 t err i l E)
    let ?q = "blocking_queue l" and ?w = "cq_list (blocking_queue l)"
    show ?case
    proof (cases "i < cq_Size ?q")
      case False
      then show ?thesis
        using 1(3,4) abort_queue_loop.simps [of t err i l E]
        by (simp add: ring.size_of_view abort_entries_def lock_abs_def)
    next
      case True
      then have i: "i < length ?w" "cq_Get ?q i = ?w ! i" "drop i ?w = ?w ! i # drop (Suc i) ?w"
        using Cons_nth_drop_Suc [of i ?w] by (simp_all add: cq_Size_def)
      show ?thesis
      proof (cases "lqe_txn (?w ! i) = t")
        case hit: True
        let ?l = "l\<lparr>blocking_queue := cq_Erase ?q i\<rparr>"
        have l: "lock_inv ?l" "cq_list (cq_Erase ?q i) = take i ?w @ drop (Suc i) ?w"
          using 1(3) i(1) by (simp_all add: lock_inv_def queue_laws)
        have "abort_queue_loop t err i ?l (AbortCcRequest (lqe_req (?w ! i)) err E) = (l', E')"
          using 1(4) True hit i(2) abort_queue_loop.simps [of t err i l E] by (simp add: Let_def)
        note ih = 1(1) [OF True i(2) [symmetric] hit l(1) this, unfolded set_queue_abs]
        show ?thesis
          using ih hit i(1) unfolding lock_abs_sel i(3)
          by (simp add: l(2) abort_entries_Cons min_absorb2)
      next
        case False
        have "abort_queue_loop t err (i + 1) l E = (l', E')"
          using 1(4) True False i(2) abort_queue_loop.simps [of t err i l E] by (simp add: Let_def)
        note ih = 1(2) [OF True i(2) [symmetric] False 1(3) this]
        show ?thesis
          using ih False unfolding lock_abs_sel i(3)
          by (simp add: take_Suc_conv_app_nth [OF i(1)])
      qed
    qed
  qed
  then show "lock_inv l'"
    "lock_abs l' = (lock_abs l)\<lparr>waiting := take i (waiting (lock_abs l))
           @ filter (\<lambda>e. lqe_txn e \<noteq> t) (drop i (waiting (lock_abs l)))\<rparr>"
    "E' = abort_entries err (filter (\<lambda>e. lqe_txn e = t) (drop i (waiting (lock_abs l)))) E"
    by auto
qed


lemma abort_all_abs:
  "fold (\<lambda>i. AbortCcRequest (lqe_req (cq_Get q i)) err) [0..<cq_Size q] E
     = abort_entries err (cq_list q) E"
proof -
  have "fold (\<lambda>e. AbortCcRequest (lqe_req e) err) es E = abort_entries err es E" for es
    by (induction es arbitrary: E) (simp_all add: abort_entries_Cons, simp add: abort_entries_def)
  from this [of "map (cq_Get q) [0..<cq_Size q]"] show ?thesis
    unfolding ring.scan_get by (simp add: fold_map comp_def cq_list_def cq_Size_def)
qed

lemma wake_code:
  assumes "lock_inv l"
  shows "wake (lock_abs l) E = map_prod lock_abs id (TryPopBlockingQueue l E)"
    and "lock_inv (fst (TryPopBlockingQueue l E))"
proof -
  obtain l' E' where "TryPopBlockingQueue l E = (l', E')" by fastforce
  with TryPop_abs [OF assms this]
  show "wake (lock_abs l) E = map_prod lock_abs id (TryPopBlockingQueue l E)"
    and "lock_inv (fst (TryPopBlockingQueue l E))"
    by (simp_all add: wake_def)
qed

lemma wake_after:
  assumes "lock_inv l"
  shows "wake ((lock_abs l)\<lparr>fast_readers := c\<rparr>) E
           = map_prod lock_abs id (TryPopBlockingQueue (l\<lparr>read_cnt := c\<rparr>) E)"
    and "wake (unhold t ReadLock (lock_abs l)) E
           = map_prod lock_abs id (TryPopBlockingQueue (l\<lparr>read_locks := read_locks l - {t}\<rparr>) E)"
    and "write_lk_type l = WLT_WriteLock \<Longrightarrow> write_txn l = t \<Longrightarrow>
           wake (unhold t WriteLock (lock_abs l)) E = map_prod lock_abs id
             (TryPopBlockingQueue (l\<lparr>write_lk_type := NoWritelock, write_txn := 0\<rparr>) E)"
    and "write_lk_type l = WLT_WriteIntent \<Longrightarrow> write_txn l = t \<Longrightarrow>
           wake (unhold t WriteIntent (lock_abs l)) E = map_prod lock_abs id
             (TryPopBlockingQueue (l\<lparr>write_lk_type := NoWritelock, write_txn := 0\<rparr>) E)"
    and "write_lk_type l = WLT_WriteLock \<Longrightarrow> write_txn l = t \<Longrightarrow>
           wake ((lock_abs l)\<lparr>holders := insert (t, WriteIntent) (holders_of l - {(t, WriteLock)})\<rparr>) E
             = map_prod lock_abs id
                 (TryPopBlockingQueue (l\<lparr>write_lk_type := WLT_WriteIntent\<rparr>) E)"
  using assms by (simp_all flip: field_updates_abs drop_write_abs add: wake_code)

text \<open>
  One operation of the code against one operation of the abstract lock: same result, same
  effects, related states.
\<close>

abbreviation exec_refines :: "lock_op \<Rightarrow> NonBlockingLock \<Rightarrow> cc_env \<Rightarrow> bool" where
  "exec_refines op l E \<equiv>
     spec_exec op (lock_abs l) E = map_prod id (map_prod lock_abs id) (lock_exec op l E)
     \<and> lock_inv (fst (snd (lock_exec op l E)))"

lemma unhold_absent: "(t, lt) \<notin> holders s \<Longrightarrow> unhold t lt s = s"
  by (simp add: unhold_def)

lemma ClearTx_refines: "lock_inv l \<Longrightarrow> exec_refines (Op_ClearTx t) l E"
  by (cases "t \<in> read_locks l"; cases "t \<in> read_intentions l"; cases "write_lk_type l")
    (auto simp: lock_ClearTx_def ReleaseReadLock_def ReleaseReadIntent_def spec_clear_def wake_after
      wake_code field_updates_abs Let_def)

lemma exec_refines_all:
  assumes "lock_inv l"
  shows "exec_refines op l E"
proof (cases op)
  case (Op_Acquire r p lt)
  obtain st l' where "AcquireLock r p lt l = (st, l')" by fastforce
  with AcquireLock_abs [OF assms this] Op_Acquire show ?thesis by simp
next
  case (Op_AbortQueued t err)
  obtain l' E' where "AbortQueueRequest t err l E = (l', E')" by fastforce
  with abort_queue_loop_abs [OF assms, of t err 0 E l' E'] Op_AbortQueued show ?thesis
    by (simp add: AbortQueueRequest_def)
next
  case (Op_ClearTx t)
  then show ?thesis using ClearTx_refines [OF assms, of t E] by simp
next
  case (Op_ReadFast t)
  then show ?thesis
    using assms by (simp add: AcquireReadLockFast_def queue_test_abs grantable_code field_updates_abs)
next
  case (Op_AbortAll err)
  then show ?thesis
    using assms by (simp add: AbortAllQueuedRequests_def abort_all_abs set_queue_abs lock_inv_def
        ring.view_reset ring.invar_reset)
next
  case Op_Reset
  then show ?thesis
    using assms by (simp add: lock_Reset_def lock_inv_def lock_abs_def holders_of_def queue_laws)
next
  case (Op_Insert r lt)
  then show ?thesis
    using assms by (simp add: InsertBlockingQueue_def set_queue_abs lock_inv_def queue_laws)
qed (use assms in \<open>auto simp: ReleaseReadLockFast_def ReleaseReadLock_def ReleaseWriteLock_def
      DowngradeWriteLock_def ReleaseWriteIntent_def ReleaseReadIntent_def spec_release_def
      wake_after wake_code field_updates_abs unhold_absent\<close>)

lemma FindQueueRequest_iff:
  "FindQueueRequest t l \<longleftrightarrow> (\<exists>e \<in> set (cq_list (blocking_queue l)). lqe_txn e = t)"
  by (simp add: FindQueueRequest_def cq_list_def cq_Size_def list_ex_iff)

end
