(* ===== verification/Lock_Properties.thy ===== *)
theory Lock_Properties
  imports Lock_Refinement
begin

text \<open>
  Properties of the key lock, stated about the definitions of \<open>Non_Blocking_Lock\<close>: the code
  against the abstract lock over whole histories, mutual exclusion as an invariant of a
  transition system, wake-up, order of service and outcomes.
\<close>

section \<open>Histories\<close>

primrec lock_run ::
    "lock_op list \<Rightarrow> NonBlockingLock \<Rightarrow> cc_env \<Rightarrow> lock_result list \<times> NonBlockingLock \<times> cc_env" where
  "lock_run [] l E = ([], l, E)"
| "lock_run (op # ops) l E =
     (let (r, l1, E1) = lock_exec op l E;
          (rs, l2, E2) = lock_run ops l1 E1
      in (r # rs, l2, E2))"

primrec spec_run ::
    "lock_op list \<Rightarrow> abstract_lock \<Rightarrow> cc_env \<Rightarrow> lock_result list \<times> abstract_lock \<times> cc_env" where
  "spec_run [] s E = ([], s, E)"
| "spec_run (op # ops) s E =
     (let (r, s1, E1) = spec_exec op s E;
          (rs, s2, E2) = spec_run ops s1 E1
      in (r # rs, s2, E2))"

definition spec_new :: abstract_lock where
  "spec_new = \<lparr>holders = {}, fast_readers = 0, waiting = []\<rparr>"

lemma lock_new_laws: "lock_inv lock_new" "lock_abs lock_new = spec_new"
  by (simp_all add: lock_new_def spec_new_def lock_inv_def lock_abs_def holders_of_def cq_new_laws)

lemma run_refines:
  "lock_inv l \<Longrightarrow>
     spec_run ops (lock_abs l) E = map_prod id (map_prod lock_abs id) (lock_run ops l E)
     \<and> lock_inv (fst (snd (lock_run ops l E)))"
proof (induction ops arbitrary: l E)
  case (Cons op ops)
  obtain r l1 E1 where ex: "lock_exec op l E = (r, l1, E1)" by (metis prod_cases3)
  with exec_refines_all [OF Cons.prems, of op E]
  have "spec_exec op (lock_abs l) E = (r, lock_abs l1, E1)" "lock_inv l1" by simp_all
  with Cons.IH [of l1 E1] ex show ?case by (simp add: case_prod_beta)
qed simp

text \<open>
  C1: For every sequence of operations on a fresh key lock (acquire, fast read, release,
  downgrade, clear, insert at the head, abort, reset), the ring-buffer implementation returns
  the same results, hands the same requests back to the shard and aborts the same requests as
  the abstract lock, and ends in a state that represents the abstract one.
\<close>

theorem lock_refines_spec:
  "spec_run ops spec_new E = map_prod id (map_prod lock_abs id) (lock_run ops lock_new E)"
  using run_refines [OF lock_new_laws(1), of ops E] by (simp add: lock_new_laws(2))

section \<open>Mutual exclusion\<close>

text \<open>
  The transition system of a lock in use. Its state pairs the lock with the list of
  transactions that hold a fast read, which the code only counts; a fast read is released by a
  transaction that has one, as \<open>ReleaseCatalogRead\<close> does.
\<close>

inductive lock_step :: "NonBlockingLock \<times> TxNumber list \<Rightarrow> NonBlockingLock \<times> TxNumber list \<Rightarrow> bool" where
  step_read_fast: "AcquireReadLockFast t l = (True, l') \<Longrightarrow> lock_step (l, fs) (l', t # fs)"
| step_release_fast: "t \<in> set fs \<Longrightarrow> ReleaseReadLockFast l E = (b, l', E') \<Longrightarrow>
    lock_step (l, fs) (l', remove1 t fs)"
| step_reset: "lock_step (l, fs) (lock_Reset l, [])"
| step_op: "op \<noteq> Op_ReleaseReadFast \<Longrightarrow> op \<noteq> Op_Reset \<Longrightarrow> (\<And>t. op \<noteq> Op_ReadFast t) \<Longrightarrow>
    lock_exec op l E = (r, l', E') \<Longrightarrow> lock_step (l, fs) (l', fs)"

definition lock_init :: "NonBlockingLock \<times> TxNumber list \<Rightarrow> bool" where
  "lock_init = (\<lambda>(l, fs). l = lock_new \<and> fs = [])"

definition lock_excl :: "NonBlockingLock \<times> TxNumber list \<Rightarrow> bool" where
  "lock_excl = (\<lambda>(l, fs). lock_inv l \<and> excl fs (lock_abs l))"

lemma excl_new: "excl [] spec_new"
  by (simp add: excl_def spec_new_def)

lemma exec_cases:
  assumes "lock_inv l" and "lock_exec op l E = (r, l', E')"
  shows "lock_inv l'" and "spec_exec op (lock_abs l) E = (r, lock_abs l', E')"
  using exec_refines_all [OF assms(1), of op E] assms(2) by simp_all

lemma lock_step_excl:
  assumes "lock_step p q" and "lock_excl p"
  shows "lock_excl q"
  using assms
proof (induction rule: lock_step.induct)
  case (step_read_fast t l l' fs)
  then have "lock_exec (Op_ReadFast t) l E = (R_Bool True, l', E)" for E by simp
  from exec_cases [OF _ this] step_read_fast.prems excl_fast show ?case
    by (auto simp: lock_excl_def simp del: spec_exec.simps)
next
  case (step_release_fast t fs l E b l' E')
  then have "lock_exec Op_ReleaseReadFast l E = (R_Bool b, l', E')" by simp
  from exec_cases [OF _ this] step_release_fast excl_fast_release [of fs "lock_abs l" t E] show ?case
    by (auto simp: lock_excl_def simp del: spec_exec.simps)
next
  case (step_reset l fs)
  have "lock_exec Op_Reset l E = (R_Unit, lock_Reset l, E)" for E by simp
  from exec_cases [OF _ this] step_reset have "lock_inv (lock_Reset l)" "lock_abs (lock_Reset l) = spec_new"
    by (simp_all add: lock_excl_def spec_new_def)
  then show ?case by (simp add: lock_excl_def excl_new)
next
  case (step_op op l E r l' E' fs)
  from exec_cases [OF _ step_op(4)] step_op excl_exec [of fs "lock_abs l" op E] show ?case
    by (auto simp: lock_excl_def simp del: spec_exec.simps)
qed

interpretation lock_sys: transition_invariant lock_init lock_step lock_excl
proof
  show "lock_init s \<Longrightarrow> lock_excl s" for s
    by (auto simp: lock_init_def lock_excl_def lock_new_laws excl_new)
  show "lock_excl s \<Longrightarrow> lock_step s t \<Longrightarrow> lock_excl t" for s t
    by (rule lock_step_excl)
qed

text \<open>
  C2: In every reachable state of a key lock, a transaction that holds the write lock excludes
  all others: every read lock and every fast read belongs to the same transaction, and the fast
  read counter is exactly the number of fast readers.
\<close>

theorem write_lock_exclusive:
  assumes "reachable lock_init lock_step (l, fs)"
  shows "read_cnt l = int (length fs)
     \<and> (HasWriteLock_of l w \<longrightarrow> read_locks l \<subseteq> {w} \<and> set fs \<subseteq> {w})"
proof -
  have ex: "excl fs (lock_abs l)"
    using lock_sys.reach_invariant [OF assms] by (simp add: lock_excl_def)
  have "read_locks l \<subseteq> {w} \<and> set fs \<subseteq> {w}" if "HasWriteLock_of l w"
  proof -
    have w: "(w, WriteLock) \<in> holders (lock_abs l)" using that by (simp add: HasWriteLock_of_def)
    have "u = w" if "u \<in> read_locks l" for u
      using excl_no_conflict [OF ex w, of u ReadLock] that by auto
    then show ?thesis using excl_fast_readers [OF ex w] by auto
  qed
  then show ?thesis using ex by (simp add: excl_def)
qed

definition demo_req :: "nat \<Rightarrow> TxNumber \<Rightarrow> cc_req" where
  "demo_req i t = \<lparr>req_id = i, req_txn = t\<rparr>"

definition demo_env :: cc_env where
  "demo_env = \<lparr>enqueued = [], aborted = []\<rparr>"

definition demo_write_held :: NonBlockingLock where
  "demo_write_held = fst (snd (lock_exec (Op_Acquire (demo_req 1 7) Locking WriteLock) lock_new demo_env))"

lemma demo_write_held_eq: "demo_write_held = lock_new\<lparr>write_txn := 7, write_lk_type := WLT_WriteLock\<rparr>"
  by (simp add: demo_write_held_def AcquireLock_def AcquireWriteLock_def NoWriteConflict_def
      NoReadLockConflict_def lock_new_def UpgradeLock_def demo_req_def)

lemma demo_write_held_reachable: "reachable lock_init lock_step (demo_write_held, [])"
proof -
  have "lock_init (lock_new, [])" by (simp add: lock_init_def)
  moreover obtain r E' where
    "lock_exec (Op_Acquire (demo_req 1 7) Locking WriteLock) lock_new demo_env = (r, demo_write_held, E')"
    unfolding demo_write_held_def by (metis prod.collapse)
  then have "lock_step (lock_new, []) (demo_write_held, [])" by (rule step_op [rotated 3]) simp_all
  ultimately show ?thesis by (rule reach_step [OF reach_init])
qed

theorem write_lock_exclusive_witness:
  "reachable lock_init lock_step (demo_write_held, []) \<and> HasWriteLock_of demo_write_held 7
     \<and> read_locks demo_write_held \<subseteq> {7}"
  using write_lock_exclusive [OF demo_write_held_reachable, of 7] demo_write_held_reachable
  by (simp add: demo_write_held_eq HasWriteLock_of_def)

section \<open>Wake-up\<close>

lemma head_blocked_quiet:
  assumes "lock_inv l" and "head_blocked (lock_abs l)"
  shows "TryPopBlockingQueue l E = (l, E)"
proof (cases "cq_list (blocking_queue l)")
  case Nil
  then show ?thesis
    by (subst TryPopBlockingQueue.simps) (simp add: cq_Size_law)
next
  case (Cons e es)
  then have "pop_head l E = None"
    using pop_head_abs [OF assms(1) Cons, of E] assms(2)
    by (auto simp: head_blocked_def split: option.splits)
  then show ?thesis by (subst TryPopBlockingQueue.simps) simp
qed

text \<open>
  The conditions under which the map inserts a request at the head of the queue
  (\<open>AcquireCceKeyLock\<close>, \<open>ReadCc\<close>): it asks for a read lock and another transaction holds the
  write lock.
\<close>

primrec wake_safe :: "lock_op \<Rightarrow> NonBlockingLock \<Rightarrow> bool" where
  "wake_safe (Op_Acquire r p lt) l = True"
| "wake_safe (Op_ReadFast t) l = True"
| "wake_safe Op_ReleaseReadFast l = True"
| "wake_safe (Op_ReleaseRead t) l = True"
| "wake_safe (Op_ReleaseWrite t) l = True"
| "wake_safe (Op_Downgrade t) l = True"
| "wake_safe (Op_ReleaseWriteIntent t) l = True"
| "wake_safe (Op_ReleaseReadIntent t) l = True"
| "wake_safe (Op_ClearTx t) l = True"
| "wake_safe (Op_Insert r lt) l = (lt = ReadLock \<and> HasWriteLock l \<and> write_txn l \<noteq> req_txn r)"
| "wake_safe (Op_AbortQueued t err) l = False"
| "wake_safe (Op_AbortAll err) l = True"
| "wake_safe Op_Reset l = True"

primrec wake_safe_run :: "lock_op list \<Rightarrow> NonBlockingLock \<Rightarrow> cc_env \<Rightarrow> bool" where
  "wake_safe_run [] l E = True"
| "wake_safe_run (op # ops) l E =
     (wake_safe op l \<and> (let (r, l', E') = lock_exec op l E in wake_safe_run ops l' E'))"

lemma exec_head_blocked:
  assumes "lock_inv l" and "head_blocked (lock_abs l)" and "wake_safe op l"
    and "lock_exec op l E = (r, l', E')"
  shows "lock_inv l' \<and> head_blocked (lock_abs l')"
proof -
  have "head_blocked (fst (snd (spec_exec op (lock_abs l) E)))"
    using assms(2,3) by (intro head_blocked_exec)
      (auto simp: grantable_code NoWriteLockConflict_def HasWriteLock_def)
  with exec_cases [OF assms(1,4)] show ?thesis by simp
qed

lemma run_head_blocked:
  assumes "lock_inv l" and "head_blocked (lock_abs l)" and "wake_safe_run ops l E"
    and "lock_run ops l E = (rs, l', E')"
  shows "lock_inv l' \<and> head_blocked (lock_abs l')"
  using assms
proof (induction ops arbitrary: l E rs)
  case (Cons op ops)
  obtain r l1 E1 where "lock_exec op l E = (r, l1, E1)" by (metis prod_cases3)
  moreover from this Cons.prems(4) obtain rs' where "lock_run ops l1 E1 = (rs', l', E')"
    by (auto simp: Let_def split: prod.splits)
  ultimately show ?case
    using exec_head_blocked [OF Cons.prems(1,2), of op E r l1 E1] Cons.prems(3)
      Cons.IH [of l1 E1 rs'] by simp
qed simp

text \<open>
  C3: No wake-up is lost. After any history of a fresh lock in which requests are inserted at
  the head only under a foreign write lock and no single queued request is aborted, the request
  at the head of the queue is in conflict with a holder: running the wake-up loop once more
  changes nothing.
\<close>

theorem no_lost_wakeup:
  assumes "wake_safe_run ops lock_new E" and "lock_run ops lock_new E = (rs, l, E')"
  shows "TryPopBlockingQueue l E1 = (l, E1)"
proof -
  have "head_blocked (lock_abs lock_new)"
    by (simp add: lock_new_laws spec_new_def head_blocked_def)
  from run_head_blocked [OF lock_new_laws(1) this assms] show ?thesis
    by (simp add: head_blocked_quiet)
qed


definition demo_ops :: "lock_op list" where
  "demo_ops = [Op_Acquire (demo_req 1 7) Locking WriteLock, Op_Acquire (demo_req 2 8) Locking WriteLock,
     Op_Insert (demo_req 3 9) ReadLock]"

lemmas lock_ops_eval = AcquireLock_def AcquireWriteLock_def AcquireReadLock_def AcquireWriteIntent_def
  AcquireReadIntent_def NoWriteConflict_def NoReadLockConflict_def NoWriteLockConflict_def
  no_blocking_queue_conflict_def UpgradeLock_def InsertBlockingQueue_def lock_new_def cq_new_def
  cq_Enqueue_def cq_EnqueueAsFirst_def cq_Size_def cq_Peek_def HasWriteLock_def demo_req_def

theorem no_lost_wakeup_witness:
  "wake_safe_run demo_ops lock_new demo_env
   \<and> cq_Size (blocking_queue (fst (snd (lock_run demo_ops lock_new demo_env)))) = 2
   \<and> TryPopBlockingQueue (fst (snd (lock_run demo_ops lock_new demo_env))) demo_env
       = (fst (snd (lock_run demo_ops lock_new demo_env)), demo_env)"
proof -
  have safe: "wake_safe_run demo_ops lock_new demo_env"
    by (simp add: demo_ops_def lock_ops_eval)
  show ?thesis
    using no_lost_wakeup [OF safe, of "fst (lock_run demo_ops lock_new demo_env)"
        "fst (snd (lock_run demo_ops lock_new demo_env))" "snd (snd (lock_run demo_ops lock_new demo_env))"]
      safe by (simp add: demo_ops_def lock_ops_eval)
qed

section \<open>Order of service\<close>

lemma SearchLock_covered: "covered t lt (lock_abs l) \<Longrightarrow> lt \<le> SearchLock t l"
  by (cases lt; cases "write_lk_type l")
    (auto simp: covered_code SearchLock_def less_eq_LockType_def)

lemma TryPop_serve:
  assumes "lock_inv l"
  shows "fst (serve (cq_list (blocking_queue l)) (lock_abs l) E) = lock_abs (fst (TryPopBlockingQueue l E))"
    and "snd (serve (cq_list (blocking_queue l)) (lock_abs l) E) = snd (TryPopBlockingQueue l E)"
  using wake_code(1) [OF assms, of E] by (simp_all add: wake_def)

text \<open>
  C9: Waking serves the queue in order. The requests handed back to the shard are exactly a
  prefix of the blocking queue, in queue order, the rest keeps waiting in order; and when no
  transaction waits twice, every request that left the queue with a read lock, write intent or
  write lock holds a lock at least that strong.
\<close>

theorem wake_serves_prefix:
  assumes "cq_inv (blocking_queue l)" and "TryPopBlockingQueue l E = (l', E')"
  shows "\<exists>ps. cq_list (blocking_queue l) = ps @ cq_list (blocking_queue l')
     \<and> enqueued E' = enqueued E @ map lqe_req ps \<and> aborted E' = aborted E
     \<and> (distinct (map lqe_txn (cq_list (blocking_queue l))) \<longrightarrow>
          (\<forall>e \<in> set ps. lk_type e \<noteq> ReadIntent \<longrightarrow> lk_type e \<le> SearchLock (lqe_txn e) l'))"
proof -
  let ?q = "cq_list (blocking_queue l)"
  have inv: "lock_inv l" using assms(1) by (simp add: lock_inv_def)
  note srv = TryPop_serve [OF inv, of E, unfolded assms(2), simplified]
  obtain ps where ps: "?q = ps @ cq_list (blocking_queue l')"
    "E' = E\<lparr>enqueued := enqueued E @ map lqe_req ps\<rparr>"
    using serve_prefix [of ?q "lock_abs l" E] by (auto simp: srv)
  have "lk_type e \<le> SearchLock (lqe_txn e) l'"
    if "distinct (map lqe_txn ?q)" "e \<in> set ps" "lk_type e \<noteq> ReadIntent" for e
  proof (cases "lk_type e = NoLock")
    case True
    then show ?thesis by (simp add: less_eq_LockType_def)
  next
    case False
    have "?q = ps @ waiting (fst (serve ?q (lock_abs l) E))" unfolding srv using ps(1) by simp
    from serve_holds [OF that(1) this that(2)] that(3) False
    have "(lqe_txn e, lk_type e) \<in> holders (lock_abs l')" by (simp add: srv)
    with False that(3) have "covered (lqe_txn e) (lk_type e) (lock_abs l')"
      by (cases "lk_type e") (auto simp: covered_def)
    then show ?thesis by (rule SearchLock_covered)
  qed
  with ps show ?thesis by (intro exI [of _ ps]) simp
qed

text \<open>Two transactions wait behind a write lock that has just been given up.\<close>

definition demo_waiting :: NonBlockingLock where
  "demo_waiting = lock_new\<lparr>blocking_queue := cq_Enqueue (cq_Enqueue (cq_new lqe_default 8)
     \<lparr>lqe_req = demo_req 2 8, lk_type = ReadLock\<rparr>) \<lparr>lqe_req = demo_req 3 9, lk_type = WriteLock\<rparr>\<rparr>"

lemma demo_waiting_laws:
  "cq_inv (blocking_queue demo_waiting)"
  "cq_list (blocking_queue demo_waiting) = [\<lparr>lqe_req = demo_req 2 8, lk_type = ReadLock\<rparr>,
     \<lparr>lqe_req = demo_req 3 9, lk_type = WriteLock\<rparr>]"
  by (simp_all add: demo_waiting_def cq_new_laws queue_laws)

theorem wake_serves_prefix_witness:
  "cq_inv (blocking_queue demo_waiting)
   \<and> (\<exists>ps. cq_list (blocking_queue demo_waiting)
        = ps @ cq_list (blocking_queue (fst (TryPopBlockingQueue demo_waiting demo_env)))
      \<and> enqueued (snd (TryPopBlockingQueue demo_waiting demo_env)) = map lqe_req ps
      \<and> (\<forall>e \<in> set ps. lk_type e \<noteq> ReadIntent \<longrightarrow>
           lk_type e \<le> SearchLock (lqe_txn e) (fst (TryPopBlockingQueue demo_waiting demo_env))))"
proof -
  have "distinct (map lqe_txn (cq_list (blocking_queue demo_waiting)))"
    by (simp add: demo_waiting_laws(2) demo_req_def)
  with wake_serves_prefix [OF demo_waiting_laws(1) prod.collapse [symmetric], of demo_env]
  show ?thesis using demo_waiting_laws(1) by (auto simp: demo_env_def)
qed

text \<open>
  C10: Progress. When the holder of the write lock releases it and nobody else holds a read
  lock or a fast read, the request at the head of the queue is handed back to the shard.
\<close>

theorem release_wakes_head:
  assumes "cq_inv (blocking_queue l)" and "HasWriteLock_of l t" and "read_locks l = {}"
    and "read_cnt l = 0" and "cq_list (blocking_queue l) = e # es"
  shows "\<exists>rs. fst (ReleaseWriteLock t False l E) = True
     \<and> enqueued (snd (snd (ReleaseWriteLock t False l E))) = enqueued E @ lqe_req e # rs"
proof -
  let ?l = "l\<lparr>write_lk_type := NoWritelock, write_txn := 0\<rparr>"
  have l: "lock_inv ?l" "cq_list (blocking_queue ?l) = e # es"
    using assms(1,5) by (simp_all add: lock_inv_def)
  have "h = ReadIntent" if "(u, h) \<in> holders (lock_abs ?l)" for u h
    using that assms(3) by (cases h) simp_all
  then obtain ps :: "LockQueueEntry list" where
    "enqueued (snd (serve (e # es) (lock_abs ?l) E)) = enqueued E @ lqe_req e # map lqe_req ps"
    using serve_progress [of "lock_abs ?l" e es E] assms(4) by auto
  then have "enqueued (snd (TryPopBlockingQueue ?l E)) = enqueued E @ lqe_req e # map lqe_req ps"
    using TryPop_serve(2) [OF l(1), of E] l(2) by simp
  then show ?thesis
    using assms(2) by (simp add: ReleaseWriteLock_def HasWriteLock_of_def)
qed


theorem release_wakes_head_witness:
  "let l = demo_waiting\<lparr>write_lk_type := WLT_WriteLock, write_txn := 7\<rparr> in
     HasWriteLock_of l 7 \<and> cq_inv (blocking_queue l)
     \<and> (\<exists>rs. enqueued (snd (snd (ReleaseWriteLock 7 False l demo_env))) = demo_req 2 8 # rs)"
  using release_wakes_head [of "demo_waiting\<lparr>write_lk_type := WLT_WriteLock, write_txn := 7\<rparr>" 7
      "\<lparr>lqe_req = demo_req 2 8, lk_type = ReadLock\<rparr>"
      "[\<lparr>lqe_req = demo_req 3 9, lk_type = WriteLock\<rparr>]" demo_env] demo_waiting_laws
  by (simp add: HasWriteLock_of_def demo_env_def Let_def) (simp add: demo_waiting_def lock_new_def)

section \<open>Outcomes of single operations\<close>

text \<open>
  C11: Outcome of \<open>AcquireLock\<close>. Success means that the transaction now holds a lock at least as
  strong as the one it asked for and that the queue is untouched; failure happens under the
  OCC protocol only and leaves the lock as it was; a blocked request is the new last entry of
  the queue, and nothing else changes.
\<close>

theorem AcquireLock_outcome:
  assumes "cq_inv (blocking_queue l)" and "AcquireLock r p lt l = (st, l')"
  shows "case st of
      Successful \<Rightarrow> lt \<le> SearchLock (req_txn r) l'
        \<and> cq_list (blocking_queue l') = cq_list (blocking_queue l)
    | Failed \<Rightarrow> p = OCC \<and> holders_of l' = holders_of l
        \<and> cq_list (blocking_queue l') = cq_list (blocking_queue l)
    | Blocked \<Rightarrow> holders_of l' = holders_of l
        \<and> cq_list (blocking_queue l') = cq_list (blocking_queue l) @ [\<lparr>lqe_req = r, lk_type = lt\<rparr>]"
proof -
  have "lock_inv l" using assms(1) by (simp add: lock_inv_def)
  from AcquireLock_abs [OF this assms(2)]
  have ac: "spec_acquire r p lt (lock_abs l) = (st, lock_abs l')" by simp
  note out = spec_acquire_outcome [OF ac]
  show ?thesis
  proof (cases st)
    case Successful
    with out(1) show ?thesis by (simp add: SearchLock_covered)
  next
    case Failed
    with out(2) show ?thesis by (auto simp: lock_abs_def)
  next
    case Blocked
    with out(3) show ?thesis by (auto simp: lock_abs_def)
  qed
qed

theorem AcquireLock_outcome_witness:
  "cq_inv (blocking_queue demo_write_held)
   \<and> fst (AcquireLock (demo_req 2 8) Locking ReadLock demo_write_held) = Blocked
   \<and> cq_list (blocking_queue (snd (AcquireLock (demo_req 2 8) Locking ReadLock demo_write_held)))
       = [\<lparr>lqe_req = demo_req 2 8, lk_type = ReadLock\<rparr>]"
proof -
  have inv: "cq_inv (blocking_queue demo_write_held)"
    and nil: "cq_list (blocking_queue demo_write_held) = []"
    by (simp_all add: demo_write_held_eq lock_new_def cq_new_laws)
  have st: "fst (AcquireLock (demo_req 2 8) Locking ReadLock demo_write_held) = Blocked"
    by (simp add: demo_write_held_eq lock_ops_eval)
  show ?thesis
    using AcquireLock_outcome [where r = "demo_req 2 8" and p = Locking and lt = ReadLock,
        OF inv prod.collapse [symmetric]] inv nil st by simp
qed

lemma SearchLock_NoLock: "SearchLock t l = NoLock \<longleftrightarrow> (\<forall>h. (t, h) \<notin> holders_of l)"
proof
  assume "SearchLock t l = NoLock"
  then show "\<forall>h. (t, h) \<notin> holders_of l"
  proof (intro allI)
    fix h
    show "(t, h) \<notin> holders_of l"
      using \<open>SearchLock t l = NoLock\<close> by (cases h) (auto simp: SearchLock_def split: if_splits)
  qed
qed (auto simp: SearchLock_def holders_of_def split: WriteLockType.splits if_splits)

lemma SearchLock_holds: "(t, h) \<in> holders_of l \<Longrightarrow> (t, SearchLock t l) \<in> holders_of l"
  by (cases h; cases "write_lk_type l") (auto simp: SearchLock_def)

lemma SearchLock_holds': "SearchLock t l \<noteq> NoLock \<Longrightarrow> (t, SearchLock t l) \<in> holders_of l"
  by (cases "write_lk_type l") (auto simp: SearchLock_def split: if_splits)

text \<open>
  C12: \<open>ClearTx\<close> drops exactly the one kind of lock it returns. It returns no lock only if the transaction
  holds none, otherwise a kind that the transaction holds; and for every transaction that does not wait in
  the queue, the locks held afterwards are those held before without that kind of the cleared transaction.
  So a transaction with locks of one kind that does not wait is left without any, and one with two kinds
  keeps the other.
\<close>

theorem ClearTx_clears:
  assumes "cq_inv (blocking_queue l)" and "lock_ClearTx t l E = (r, l', E')"
  shows "(r = NoLock \<longleftrightarrow> SearchLock t l = NoLock) \<and> (r \<noteq> NoLock \<longrightarrow> (t, r) \<in> holders_of l) \<and>
    (\<forall>u h. u \<notin> lqe_txn ` set (cq_list (blocking_queue l)) \<longrightarrow>
       ((u, h) \<in> holders_of l' \<longleftrightarrow> (u, h) \<in> holders_of l \<and> (u, h) \<noteq> (t, r)))"
proof -
  have "lock_inv l" using assms(1) by (simp add: lock_inv_def)
  from ClearTx_refines [OF this, of t E] assms(2)
  have cl: "spec_clear t (lock_abs l) E = (r, lock_abs l', E')"
    by (cases "spec_clear t (lock_abs l) E") simp
  have none: "(t, NoLock) \<notin> holders (lock_abs l)" by simp
  show ?thesis
    using spec_clear_holders [OF none cl] by (simp add: SearchLock_NoLock del: holders_of_iff)
qed

theorem ClearTx_clears_witness:
  "fst (lock_ClearTx 7 demo_write_held demo_env) \<noteq> NoLock
   \<and> (7, fst (lock_ClearTx 7 demo_write_held demo_env)) \<in> holders_of demo_write_held
   \<and> SearchLock 7 (fst (snd (lock_ClearTx 7 demo_write_held demo_env))) = NoLock"
proof -
  have l: "cq_inv (blocking_queue demo_write_held)" "cq_list (blocking_queue demo_write_held) = []"
    "SearchLock 7 demo_write_held = WriteLock"
    "\<And>h. (7, h) \<in> holders_of demo_write_held \<Longrightarrow> h = WriteLock"
    by (simp_all add: demo_write_held_eq lock_new_def cq_new_laws SearchLock_def holders_of_def)
  obtain r l' E' where cl: "lock_ClearTx 7 demo_write_held demo_env = (r, l', E')" by (metis prod_cases3)
  have r: "r \<noteq> NoLock" "(7, r) \<in> holders_of demo_write_held"
      "\<And>h. (7, h) \<in> holders_of l' \<Longrightarrow> (7, h) \<in> holders_of demo_write_held \<and> h \<noteq> r"
    using ClearTx_clears [OF l(1) cl] l(2,3) by auto
  then have "(7, h) \<notin> holders_of l'" for h using l(4) by metis
  then show ?thesis using r(1,2) cl by (simp add: SearchLock_NoLock)
qed

text \<open>
  C13: \<open>AbortQueueRequest\<close> aborts exactly the queued requests of the given transaction, in queue
  order and with the given error, and the other requests keep their order; holders do not
  change.
\<close>

theorem AbortQueueRequest_removes:
  assumes "cq_inv (blocking_queue l)" and "AbortQueueRequest t err l E = (l', E')"
  shows "cq_list (blocking_queue l') = filter (\<lambda>e. lqe_txn e \<noteq> t) (cq_list (blocking_queue l))
     \<and> aborted E' = aborted E
         @ map (\<lambda>e. (lqe_req e, err)) (filter (\<lambda>e. lqe_txn e = t) (cq_list (blocking_queue l)))
     \<and> enqueued E' = enqueued E \<and> holders_of l' = holders_of l \<and> \<not> FindQueueRequest t l'"
proof -
  have "lock_inv l" using assms(1) by (simp add: lock_inv_def)
  note loop = abort_queue_loop_abs [OF this assms(2) [unfolded AbortQueueRequest_def], simplified]
  then show ?thesis by (auto simp: lock_abs_def abort_entries_def FindQueueRequest_iff)
qed


theorem AbortQueueRequest_removes_witness:
  "cq_inv (blocking_queue demo_waiting)
   \<and> map lqe_txn (cq_list (blocking_queue (fst (AbortQueueRequest 8 DEAD_LOCK_ABORT demo_waiting demo_env))))
       = [9]
   \<and> aborted (snd (AbortQueueRequest 8 DEAD_LOCK_ABORT demo_waiting demo_env))
       = [(demo_req 2 8, DEAD_LOCK_ABORT)]"
  using AbortQueueRequest_removes [OF demo_waiting_laws(1) prod.collapse [symmetric],
      of 8 DEAD_LOCK_ABORT demo_env] demo_waiting_laws
  by (simp add: demo_env_def demo_req_def)

definition demo_abort_ops :: "lock_op list" where
  "demo_abort_ops =
     [Op_Acquire (demo_req 1 7) Locking ReadLock, Op_Acquire (demo_req 2 8) Locking WriteLock,
      Op_Acquire (demo_req 3 9) Locking ReadLock, Op_AbortQueued 8 DEAD_LOCK_ABORT]"

lemma demo_abort_spec:
  "fst (snd (spec_run demo_abort_ops spec_new demo_env))
     = \<lparr>holders = {(7, ReadLock)}, fast_readers = 0,
        waiting = [\<lparr>lqe_req = demo_req 3 9, lk_type = ReadLock\<rparr>]\<rparr>"
  by (simp add: demo_abort_ops_def spec_acquire_def covered_def admitted_def grantable_def grant_def
      spec_new_def demo_req_def)

text \<open>
  C15: A missed wake-up. Transaction 7 holds a read lock, 8 waits for the write lock and 9 waits
  for a read lock behind it. After the queued request of 8 is aborted, the request of 9 is at
  the head and in conflict with nobody, yet it keeps waiting: \<open>AbortQueueRequest\<close> does not run
  the wake-up loop, which would hand the request back to the shard.
\<close>

theorem AbortQueueRequest_misses_wakeup:
  "let l = fst (snd (lock_run demo_abort_ops lock_new demo_env))
   in FindQueueRequest 9 l \<and> read_locks l = {7} \<and> write_lk_type l = NoWritelock
      \<and> enqueued (snd (TryPopBlockingQueue l demo_env)) = [demo_req 3 9]"
proof -
  define l where "l = fst (snd (lock_run demo_abort_ops lock_new demo_env))"
  have l: "lock_inv l" "lock_abs l = \<lparr>holders = {(7, ReadLock)}, fast_readers = 0,
         waiting = [\<lparr>lqe_req = demo_req 3 9, lk_type = ReadLock\<rparr>]\<rparr>"
    using run_refines [OF lock_new_laws(1), of demo_abort_ops demo_env] demo_abort_spec
    unfolding lock_new_laws(2) l_def by simp_all
  then have h: "holders_of l = {(7, ReadLock)}"
    and q: "cq_list (blocking_queue l) = [\<lparr>lqe_req = demo_req 3 9, lk_type = ReadLock\<rparr>]"
    by (simp_all add: lock_abs_def)
  have "read_locks l = {7}"
    using h holders_of_iff(2) [of _ l] by auto
  moreover have "write_lk_type l = NoWritelock"
    using h holders_of_iff(3,4) [of "write_txn l" l] by (cases "write_lk_type l") auto
  moreover have "FindQueueRequest 9 l"
    by (simp add: FindQueueRequest_iff q demo_req_def)
  moreover have "enqueued (snd (TryPopBlockingQueue l demo_env)) = [demo_req 3 9]"
    unfolding TryPop_serve(2) [OF l(1), symmetric] q l(2)
    by (simp add: grantable_def demo_req_def ccs_Enqueue_def demo_env_def)
  ultimately show ?thesis unfolding l_def [symmetric] Let_def by blast
qed

end
