(* ===== verification/Deadlock_Check.thy ===== *)
theory Deadlock_Check
  imports Cc_Protocol
begin

text \<open>
  \<open>include/dead_lock_check.h\<close> and \<open>src/dead_lock_check.cpp\<close>: the deadlock detector merges what
  each node reports (which transactions hold an entry, which wait for it), builds the graph of
  waiting transactions, searches it for cycles and picks a transaction of each to abort.

  Hash maps and hash sets are association lists and lists without duplicates; a new key goes to
  the end. The standard leaves the iteration order of the containers open; what is proved of
  them does not depend on it. The sorted \<open>std::map\<close> of edges is a sorted list, an iterator into
  it an index, \<open>end()\<close> the length.
\<close>

section \<open>State\<close>

record LockNode =
  ln_node_id :: u32
  ln_core_id :: u32
  ln_ety_addr :: u64

definition NeEqual :: "LockNode \<Rightarrow> LockNode \<Rightarrow> bool" where
  "NeEqual a b \<longleftrightarrow> ln_node_id a = ln_node_id b \<and> ln_ety_addr a = ln_ety_addr b"

record DeadLockCheck =
  entry_locked_txid_map :: "(LockNode \<times> TxNumber list) list"
  txid_waited_entry_map :: "(TxNumber \<times> LockNode list) list"
  txid_ety_count_map :: "(TxNumber \<times> u32) list"
  reply_map :: "(u32 \<times> bool) list"
  node_unfinished :: int
  last_check_time :: u64
  check_node_id :: u32

text \<open>\<open>try_emplace\<close> followed by an update of the element it points at.\<close>

primrec emplace_with ::
    "('k \<Rightarrow> 'k \<Rightarrow> bool) \<Rightarrow> 'k \<Rightarrow> 'v \<Rightarrow> ('v \<Rightarrow> 'v) \<Rightarrow> ('k \<times> 'v) list \<Rightarrow> ('k \<times> 'v) list" where
  "emplace_with eq k d f [] = [(k, f d)]"
| "emplace_with eq k d f (p # ps) =
     (if eq (fst p) k then (fst p, f (snd p)) # ps else p # emplace_with eq k d f ps)"

definition set_insert :: "('k \<Rightarrow> 'k \<Rightarrow> bool) \<Rightarrow> 'k \<Rightarrow> 'k list \<Rightarrow> 'k list" where
  "set_insert eq k ks = (if list_ex (\<lambda>x. eq x k) ks then ks else ks @ [k])"

section \<open>Merging reports\<close>

text \<open>
  A report of one node: for each blocked entry its core, address, holders and waiters, and for
  each transaction the number of entries it has locked.
\<close>

record BlockEntry =
  be_core_id :: u32
  be_entry :: u64
  be_locked_tids :: "TxNumber list"
  be_waited_tids :: "TxNumber list"

record DeadLockResponse =
  rsp_node_id :: u32
  rsp_block_entry :: "BlockEntry list"
  rsp_tx_etys :: "(TxNumber \<times> u32) list"

definition merge_entry :: "u32 \<Rightarrow> BlockEntry \<Rightarrow> DeadLockCheck \<Rightarrow> DeadLockCheck" where
  "merge_entry node_id be d =
     (let le = \<lparr>ln_node_id = node_id, ln_core_id = be_core_id be, ln_ety_addr = be_entry be\<rparr>
      in d\<lparr>entry_locked_txid_map := emplace_with NeEqual le []
             (\<lambda>s. fold (set_insert (=)) (be_locked_tids be) s) (entry_locked_txid_map d),
           txid_waited_entry_map := fold (\<lambda>tx. emplace_with (=) tx [] (set_insert NeEqual le))
             (be_waited_tids be) (txid_waited_entry_map d)\<rparr>)"

definition merge_count :: "TxNumber \<times> u32 \<Rightarrow> DeadLockCheck \<Rightarrow> DeadLockCheck" where
  "merge_count te d =
     d\<lparr>txid_ety_count_map := emplace_with (=) (fst te) 0 (\<lambda>c. c + snd te) (txid_ety_count_map d)\<rparr>"

text \<open>The flag of the result says that the waiting thread is notified.\<close>

definition merge_done :: "u32 \<Rightarrow> DeadLockCheck \<Rightarrow> DeadLockCheck \<times> bool" where
  "merge_done node_id d =
     (let d' = d\<lparr>reply_map := emplace_with (=) node_id True (\<lambda>_. True) (reply_map d),
                 node_unfinished := node_unfinished d - 1\<rparr>
      in (d', node_unfinished d' = 0))"

definition MergeRemoteWaitingLockInfo ::
    "DeadLockResponse \<Rightarrow> DeadLockCheck \<Rightarrow> DeadLockCheck \<times> bool" where
  "MergeRemoteWaitingLockInfo rsp d =
     (let node_id = rsp_node_id rsp;
          d1 = fold (merge_entry node_id) (rsp_block_entry rsp) d;
          d2 = fold merge_count (rsp_tx_etys rsp) d1
      in merge_done node_id d2)"

text \<open>
  The local report has one vector per core; an entry is its address with the transactions that
  lock it and wait for it.
\<close>

record CheckDeadLockResult =
  entry_lock_info_vec :: "(u64 \<times> TxNumber list \<times> TxNumber list) list list"
  txid_ety_lock_count :: "(TxNumber \<times> u32) list list"

definition MergeLocalWaitingLockInfo ::
    "u32 \<Rightarrow> CheckDeadLockResult \<Rightarrow> DeadLockCheck \<Rightarrow> DeadLockCheck \<times> bool" where
  "MergeLocalWaitingLockInfo node_id dlres d =
     (let d1 = fold (\<lambda>i. fold (\<lambda>(addr, lock_txids, wait_txids).
                   merge_entry node_id \<lparr>be_core_id = of_nat i, be_entry = addr,
                     be_locked_tids = lock_txids, be_waited_tids = wait_txids\<rparr>)
                 (entry_lock_info_vec dlres ! i)) [0..<length (entry_lock_info_vec dlres)] d;
          d2 = fold (fold merge_count) (txid_ety_lock_count dlres) d1
      in merge_done node_id d2)"

text \<open>\<open>GatherLockDependancy\<close> starts a round with empty maps.\<close>

definition gather_clear :: "DeadLockCheck \<Rightarrow> DeadLockCheck" where
  "gather_clear d = d\<lparr>reply_map := [], node_unfinished := 0, entry_locked_txid_map := [],
     txid_waited_entry_map := [], txid_ety_count_map := []\<rparr>"

definition UpdateCheckNodeId :: "u64 \<Rightarrow> u64 \<Rightarrow> u32 \<Rightarrow> DeadLockCheck \<Rightarrow> DeadLockCheck" where
  "UpdateCheckNodeId clock_ts time_interval node_id d =
     (let d1 = (if check_node_id d > node_id \<or> clock_ts - last_check_time d > time_interval * 5
                then d\<lparr>check_node_id := node_id\<rparr> else d)
      in if check_node_id d1 = node_id then d1\<lparr>last_check_time := clock_ts\<rparr> else d1)"

text \<open>The test with which a turn of \<open>Run\<close> decides to start a round.\<close>

definition run_starts_check ::
    "u64 \<Rightarrow> u64 \<Rightarrow> bool \<Rightarrow> bool \<Rightarrow> int \<Rightarrow> u32 \<Rightarrow> DeadLockCheck \<Rightarrow> bool" where
  "run_starts_check clock_ts time_interval stop requested_check primary_node_term node_id d =
     (let ival = clock_ts - last_check_time d
      in if stop \<or> (ival < time_interval \<and> \<not> requested_check) then False
         else if primary_node_term > 0 then False
         else if ival < time_interval * 2 + ucast node_id * 1000000 \<and> check_node_id d \<noteq> node_id
         then False else True)"

section \<open>The graph of waiting transactions\<close>

type_synonym TxEdge = "TxNumber \<times> TxNumber"

abbreviation tx_wait :: "TxEdge \<Rightarrow> TxNumber" where
  "tx_wait \<equiv> fst"

abbreviation tx_lock :: "TxEdge \<Rightarrow> TxNumber" where
  "tx_lock \<equiv> snd"

definition EdgeLess :: "TxEdge \<Rightarrow> TxEdge \<Rightarrow> bool" where
  "EdgeLess a b = (if tx_wait a = tx_wait b then tx_lock a < tx_lock b else tx_wait a < tx_wait b)"

primrec edge_emplace :: "TxEdge \<Rightarrow> TxEdge list \<Rightarrow> TxEdge list" where
  "edge_emplace e [] = [e]"
| "edge_emplace e (x # xs) =
     (if EdgeLess x e then x # edge_emplace e xs else if EdgeLess e x then e # x # xs else x # xs)"

primrec find_entry :: "LockNode \<Rightarrow> (LockNode \<times> TxNumber list) list \<Rightarrow> TxNumber list option" where
  "find_entry le [] = None"
| "find_entry le (p # ps) = (if NeEqual (fst p) le then Some (snd p) else find_entry le ps)"

definition graph_edges_of :: "DeadLockCheck \<Rightarrow> TxNumber \<Rightarrow> LockNode \<Rightarrow> TxEdge list \<Rightarrow> TxEdge list" where
  "graph_edges_of d tx_waiting_lock it_ety map_edge =
     (case find_entry it_ety (entry_locked_txid_map d) of
        None \<Rightarrow> map_edge
      | Some holders \<Rightarrow>
          fold (\<lambda>tx_holding_lock es. if tx_waiting_lock = tx_holding_lock then es
                 else edge_emplace (tx_waiting_lock, tx_holding_lock) es) holders map_edge)"

definition GenerateTxWaitGraph :: "DeadLockCheck \<Rightarrow> TxEdge list" where
  "GenerateTxWaitGraph d =
     fold (\<lambda>(tx, etys). fold (graph_edges_of d tx) etys) (txid_waited_entry_map d) []"

section \<open>Searching for cycles\<close>

text \<open>
  \<open>map_edge\<close> is the sorted map from edges to visit marks (\<open>-1\<close> for an edge not visited yet),
  \<open>vct_iter\<close> the stack of iterators with its last element first.
\<close>

record search =
  map_edge :: "(TxEdge \<times> int) list"
  set_dup :: "TxEdge set"
  vct_iter :: "nat list"
  tx_id :: TxNumber
  iter :: nat
  vct_v_edge :: "TxEdge list list"

abbreviation edge_at :: "search \<Rightarrow> nat \<Rightarrow> TxEdge" where
  "edge_at s i \<equiv> fst (map_edge s ! i)"

definition lower_bound :: "(TxEdge \<times> int) list \<Rightarrow> TxEdge \<Rightarrow> nat" where
  "lower_bound m e = length (takeWhile (\<lambda>x. EdgeLess (fst x) e) m)"

text \<open>The group reported for a repeated edge: the edge, then the stack down to that edge.\<close>

definition cycle_group :: "search \<Rightarrow> TxEdge list" where
  "cycle_group s = edge_at s (iter s)
     # map (edge_at s) (takeWhile (\<lambda>j. edge_at s j \<noteq> edge_at s (iter s)) (vct_iter s))"

text \<open>One turn of the \<open>while (true)\<close> loop: \<open>Inl\<close> the state at \<open>break\<close>, \<open>Inr\<close> the next state.\<close>

definition search_turn :: "int \<Rightarrow> search \<Rightarrow> search + search" where
  "search_turn iround s =
     (if iter s \<ge> length (map_edge s) \<or> tx_wait (edge_at s (iter s)) \<noteq> tx_id s then
        let stk = tl (vct_iter s)
        in if length stk \<le> 1 then Inl (s\<lparr>vct_iter := stk\<rparr>)
           else Inr (s\<lparr>vct_iter := stk, set_dup := set_dup s - {edge_at s (hd stk)},
                       tx_id := tx_wait (edge_at s (hd stk)), iter := hd stk + 1\<rparr>)
      else if snd (map_edge s ! iter s) = iround then
        if edge_at s (iter s) \<notin> set_dup s then Inr (s\<lparr>iter := iter s + 1\<rparr>)
        else Inr (s\<lparr>vct_v_edge := vct_v_edge s @ [cycle_group s], iter := iter s + 1\<rparr>)
      else if snd (map_edge s ! iter s) > 0 then Inr (s\<lparr>iter := iter s + 1\<rparr>)
      else
        let m = (map_edge s)[iter s := (edge_at s (iter s), iround)];
            tx = tx_lock (edge_at s (iter s))
        in Inr (s\<lparr>map_edge := m, set_dup := insert (edge_at s (iter s)) (set_dup s),
                  vct_iter := iter s # vct_iter s, tx_id := tx, iter := lower_bound m (tx, 0)\<rparr>))"

text \<open>
  The loop ends: each turn marks a new edge, or leaves the marks and shortens the stack, or
  leaves both and moves the iterator towards the end.
\<close>

definition unvisited :: "int \<Rightarrow> (TxEdge \<times> int) list \<Rightarrow> nat" where
  "unvisited iround m = length (filter (\<lambda>(e, k). k \<noteq> iround \<and> \<not> k > 0) m)"

lemma unvisited_update:
  assumes "i < length m" and "snd (m ! i) \<noteq> iround" and "\<not> snd (m ! i) > 0"
  shows "unvisited iround (m[i := (e, iround)]) < unvisited iround m"
proof -
  have m: "m = take i m @ m ! i # drop (Suc i) m" using assms(1) by (rule id_take_nth_drop)
  have "m[i := (e, iround)] = take i m @ (e, iround) # drop (Suc i) m"
    using assms(1) by (rule upd_conv_take_nth_drop)
  moreover have "unvisited iround m = unvisited iround (take i m @ m ! i # drop (Suc i) m)"
    using m by simp
  ultimately show ?thesis
    using assms(2,3) by (simp add: unvisited_def case_prod_beta)
qed

function search_loop :: "int \<Rightarrow> search \<Rightarrow> search" where
  "search_loop iround s =
     (case search_turn iround s of Inl s' \<Rightarrow> s' | Inr s' \<Rightarrow> search_loop iround s')"
  by pat_completeness auto
termination
  by (relation "measures [\<lambda>(k, s). unvisited k (map_edge s), \<lambda>(k, s). length (vct_iter s),
        \<lambda>(k, s). length (map_edge s) - iter s]")
    (auto simp: search_turn_def Let_def unvisited_update split: if_splits)

declare search_loop.simps [simp del]

text \<open>The body of the outer loop, for the edge at index \<open>i\<close>.\<close>

definition detect_edge ::
    "nat \<Rightarrow> (TxEdge \<times> int) list \<times> int \<times> TxEdge list list
       \<Rightarrow> (TxEdge \<times> int) list \<times> int \<times> TxEdge list list" where
  "detect_edge i = (\<lambda>(m, iround, out).
     if snd (m ! i) > 0 then (m, iround, out)
     else
       let e = fst (m ! i);
           m1 = m[i := (e, iround)];
           s = search_loop iround \<lparr>map_edge = m1, set_dup = {e}, vct_iter = [i], tx_id = tx_lock e,
                 iter = lower_bound m1 (tx_lock e, 0), vct_v_edge = out\<rparr>
       in (map_edge s, iround + 1, vct_v_edge s))"

definition DetectDeadLock :: "TxEdge list \<Rightarrow> TxEdge list list" where
  "DetectDeadLock es =
     snd (snd (fold detect_edge [0..<length es] (map (\<lambda>e. (e, - 1)) es, 1, [])))"

section \<open>Choosing a transaction to abort\<close>

definition pick_victim ::
    "(TxNumber \<times> u32) list \<Rightarrow> TxEdge \<Rightarrow> TxNumber \<times> u32 \<Rightarrow> TxNumber \<times> u32" where
  "pick_victim counts edge = (\<lambda>(tx, min_ety).
     case map_of counts (tx_wait edge) of
       None \<Rightarrow> (tx, min_ety)
     | Some cnt \<Rightarrow>
         if cnt < min_ety then (tx_wait edge, cnt)
         else if cnt = min_ety \<and> tx > tx_wait edge then (tx_wait edge, min_ety)
         else (tx, min_ety))"

definition dead_victim :: "DeadLockCheck \<Rightarrow> TxEdge list \<Rightarrow> TxNumber" where
  "dead_victim d dead = fst (fold (pick_victim (txid_ety_count_map d)) dead (0, - 1))"

text \<open>
  An abort request goes to the core of the entry on this node, or in a message to the node that
  owns the entry; it names a holder of the entry and the waiting transaction. \<open>None\<close> stands for
  the undefined lookups of a transaction that waits for nothing or an entry nobody holds.
\<close>

record AbortRequest =
  ar_local :: bool
  ar_node_id :: u32
  ar_core_id :: u32
  ar_entry :: u64
  ar_lock_txid :: TxNumber
  ar_wait_txid :: TxNumber

definition abort_request :: "u32 \<Rightarrow> DeadLockCheck \<Rightarrow> TxNumber \<Rightarrow> LockNode \<Rightarrow> AbortRequest option" where
  "abort_request this_node d tx lent =
     (case find_entry lent (entry_locked_txid_map d) of
        Some (holder # _) \<Rightarrow>
          Some \<lparr>ar_local = (ln_node_id lent = this_node), ar_node_id = ln_node_id lent,
                ar_core_id = ln_core_id lent, ar_entry = ln_ety_addr lent,
                ar_lock_txid = holder, ar_wait_txid = tx\<rparr>
      | _ \<Rightarrow> None)"

primrec collect_opt :: "'a option list \<Rightarrow> 'a list option" where
  "collect_opt [] = Some []"
| "collect_opt (x # xs) =
     (case x of None \<Rightarrow> None | Some a \<Rightarrow> map_option ((#) a) (collect_opt xs))"

definition RemoveDeadTransaction ::
    "u32 \<Rightarrow> DeadLockCheck \<Rightarrow> TxEdge list list \<Rightarrow> AbortRequest list option" where
  "RemoveDeadTransaction this_node d vct_dead =
     map_option concat (collect_opt (map (\<lambda>dead.
       let tx = dead_victim d dead
       in (case map_of (txid_waited_entry_map d) tx of
             None \<Rightarrow> None
           | Some etys \<Rightarrow> collect_opt (map (abort_request this_node d tx) etys))) vct_dead))"

text \<open>What a round does once every node has answered.\<close>

definition finish_round :: "u32 \<Rightarrow> DeadLockCheck \<Rightarrow> AbortRequest list option" where
  "finish_round this_node d =
     RemoveDeadTransaction this_node d (DetectDeadLock (GenerateTxWaitGraph d))"

end
