(* ===== verification/Deadlock_Properties.thy ===== *)
theory Deadlock_Properties
  imports Deadlock_Check
begin

text \<open>
  Properties of the deadlock detector: the graph is exactly the relation the reports describe,
  the search finds exactly the cycles when every transaction waits for at most one other, the
  victim is the transaction of the group with the fewest locked entries; and two inputs on which
  the search is wrong when a transaction waits for several others.
\<close>

section \<open>The graph\<close>

lemma EdgeLess_total: "\<not> EdgeLess a b \<Longrightarrow> \<not> EdgeLess b a \<Longrightarrow> a = b"
  by (cases a; cases b) (auto simp: EdgeLess_def split: if_splits)

lemma EdgeLess_trans: "EdgeLess a b \<Longrightarrow> EdgeLess b c \<Longrightarrow> EdgeLess a c"
  by (auto simp: EdgeLess_def split: if_splits)

lemma EdgeLess_irrefl: "\<not> EdgeLess a a"
  by (simp add: EdgeLess_def)

lemma set_edge_emplace: "set (edge_emplace e xs) = insert e (set xs)"
  using EdgeLess_total by (induction xs) auto

lemma sorted_edge_emplace: "sorted_wrt EdgeLess xs \<Longrightarrow> sorted_wrt EdgeLess (edge_emplace e xs)"
  by (induction xs) (auto simp: set_edge_emplace intro: EdgeLess_trans)

definition nkey :: "LockNode \<Rightarrow> u32 \<times> u64" where
  "nkey le = (ln_node_id le, ln_ety_addr le)"

lemma NeEqual_nkey: "NeEqual = (\<lambda>a b. nkey a = nkey b)"
  by (auto simp: NeEqual_def nkey_def fun_eq_iff)

text \<open>Lookup up to the key a container compares by.\<close>

definition look :: "('k \<Rightarrow> 'c) \<Rightarrow> 'c \<Rightarrow> ('k \<times> 'v) list \<Rightarrow> 'v option" where
  "look f c ps = map_of (map (\<lambda>(k, v). (f k, v)) ps) c"

lemma look_emplace:
  "look f c (emplace_with (\<lambda>a b. f a = f b) k d g ps)
     = (if c = f k then Some (g (case look f c ps of None \<Rightarrow> d | Some v \<Rightarrow> v)) else look f c ps)"
  by (induction ps) (auto simp: look_def split: option.splits)

lemma look_emplace_NeEqual:
  "look nkey c (emplace_with NeEqual k d g ps)
     = (if c = nkey k then Some (g (case look nkey c ps of None \<Rightarrow> d | Some v \<Rightarrow> v)) else look nkey c ps)"
  unfolding NeEqual_nkey by (rule look_emplace)

lemma look_emplace_eq:
  "look id c (emplace_with (=) k d g ps)
     = (if c = k then Some (g (case look id c ps of None \<Rightarrow> d | Some v \<Rightarrow> v)) else look id c ps)"
  using look_emplace [of id c k d g ps] by simp

lemma nkey_literal [simp]: "nkey \<lparr>ln_node_id = n, ln_core_id = c, ln_ety_addr = a\<rparr> = (n, a)"
  by (simp add: nkey_def)

lemma keys_emplace:
  "map (f \<circ> fst) (emplace_with (\<lambda>a b. f a = f b) k d g ps)
     = (if f k \<in> f ` fst ` set ps then map (f \<circ> fst) ps else map (f \<circ> fst) ps @ [f k])"
  by (induction ps) auto

lemma find_entry_look: "find_entry le ps = look nkey (nkey le) ps"
  by (induction ps) (auto simp: look_def NeEqual_nkey)

lemma set_fold_set_insert: "set (fold (set_insert (=)) xs s) = set s \<union> set xs"
  by (induction xs arbitrary: s) (auto simp: set_insert_def list_ex_iff)

lemma nkey_set_insert: "nkey ` set (set_insert NeEqual le ks) = insert (nkey le) (nkey ` set ks)"
  by (auto simp: set_insert_def NeEqual_nkey list_ex_iff image_iff) metis+

text \<open>The two relations the maps store: who holds an entry, who waits for it.\<close>

definition holds :: "DeadLockCheck \<Rightarrow> u32 \<times> u64 \<Rightarrow> TxNumber set" where
  "holds d k = (case look nkey k (entry_locked_txid_map d) of None \<Rightarrow> {} | Some hs \<Rightarrow> set hs)"

definition waits :: "DeadLockCheck \<Rightarrow> TxNumber \<Rightarrow> (u32 \<times> u64) set" where
  "waits d tx = (case look id tx (txid_waited_entry_map d) of None \<Rightarrow> {} | Some es \<Rightarrow> nkey ` set es)"

definition dlc_inv :: "DeadLockCheck \<Rightarrow> bool" where
  "dlc_inv d \<longleftrightarrow> distinct (map fst (txid_waited_entry_map d))"

lemma fold_graph_edges:
  "set (fold (\<lambda>h es. if w = h then es else edge_emplace (w, h) es) hs es)
     = set es \<union> {(w, h) | h. h \<in> set hs \<and> w \<noteq> h}"
  by (induction hs arbitrary: es) (auto simp: set_edge_emplace)

lemma set_graph_edges_of:
  "set (graph_edges_of d w le es) = set es \<union> {(w, h) | h. h \<in> holds d (nkey le) \<and> w \<noteq> h}"
  by (auto simp: graph_edges_of_def holds_def find_entry_look fold_graph_edges split: option.splits)

lemma set_fold_graph_edges_of:
  "set (fold (graph_edges_of d w) etys es)
     = set es \<union> {(w, h) | h. \<exists>le \<in> set etys. h \<in> holds d (nkey le) \<and> w \<noteq> h}"
  by (induction etys arbitrary: es) (auto simp: set_graph_edges_of)

lemma set_GenerateTxWaitGraph_aux:
  "set (fold (\<lambda>(tx, etys). fold (graph_edges_of d tx) etys) ws es)
     = set es \<union> {(w, h). w \<noteq> h \<and> (\<exists>etys le. (w, etys) \<in> set ws \<and> le \<in> set etys \<and> h \<in> holds d (nkey le))}"
proof (induction ws arbitrary: es)
  case (Cons p ws)
  show ?case by (cases p) (auto simp: Cons set_fold_graph_edges_of)
qed simp

lemma set_GenerateTxWaitGraph:
  assumes "dlc_inv d"
  shows "set (GenerateTxWaitGraph d) = {(w, h). w \<noteq> h \<and> (\<exists>k \<in> waits d w. h \<in> holds d k)}"
proof -
  have eq: "look id w (txid_waited_entry_map d) = Some etys \<longleftrightarrow> (w, etys) \<in> set (txid_waited_entry_map d)"
    for w etys
    using assms by (simp add: look_def dlc_inv_def)
  have w: "k \<in> waits d w \<longleftrightarrow>
      (\<exists>etys le. (w, etys) \<in> set (txid_waited_entry_map d) \<and> le \<in> set etys \<and> k = nkey le)" for w k
    unfolding waits_def by (auto simp flip: eq split: option.splits)
  show ?thesis
    unfolding GenerateTxWaitGraph_def set_GenerateTxWaitGraph_aux Bex_def w
    by (auto simp del: split_paired_Ex) blast
qed

lemma sorted_GenerateTxWaitGraph: "sorted_wrt EdgeLess (GenerateTxWaitGraph d)"
proof -
  have edges: "sorted_wrt EdgeLess es \<Longrightarrow> sorted_wrt EdgeLess (graph_edges_of d w le es)" for w le es
  proof -
    have "sorted_wrt EdgeLess es \<Longrightarrow>
        sorted_wrt EdgeLess (fold (\<lambda>h es. if w = h then es else edge_emplace (w, h) es) hs es)" for hs
      by (induction hs arbitrary: es) (auto simp: sorted_edge_emplace)
    then show "sorted_wrt EdgeLess es \<Longrightarrow> sorted_wrt EdgeLess (graph_edges_of d w le es)"
      by (auto simp: graph_edges_of_def split: option.splits)
  qed
  have "sorted_wrt EdgeLess es \<Longrightarrow> sorted_wrt EdgeLess (fold (graph_edges_of d w) etys es)" for w etys es
    by (induction etys arbitrary: es) (auto simp: edges)
  then have "sorted_wrt EdgeLess es \<Longrightarrow>
      sorted_wrt EdgeLess (fold (\<lambda>(tx, etys). fold (graph_edges_of d tx) etys) ws es)" for ws es
    by (induction ws arbitrary: es) auto
  then show ?thesis by (simp add: GenerateTxWaitGraph_def)
qed

text \<open>Merging a report adds exactly the pairs it lists.\<close>

lemma holds_merge_entry:
  "holds (merge_entry n be d) k
     = holds d k \<union> (if k = (n, be_entry be) then set (be_locked_tids be) else {})"
  by (simp add: holds_def merge_entry_def Let_def look_emplace_NeEqual set_fold_set_insert
      split: option.split)

lemma waits_fold_waited:
  "(case look id w (fold (\<lambda>tx. emplace_with (=) tx [] (set_insert NeEqual le)) ts ps)
      of None \<Rightarrow> {} | Some es \<Rightarrow> nkey ` set es)
     = (case look id w ps of None \<Rightarrow> {} | Some es \<Rightarrow> nkey ` set es) \<union> (if w \<in> set ts then {nkey le} else {})"
  by (induction ts arbitrary: ps) (auto simp: look_emplace_eq nkey_set_insert split: option.split)

lemma waits_merge_entry:
  "waits (merge_entry n be d) w
     = waits d w \<union> (if w \<in> set (be_waited_tids be) then {(n, be_entry be)} else {})"
  using waits_fold_waited [of w _ "be_waited_tids be" "txid_waited_entry_map d"]
  by (simp add: waits_def merge_entry_def Let_def)

lemma dlc_inv_merge_entry:
  assumes "dlc_inv d"
  shows "dlc_inv (merge_entry n be d)"
proof -
  have "distinct (map fst (fold (\<lambda>tx. emplace_with (=) tx [] g) ts ps))"
    if "distinct (map fst ps)" for g ts and ps :: "(TxNumber \<times> LockNode list) list"
    using that
  proof (induction ts arbitrary: ps)
    case (Cons t ts)
    have "distinct (map fst (emplace_with (=) t [] g ps))"
      using keys_emplace [of id t "[]" g ps] Cons.prems by (auto simp: comp_def)
    then show ?case using Cons.IH by simp
  qed simp
  with assms show ?thesis by (simp add: dlc_inv_def merge_entry_def Let_def)
qed

lemma fold_merge_entry:
  "holds (fold (merge_entry n) bes d) k
     = holds d k \<union> {h. \<exists>be \<in> set bes. k = (n, be_entry be) \<and> h \<in> set (be_locked_tids be)}"
  "waits (fold (merge_entry n) bes d) w
     = waits d w \<union> {(n, be_entry be) | be. be \<in> set bes \<and> w \<in> set (be_waited_tids be)}"
  "dlc_inv d \<Longrightarrow> dlc_inv (fold (merge_entry n) bes d)"
  by (induction bes arbitrary: d)
    (auto simp: holds_merge_entry waits_merge_entry dlc_inv_merge_entry split: if_splits)

lemma counts_keep_relations:
  "holds (fold merge_count ts d) = holds d" "waits (fold merge_count ts d) = waits d"
  "dlc_inv (fold merge_count ts d) = dlc_inv d"
  by (induction ts arbitrary: d) (simp_all add: merge_count_def holds_def waits_def dlc_inv_def fun_eq_iff)

lemma done_keeps_relations:
  "holds (fst (merge_done n d)) = holds d" "waits (fst (merge_done n d)) = waits d"
  "dlc_inv (fst (merge_done n d)) = dlc_inv d"
  by (simp_all add: merge_done_def holds_def waits_def dlc_inv_def fun_eq_iff Let_def)

lemma MergeRemote_relations:
  "holds (fst (MergeRemoteWaitingLockInfo r d)) k
     = holds d k \<union> {h. \<exists>be \<in> set (rsp_block_entry r). k = (rsp_node_id r, be_entry be)
                       \<and> h \<in> set (be_locked_tids be)}"
  "waits (fst (MergeRemoteWaitingLockInfo r d)) w
     = waits d w \<union> {(rsp_node_id r, be_entry be) | be. be \<in> set (rsp_block_entry r)
                       \<and> w \<in> set (be_waited_tids be)}"
  "dlc_inv d \<Longrightarrow> dlc_inv (fst (MergeRemoteWaitingLockInfo r d))"
  by (simp_all add: MergeRemoteWaitingLockInfo_def Let_def done_keeps_relations counts_keep_relations
      fold_merge_entry)

lemma merge_all_relations:
  "holds (fold (\<lambda>r. fst \<circ> MergeRemoteWaitingLockInfo r) rs d) k
     = holds d k \<union> {h. \<exists>r \<in> set rs. \<exists>be \<in> set (rsp_block_entry r). k = (rsp_node_id r, be_entry be)
                       \<and> h \<in> set (be_locked_tids be)}"
  "waits (fold (\<lambda>r. fst \<circ> MergeRemoteWaitingLockInfo r) rs d) w
     = waits d w \<union> {(rsp_node_id r, be_entry be) | r be. r \<in> set rs \<and> be \<in> set (rsp_block_entry r)
                       \<and> w \<in> set (be_waited_tids be)}"
  "dlc_inv d \<Longrightarrow> dlc_inv (fold (\<lambda>r. fst \<circ> MergeRemoteWaitingLockInfo r) rs d)"
  by (induction rs arbitrary: d) (auto simp: MergeRemote_relations)

text \<open>
  C21: The wait graph of a round is exact. After a round has been cleared and the reports of the
  nodes merged, in any order and with entries listed repeatedly, there is an edge from one
  transaction to another precisely when some report has the first wait for an entry and some
  report has the second, a different one, hold the same entry (same node and address); the
  edges come sorted and without repetition.
\<close>

theorem wait_graph_exact:
  "sorted_wrt EdgeLess (GenerateTxWaitGraph (fold (\<lambda>r. fst \<circ> MergeRemoteWaitingLockInfo r) rs (gather_clear d)))
   \<and> ((w, h) \<in> set (GenerateTxWaitGraph (fold (\<lambda>r. fst \<circ> MergeRemoteWaitingLockInfo r) rs (gather_clear d)))
     \<longleftrightarrow> w \<noteq> h \<and> (\<exists>r \<in> set rs. \<exists>be \<in> set (rsp_block_entry r). \<exists>r' \<in> set rs. \<exists>be' \<in> set (rsp_block_entry r').
           rsp_node_id r = rsp_node_id r' \<and> be_entry be = be_entry be'
           \<and> w \<in> set (be_waited_tids be) \<and> h \<in> set (be_locked_tids be')))"
proof -
  let ?d = "fold (\<lambda>r. fst \<circ> MergeRemoteWaitingLockInfo r) rs (gather_clear d)"
  have "dlc_inv ?d" by (rule merge_all_relations) (simp add: dlc_inv_def gather_clear_def)
  moreover have "holds (gather_clear d) k = {}" "waits (gather_clear d) w = {}" for k w
    by (simp_all add: holds_def waits_def gather_clear_def look_def)
  ultimately show ?thesis
    by (auto simp: set_GenerateTxWaitGraph merge_all_relations sorted_GenerateTxWaitGraph) metis
qed


section \<open>Cycles\<close>

text \<open>
  A cycle as the search reports it: each edge is entered from the next one of the list, and the
  last one is entered from the first.
\<close>

definition is_cycle :: "TxEdge list \<Rightarrow> bool" where
  "is_cycle v \<longleftrightarrow> v \<noteq> [] \<and> successively (\<lambda>a b. tx_lock b = tx_wait a) v \<and> tx_lock (hd v) = tx_wait (last v)"

definition on_cycle :: "TxEdge set \<Rightarrow> TxEdge \<Rightarrow> bool" where
  "on_cycle G e \<longleftrightarrow> e \<in> G \<and> (tx_lock e, tx_wait e) \<in> G\<^sup>*"

definition succs_in :: "TxEdge set \<Rightarrow> TxEdge \<Rightarrow> TxEdge set \<Rightarrow> bool" where
  "succs_in G e C \<longleftrightarrow> (\<forall>e' \<in> G. tx_wait e' = tx_lock e \<longrightarrow> e' \<in> C)"

definition closed_edges :: "TxEdge set \<Rightarrow> TxEdge set \<Rightarrow> bool" where
  "closed_edges G C \<longleftrightarrow> (\<forall>e \<in> C. succs_in G e C)"

lemma closed_not_on_cycle:
  assumes "closed_edges G C" and "succs_in G e C" and "e \<notin> C"
  shows "\<not> on_cycle G e"
proof
  assume cyc: "on_cycle G e"
  have "\<forall>x. (y, x) \<in> G \<longrightarrow> (y, x) \<in> C" if "(tx_lock e, y) \<in> G\<^sup>*" for y
    using that
  proof (induction rule: rtrancl_induct)
    case base
    then show ?case using assms(2) by (auto simp: succs_in_def)
  next
    case (step y z)
    then have "(y, z) \<in> C" by blast
    then show ?case using assms(1) by (auto simp: closed_edges_def succs_in_def)
  qed
  from this [of "tx_wait e"] cyc have "e \<in> C" by (cases e) (auto simp: on_cycle_def)
  with assms(3) show False by simp
qed

lemma closed_insert:
  "closed_edges G C \<Longrightarrow> succs_in G e (insert e C) \<Longrightarrow> closed_edges G (insert e C)"
  by (auto simp: closed_edges_def succs_in_def)

text \<open>Every transaction waits for at most one other.\<close>

definition single_wait :: "TxEdge list \<Rightarrow> bool" where
  "single_wait es \<longleftrightarrow> (\<forall>e \<in> set es. \<forall>e' \<in> set es. tx_wait e = tx_wait e' \<longrightarrow> e = e')"

lemma chain_not_on_cycle:
  assumes "single_wait es" and "closed_edges (set es) C"
    and "successively (\<lambda>a b. tx_lock b = tx_wait a) stk" and "set stk \<subseteq> set es"
    and "distinct stk" and "set stk \<inter> C = {}"
    and "stk \<noteq> [] \<Longrightarrow> succs_in (set es) (hd stk) C"
  shows "closed_edges (set es) (set stk \<union> C) \<and> (\<forall>e \<in> set stk. \<not> on_cycle (set es) e)"
  using assms
proof (induction stk arbitrary: C)
  case (Cons e stk)
  have ec: "succs_in (set es) e C" "e \<notin> C" using Cons.prems by simp_all
  then have "\<not> on_cycle (set es) e"
    using closed_not_on_cycle Cons.prems(2) by blast
  moreover have C': "closed_edges (set es) (insert e C)"
    using closed_insert [OF Cons.prems(2)] ec(1) by (auto simp: succs_in_def)
  have "succs_in (set es) (hd stk) (insert e C)" if "stk \<noteq> []"
    using that Cons.prems(1,3,4) by (cases stk) (auto simp: succs_in_def single_wait_def)
  then have "closed_edges (set es) (set stk \<union> insert e C) \<and> (\<forall>e \<in> set stk. \<not> on_cycle (set es) e)"
    using Cons.prems C' by (intro Cons.IH) (auto simp: successively_Cons)
  ultimately show ?case by auto
qed simp

text \<open>Position of the edge a transaction waits on.\<close>

lemma EdgeLess_key: "EdgeLess e (t, 0) \<longleftrightarrow> tx_wait e < t"
  by (auto simp: EdgeLess_def word_less_nat_alt)

lemma lower_bound_single:
  assumes "sorted_wrt EdgeLess (map fst m)" and "single_wait (map fst m)"
    and "j < length m" and "tx_wait (fst (m ! j)) = t"
  shows "lower_bound m (t, 0) = j"
proof -
  have less: "tx_wait (fst (m ! i)) < t" if "i < j" for i
  proof -
    have "EdgeLess (fst (m ! i)) (fst (m ! j))"
      using assms(1,3) that by (auto simp: sorted_wrt_iff_nth_less)
    moreover have "tx_wait (fst (m ! i)) \<noteq> tx_wait (fst (m ! j))"
    proof
      assume "tx_wait (fst (m ! i)) = tx_wait (fst (m ! j))"
      then have "fst (m ! i) = fst (m ! j)"
        using assms(2,3) that by (auto simp: single_wait_def)
      with \<open>EdgeLess (fst (m ! i)) (fst (m ! j))\<close> EdgeLess_irrefl show False by simp
    qed
    ultimately show ?thesis using assms(4) by (auto simp: EdgeLess_def split: if_splits)
  qed
  have "takeWhile (\<lambda>x. EdgeLess (fst x) (t, 0)) m = take j m"
    by (rule takeWhile_eq_take_P_nth) (use assms(3,4) less in \<open>auto simp: EdgeLess_key\<close>)
  then show ?thesis using assms(3) by (simp add: lower_bound_def)
qed


lemma set_tl_subset: "set (tl xs) \<subseteq> set xs"
  by (cases xs) auto

lemma next_waits_differ:
  assumes "sorted_wrt EdgeLess (map fst m)" and "single_wait (map fst m)" and "i + 1 < length m"
  shows "tx_wait (fst (m ! (i + 1))) \<noteq> tx_wait (fst (m ! i))"
proof
  assume "tx_wait (fst (m ! (i + 1))) = tx_wait (fst (m ! i))"
  then have "fst (m ! (i + 1)) = fst (m ! i)"
    using assms(2,3) by (auto simp: single_wait_def)
  moreover have "EdgeLess (fst (m ! i)) (fst (m ! (i + 1)))"
    using sorted_wrt_nth_less [OF assms(1), of i "i + 1"] assms(3) by simp
  ultimately show False using EdgeLess_irrefl by simp
qed

text \<open>Once the iterator has left the edges of the current transaction, the search unwinds.\<close>

lemma search_unwind:
  assumes "sorted_wrt EdgeLess (map fst (map_edge s))" and "single_wait (map fst (map_edge s))"
    and "\<forall>i \<in> set (vct_iter s). i < length (map_edge s)"
    and "iter s \<ge> length (map_edge s) \<or> tx_wait (edge_at s (iter s)) \<noteq> tx_id s"
  shows "map_edge (search_loop k s) = map_edge s \<and> vct_v_edge (search_loop k s) = vct_v_edge s"
  using assms
proof (induction "length (vct_iter s)" arbitrary: s rule: less_induct)
  case less
  let ?stk = "tl (vct_iter s)"
  show ?case
  proof (cases "length ?stk \<le> 1")
    case True
    then have "search_loop k s = s\<lparr>vct_iter := ?stk\<rparr>"
      using less.prems(4) by (subst search_loop.simps) (simp add: search_turn_def Let_def)
    then show ?thesis by simp
  next
    case False
    define s' where "s' = s\<lparr>vct_iter := ?stk, set_dup := set_dup s - {edge_at s (hd ?stk)},
        tx_id := tx_wait (edge_at s (hd ?stk)), iter := hd ?stk + 1\<rparr>"
    have step: "search_loop k s = search_loop k s'"
      using False less.prems(4)
      by (subst search_loop.simps) (simp add: search_turn_def Let_def s'_def)
    have hd: "hd ?stk \<in> set (vct_iter s)"
      using False by (cases "vct_iter s"; cases ?stk) auto
    from next_waits_differ [OF less.prems(1,2), of "hd ?stk"]
    have "map_edge (search_loop k s') = map_edge s' \<and> vct_v_edge (search_loop k s') = vct_v_edge s'"
      using False less.prems hd set_tl_subset [of "vct_iter s"]
      by (intro less.hyps) (auto simp: s'_def)
    then show ?thesis by (simp add: step s'_def)
  qed
qed

text \<open>
  The state of a search that has only gone deeper so far: the stack is a chain of edges, the
  edges marked in this round are those on the stack, \<open>old\<close> holds the edges of earlier rounds.
\<close>

definition marked :: "(TxEdge \<times> int) list \<Rightarrow> nat set" where
  "marked m = {i. i < length m \<and> snd (m ! i) > 0}"

definition walking :: "TxEdge list \<Rightarrow> int \<Rightarrow> nat set \<Rightarrow> search \<Rightarrow> bool" where
  "walking es k old s \<longleftrightarrow>
     map fst (map_edge s) = es \<and> k > 0
     \<and> vct_iter s \<noteq> [] \<and> distinct (vct_iter s) \<and> set (vct_iter s) \<subseteq> {..<length es}
     \<and> successively (\<lambda>i j. tx_lock (es ! j) = tx_wait (es ! i)) (vct_iter s)
     \<and> set_dup s = (\<lambda>i. es ! i) ` set (vct_iter s)
     \<and> tx_id s = tx_lock (es ! hd (vct_iter s))
     \<and> iter s = lower_bound (map_edge s) (tx_id s, 0)
     \<and> old \<inter> set (vct_iter s) = {} \<and> marked (map_edge s) = old \<union> set (vct_iter s)
     \<and> (\<forall>i < length es. snd (map_edge s ! i) = k \<longleftrightarrow> i \<in> set (vct_iter s))
     \<and> (\<forall>i < length es. snd (map_edge s ! i) \<le> k)"

text \<open>What the search has done at its end, with \<open>stk\<close> the deepest stack it reached.\<close>

definition searched :: "TxEdge list \<Rightarrow> int \<Rightarrow> nat set \<Rightarrow> TxEdge list list \<Rightarrow> nat list \<Rightarrow> search \<Rightarrow> bool" where
  "searched es k old out stk s \<longleftrightarrow>
     map fst (map_edge s) = es \<and> stk \<noteq> [] \<and> distinct stk \<and> set stk \<subseteq> {..<length es}
     \<and> successively (\<lambda>i j. tx_lock (es ! j) = tx_wait (es ! i)) stk
     \<and> old \<inter> set stk = {} \<and> marked (map_edge s) = old \<union> set stk
     \<and> (\<forall>i < length es. snd (map_edge s ! i) \<le> k)
     \<and> ((vct_v_edge s = out \<and> (\<forall>j < length es. tx_wait (es ! j) = tx_lock (es ! hd stk) \<longrightarrow> j \<in> old))
        \<or> (\<exists>j \<in> set stk. tx_wait (es ! j) = tx_lock (es ! hd stk)
             \<and> vct_v_edge s = out @ [es ! j # map (\<lambda>i. es ! i) (takeWhile (\<lambda>i. es ! i \<noteq> es ! j) stk)]))"


lemma marked_update:
  "i < length m \<Longrightarrow> k > 0 \<Longrightarrow> marked (m[i := (e, k)]) = insert i (marked m)"
  by (auto simp: marked_def nth_list_update)

lemma walking_push:
  assumes w: "walking es k old s" and i: "iter s < length es" and "tx_wait (es ! iter s) = tx_id s"
    and "\<not> snd (map_edge s ! iter s) > 0"
    and s': "s' = s\<lparr>map_edge := m, set_dup := insert (es ! iter s) (set_dup s),
               vct_iter := iter s # vct_iter s, tx_id := tx, iter := lower_bound m (tx, 0)\<rparr>"
    and m: "m = (map_edge s)[iter s := (es ! iter s, k)]" and tx: "tx = tx_lock (es ! iter s)"
  shows "walking es k old s'"
proof -
  have len: "length (map_edge s) = length es" and k: "k > 0"
    using w by (auto simp: walking_def)
  have new: "iter s \<notin> marked (map_edge s)" using assms(4) by (simp add: marked_def)
  have fst: "map fst m = es"
    using w i len by (simp add: m map_update walking_def)
  have marks: "snd (m ! j) = (if j = iter s then k else snd (map_edge s ! j))" if "j < length es" for j
    using that len by (simp add: m nth_list_update)
  have "marked m = old \<union> set (iter s # vct_iter s)"
    using w i len k by (auto simp: m marked_update walking_def)
  moreover have "tx_lock (es ! hd (vct_iter s)) = tx_wait (es ! iter s)"
    using w assms(3) by (simp add: walking_def)
  ultimately show ?thesis
    using w i new fst marks k unfolding walking_def s'
    by (cases "vct_iter s") (auto simp: tx)
qed

lemma walkingD:
  assumes "walking es k old s"
  shows "map fst (map_edge s) = es" "k > 0" "vct_iter s \<noteq> []" "distinct (vct_iter s)"
    "set (vct_iter s) \<subseteq> {..<length es}"
    "successively (\<lambda>i j. tx_lock (es ! j) = tx_wait (es ! i)) (vct_iter s)"
    "set_dup s = (\<lambda>i. es ! i) ` set (vct_iter s)" "tx_id s = tx_lock (es ! hd (vct_iter s))"
    "iter s = lower_bound (map_edge s) (tx_id s, 0)" "old \<inter> set (vct_iter s) = {}"
    "marked (map_edge s) = old \<union> set (vct_iter s)"
    "\<And>i. i < length es \<Longrightarrow> snd (map_edge s ! i) = k \<longleftrightarrow> i \<in> set (vct_iter s)"
    "\<And>i. i < length es \<Longrightarrow> snd (map_edge s ! i) \<le> k"
  using assms by (simp_all add: walking_def)

lemma walking_searched:
  assumes "walking es k old s" and "map_edge r = map_edge s"
    and "(vct_v_edge r = out \<and> (\<forall>j < length es. tx_wait (es ! j) = tx_id s \<longrightarrow> j \<in> old))
        \<or> (\<exists>j \<in> set (vct_iter s). tx_wait (es ! j) = tx_id s
             \<and> vct_v_edge r = out @ [es ! j # map (\<lambda>i. es ! i) (takeWhile (\<lambda>i. es ! i \<noteq> es ! j) (vct_iter s))])"
  shows "searched es k old out (vct_iter s) r"
  using assms(3) walkingD [OF assms(1)] unfolding searched_def assms(2) by simp

lemma walking_edges:
  assumes "sorted_wrt EdgeLess es" and "single_wait es" and "walking es k old s"
  shows "length (map_edge s) = length es"
    and "i < length es \<Longrightarrow> edge_at s i = es ! i"
    and "i < length es \<Longrightarrow> tx_wait (es ! i) = tx_id s \<Longrightarrow> i = iter s"
proof -
  note m = walkingD(1) [OF assms(3)]
  show len: "length (map_edge s) = length es" using m by (metis length_map)
  show edge: "i < length es \<Longrightarrow> edge_at s i = es ! i" for i
    using m len by (metis nth_map)
  show "i < length es \<Longrightarrow> tx_wait (es ! i) = tx_id s \<Longrightarrow> i = iter s"
    using lower_bound_single [OF assms(1,2) [folded m], of i "tx_id s"] len edge
      walkingD(9) [OF assms(3)] by simp
qed

lemma walking_leave:
  assumes "sorted_wrt EdgeLess es" and "single_wait es" and "walking es k old s"
    and "map_edge t = map_edge s" "vct_iter t = vct_iter s" "tx_id t = tx_id s"
    and "iter t < length es \<Longrightarrow> tx_wait (es ! iter t) \<noteq> tx_id s"
  shows "map_edge (search_loop k t) = map_edge s \<and> vct_v_edge (search_loop k t) = vct_v_edge t"
proof -
  note e = walking_edges [OF assms(1-3)]
  have "map_edge (search_loop k t) = map_edge t \<and> vct_v_edge (search_loop k t) = vct_v_edge t"
  proof (rule search_unwind)
    show "\<forall>i \<in> set (vct_iter t). i < length (map_edge t)"
      using walkingD(5) [OF assms(3)] e(1) assms(4,5) by auto
    show "length (map_edge t) \<le> iter t \<or> tx_wait (edge_at t (iter t)) \<noteq> tx_id t"
      using e(1,2) assms(4,6,7) by (cases "iter t < length es") auto
  qed (use assms(1,2,4) walkingD(1) [OF assms(3)] in simp_all)
  with assms(4) show ?thesis by simp
qed

text \<open>The three things that can lie at the iterator: an edge of this round, of an earlier round, or new.\<close>

lemma walking_at_edge:
  assumes "sorted_wrt EdgeLess es" and "single_wait es" and "walking es k old s"
    and "iter s < length es" and "tx_wait (es ! iter s) = tx_id s"
  shows "\<not> (iter s \<ge> length (map_edge s) \<or> tx_wait (edge_at s (iter s)) \<noteq> tx_id s)"
    and "edge_at s (iter s) = es ! iter s"
    and "iter s + 1 < length es \<Longrightarrow> tx_wait (es ! (iter s + 1)) \<noteq> tx_id s"
proof -
  note e = walking_edges [OF assms(1-3)]
  show "edge_at s (iter s) = es ! iter s" using e(2) assms(4) by simp
  then show "\<not> (iter s \<ge> length (map_edge s) \<or> tx_wait (edge_at s (iter s)) \<noteq> tx_id s)"
    using e(1) assms(4,5) by simp
  show "tx_wait (es ! (iter s + 1)) \<noteq> tx_id s" if "iter s + 1 < length es"
    using e(3) [OF that] by auto
qed

lemma search_hit:
  assumes es: "sorted_wrt EdgeLess es" "single_wait es" and w: "walking es k old s"
    and at: "iter s < length es" "tx_wait (es ! iter s) = tx_id s"
    and hit: "snd (map_edge s ! iter s) = k"
  shows "searched es k old (vct_v_edge s) (vct_iter s) (search_loop k s)"
proof -
  note e = walking_edges [OF es w] and here = walking_at_edge [OF es w at]
  have stk: "iter s \<in> set (vct_iter s)" using walkingD(12) [OF w at(1)] hit by simp
  then have dup: "es ! iter s \<in> set_dup s" using walkingD(7) [OF w] by simp
  let ?g = "es ! iter s # map (\<lambda>i. es ! i) (takeWhile (\<lambda>i. es ! i \<noteq> es ! iter s) (vct_iter s))"
  define t where "t = s\<lparr>vct_v_edge := vct_v_edge s @ [?g], iter := iter s + 1\<rparr>"
  have ed: "edge_at s i = es ! i" if "i \<in> set (vct_iter s)" for i
    using that walkingD(5) [OF w] e(2) by auto
  have "takeWhile (\<lambda>j. edge_at s j \<noteq> es ! iter s) (vct_iter s)
      = takeWhile (\<lambda>i. es ! i \<noteq> es ! iter s) (vct_iter s)"
    by (rule takeWhile_cong) (simp_all add: ed)
  then have "cycle_group s = ?g"
    using ed by (auto simp: cycle_group_def here(2) dest!: set_takeWhileD)
  then have "search_turn k s = Inr t"
    using here(1,2) hit dup by (simp add: search_turn_def t_def)
  then have "search_loop k s = search_loop k t" by (subst search_loop.simps) simp
  with walking_leave [OF es w, of t] here(3)
  have r: "map_edge (search_loop k s) = map_edge s"
    "vct_v_edge (search_loop k s) = vct_v_edge s @ [?g]" by (simp_all add: t_def)
  then show ?thesis
    using walking_searched [OF w r(1)] stk at(2) by blast
qed

lemma search_old:
  assumes es: "sorted_wrt EdgeLess es" "single_wait es" and w: "walking es k old s"
    and at: "iter s < length es" "tx_wait (es ! iter s) = tx_id s"
    and mark: "snd (map_edge s ! iter s) \<noteq> k" "snd (map_edge s ! iter s) > 0"
  shows "searched es k old (vct_v_edge s) (vct_iter s) (search_loop k s)"
proof -
  note e = walking_edges [OF es w] and here = walking_at_edge [OF es w at]
  define t where "t = s\<lparr>iter := iter s + 1\<rparr>"
  have "iter s \<in> marked (map_edge s)" using mark(2) at(1) e(1) by (simp add: marked_def)
  then have "iter s \<in> old" using walkingD(11,12) [OF w] mark(1) at(1) by auto
  then have "\<forall>j < length es. tx_wait (es ! j) = tx_id s \<longrightarrow> j \<in> old" using e(3) by blast
  moreover have "search_turn k s = Inr t"
    using here(1) mark by (simp add: search_turn_def t_def)
  then have "search_loop k s = search_loop k t" by (subst search_loop.simps) simp
  with walking_leave [OF es w, of t] here(3) have r: "map_edge (search_loop k s) = map_edge s"
    "vct_v_edge (search_loop k s) = vct_v_edge s" by (simp_all add: t_def)
  ultimately show ?thesis
    using walking_searched [OF w r(1)] by blast
qed

lemma search_walk:
  assumes "sorted_wrt EdgeLess es" and "single_wait es" and "walking es k old s"
  shows "\<exists>stk. searched es k old (vct_v_edge s) stk (search_loop k s) \<and> set (vct_iter s) \<subseteq> set stk"
  using assms(3)
proof (induction k s rule: search_loop.induct)
  case (1 k s)
  note w = 1(2)
  show ?case
  proof (cases "iter s < length es \<and> tx_wait (es ! iter s) = tx_id s")
    case False
    with walking_leave [OF assms(1,2) w, of s] have r: "map_edge (search_loop k s) = map_edge s"
      "vct_v_edge (search_loop k s) = vct_v_edge s" by auto
    moreover have "\<forall>j < length es. tx_wait (es ! j) = tx_id s \<longrightarrow> j \<in> old"
      using walking_edges(3) [OF assms(1,2) w] False by blast
    ultimately show ?thesis
      using walking_searched [OF w r(1)] by blast
  next
    case True
    note at = conjunct1 [OF True] conjunct2 [OF True]
    consider "snd (map_edge s ! iter s) = k"
      | "snd (map_edge s ! iter s) \<noteq> k" "snd (map_edge s ! iter s) > 0"
      | (new) "snd (map_edge s ! iter s) \<noteq> k" "\<not> snd (map_edge s ! iter s) > 0" by blast
    then show ?thesis
    proof cases
      case new
      define mm where "mm = (map_edge s)[iter s := (es ! iter s, k)]"
      define t where "t = s\<lparr>map_edge := mm, set_dup := insert (es ! iter s) (set_dup s),
          vct_iter := iter s # vct_iter s, tx_id := tx_lock (es ! iter s),
          iter := lower_bound mm (tx_lock (es ! iter s), 0)\<rparr>"
      have turn: "search_turn k s = Inr t"
        using walking_at_edge [OF assms(1,2) w at] new
        by (simp add: search_turn_def t_def mm_def Let_def)
      from walking_push [OF w at new(2) t_def mm_def refl] have "walking es k old t" .
      from 1(1) [OF turn this] obtain stk where
        "searched es k old (vct_v_edge t) stk (search_loop k t)" "set (vct_iter t) \<subseteq> set stk" by blast
      moreover have "search_loop k s = search_loop k t"
        by (subst search_loop.simps) (simp add: turn)
      ultimately show ?thesis by (intro exI [of _ stk]) (simp add: t_def)
    qed (use search_hit [OF assms(1,2) w at] search_old [OF assms(1,2) w at] in
        \<open>intro exI [of _ "vct_iter s"], simp\<close>)+
  qed
qed

lemma cycle_successor:
  assumes "is_cycle v" and "e \<in> set v"
  shows "\<exists>e' \<in> set v. tx_wait e' = tx_lock e"
proof -
  obtain i where i: "i < length v" "v ! i = e" using assms(2) by (auto simp: in_set_conv_nth)
  show ?thesis
  proof (cases i)
    case 0
    then show ?thesis
      using assms(1) i by (intro bexI [of _ "last v"]) (auto simp: is_cycle_def hd_conv_nth)
  next
    case (Suc j)
    then have "tx_lock (v ! Suc j) = tx_wait (v ! j)"
      using assms(1) i by (auto simp: is_cycle_def successively_conv_nth)
    then show ?thesis using Suc i by (intro bexI [of _ "v ! j"]) auto
  qed
qed

lemma cycle_closed:
  assumes "is_cycle v" and "set v \<subseteq> set es" and "single_wait es" and "closed_edges (set es) C"
  shows "closed_edges (set es) (set v \<union> C)"
proof -
  have "succs_in (set es) e (set v)" if "e \<in> set v" for e
    using cycle_successor [OF assms(1) that] assms(2,3) by (fastforce simp: succs_in_def single_wait_def)
  with assms(4) show ?thesis by (auto simp: closed_edges_def succs_in_def)
qed

lemma stack_cycle:
  assumes "successively (\<lambda>a b. tx_lock b = tx_wait a) (pre @ e # post)"
    and "tx_wait e = tx_lock (hd (pre @ e # post))"
  shows "is_cycle (e # pre)"
  using assms
  by (cases "pre = []") (auto simp: is_cycle_def successively_append_iff successively_Cons)

lemma distinct_edges: "sorted_wrt EdgeLess es \<Longrightarrow> distinct es"
  using EdgeLess_irrefl by (induction es) auto

lemma searched_round:
  assumes srt: "sorted_wrt EdgeLess es" and sw: "single_wait es"
    and sd: "searched es k old out stk s" and cl: "closed_edges (set es) ((!) es ` old)"
    and old: "old \<subseteq> {..<length es}"
  shows "closed_edges (set es) ((!) es ` (old \<union> set stk))
    \<and> (\<exists>vs. vct_v_edge s = out @ vs \<and> (\<forall>v \<in> set vs. set v \<subseteq> set es \<and> is_cycle v)
         \<and> (\<forall>i \<in> set stk. on_cycle (set es) (es ! i) \<longrightarrow> (\<exists>v \<in> set vs. es ! i \<in> set v)))"
proof -
  let ?C = "(!) es ` old" and ?S = "map ((!) es) stk"
  have stk: "stk \<noteq> []" "distinct stk" "set stk \<subseteq> {..<length es}" "old \<inter> set stk = {}"
    "successively (\<lambda>i j. tx_lock (es ! j) = tx_wait (es ! i)) stk"
    using sd by (simp_all add: searched_def)
  have inj: "inj_on ((!) es) {..<length es}"
    using distinct_edges [OF srt] by (auto simp: inj_on_def nth_eq_iff_index_eq)
  have S: "distinct ?S" "set ?S \<subseteq> set es" "set ?S \<inter> ?C = {}"
      "successively (\<lambda>a b. tx_lock b = tx_wait a) ?S"
    using stk inj inj_on_subset [OF inj stk(3)] inj_on_image_Int [OF inj stk(3) old]
    by (auto simp: distinct_map successively_map)
  have un: "(!) es ` (old \<union> set stk) = set ?S \<union> ?C" by auto
  consider (none) "vct_v_edge s = out" "\<forall>j < length es. tx_wait (es ! j) = tx_lock (es ! hd stk) \<longrightarrow> j \<in> old"
    | (hit) j where "j \<in> set stk" "tx_wait (es ! j) = tx_lock (es ! hd stk)"
      "vct_v_edge s = out @ [es ! j # map ((!) es) (takeWhile (\<lambda>i. es ! i \<noteq> es ! j) stk)]"
    using sd unfolding searched_def by blast
  then show ?thesis
  proof cases
    case none
    have "succs_in (set es) (hd ?S) ?C"
      unfolding succs_in_def
    proof (intro ballI impI)
      fix x
      assume "x \<in> set es" "tx_wait x = tx_lock (hd ?S)"
      then show "x \<in> ?C" using none(2) stk(1) by (auto simp: in_set_conv_nth hd_map simp del: split_paired_All)
    qed
    with chain_not_on_cycle [OF sw cl S(4,2,1,3)] none(1) show ?thesis
      unfolding un by (intro conjI exI [of _ "[]"]) auto
  next
    case hit
    define e where "e = es ! j"
    define pre where "pre = takeWhile (\<lambda>x. x \<noteq> e) ?S"
    define post where "post = tl (dropWhile (\<lambda>x. x \<noteq> e) ?S)"
    have "e \<in> set ?S" using hit(1) by (simp add: e_def)
    then have "dropWhile (\<lambda>x. x \<noteq> e) ?S \<noteq> []"
      by (simp only: dropWhile_eq_Nil_conv) blast
    then have "dropWhile (\<lambda>x. x \<noteq> e) ?S = e # post"
      using hd_dropWhile [of "\<lambda>x. x \<noteq> e" ?S] unfolding post_def by (metis list.collapse)
    then have split: "?S = pre @ e # post" unfolding pre_def by (metis takeWhile_dropWhile_id)
    have v: "es ! j # map ((!) es) (takeWhile (\<lambda>i. es ! i \<noteq> es ! j) stk) = e # pre"
      by (simp add: takeWhile_map comp_def pre_def e_def)
    note S' = S [unfolded split]
    have "tx_wait e = tx_lock (hd (pre @ e # post))"
      using hit(2) stk(1) unfolding split [symmetric] by (simp add: hd_map e_def)
    with S'(4) have cyc: "is_cycle (e # pre)" by (rule stack_cycle)
    have sub: "set (e # pre) \<subseteq> set es" "set post \<subseteq> set es" "distinct post"
      "set post \<inter> (set (e # pre) \<union> ?C) = {}"
      "successively (\<lambda>a b. tx_lock b = tx_wait a) (e # post)"
      using S' by (auto simp: successively_append_iff)
    then have "succs_in (set es) (hd post) (set (e # pre) \<union> ?C)" if "post \<noteq> []"
      using that sw by (cases post) (auto simp: succs_in_def single_wait_def)
    from chain_not_on_cycle [OF sw cycle_closed [OF cyc sub(1) sw cl] _ sub(2,3,4) this] sub(5)
    have nc: "closed_edges (set es) (set post \<union> (set (e # pre) \<union> ?C))" "\<forall>x \<in> set post. \<not> on_cycle (set es) x"
      by (auto simp: successively_Cons)
    have "set ?S \<union> ?C = set post \<union> (set (e # pre) \<union> ?C)" unfolding split by auto
    moreover have "es ! i \<in> set pre \<union> {e} \<union> set post" if "i \<in> set stk" for i
    proof -
      have "es ! i \<in> set ?S" using that by simp
      then show ?thesis unfolding split by auto
    qed
    ultimately show ?thesis
      using nc hit(3) cyc sub(1) unfolding un v by (intro conjI exI [of _ "[e # pre]"]) auto
  qed
qed


definition detect_inv :: "TxEdge list \<Rightarrow> nat \<Rightarrow> (TxEdge \<times> int) list \<times> int \<times> TxEdge list list \<Rightarrow> bool" where
  "detect_inv es p = (\<lambda>(m, k, out).
     map fst m = es \<and> k > 0 \<and> (\<forall>i < length es. snd (m ! i) < k) \<and> {..<p} \<subseteq> marked m
     \<and> closed_edges (set es) ((!) es ` marked m)
     \<and> (\<forall>v \<in> set out. set v \<subseteq> set es \<and> is_cycle v)
     \<and> (\<forall>i \<in> marked m. on_cycle (set es) (es ! i) \<longrightarrow> (\<exists>v \<in> set out. es ! i \<in> set v)))"

lemma walking_start:
  assumes "map fst m = es" and "k > 0" and "\<forall>i < length es. snd (m ! i) < k" and "p < length es"
    and "p \<notin> marked m"
  shows "walking es k (marked m) \<lparr>map_edge = m[p := (es ! p, k)], set_dup = {es ! p}, vct_iter = [p],
     tx_id = tx_lock (es ! p), iter = lower_bound (m[p := (es ! p, k)]) (tx_lock (es ! p), 0),
     vct_v_edge = out\<rparr>"
proof -
  have len: "length m = length es" using assms(1) by (metis length_map)
  have "map fst (m[p := (es ! p, k)]) = es" using assms(1) by (simp add: map_update)
  moreover have "snd (m[p := (es ! p, k)] ! i) = (if i = p then k else snd (m ! i))" if "i < length es" for i
    using that len by (simp add: nth_list_update)
  moreover have "marked (m[p := (es ! p, k)]) = insert p (marked m)"
    using assms(2,4) len by (simp add: marked_update)
  ultimately show ?thesis
    using assms by (auto simp: walking_def less_imp_le)
qed

lemma detect_edge_inv:
  assumes "sorted_wrt EdgeLess es" and "single_wait es" and "detect_inv es p st" and "p < length es"
  shows "detect_inv es (Suc p) (detect_edge p st)"
proof -
  obtain m k out where st: "st = (m, k, out)" by (cases st)
  have m: "map fst m = es" "k > 0" "\<forall>i < length es. snd (m ! i) < k" "{..<p} \<subseteq> marked m"
    "closed_edges (set es) ((!) es ` marked m)" "\<forall>v \<in> set out. set v \<subseteq> set es \<and> is_cycle v"
    "\<forall>i \<in> marked m. on_cycle (set es) (es ! i) \<longrightarrow> (\<exists>v \<in> set out. es ! i \<in> set v)"
    using assms(3) by (simp_all add: st detect_inv_def)
  have len: "length m = length es" using m(1) by (metis length_map)
  show ?thesis
  proof (cases "snd (m ! p) > 0")
    case True
    then have "p \<in> marked m" using assms(4) len by (simp add: marked_def)
    then show ?thesis
      using True m by (auto simp: st detect_edge_def detect_inv_def lessThan_Suc)
  next
    case False
    define s where "s = search_loop k \<lparr>map_edge = m[p := (es ! p, k)], set_dup = {es ! p}, vct_iter = [p],
       tx_id = tx_lock (es ! p), iter = lower_bound (m[p := (es ! p, k)]) (tx_lock (es ! p), 0),
       vct_v_edge = out\<rparr>"
    have e: "fst (m ! p) = es ! p" using m(1) assms(4) len by (metis nth_map)
    have "p \<notin> marked m" using False by (simp add: marked_def)
    from search_walk [OF assms(1,2) walking_start [OF m(1-3) assms(4) this]]
    obtain stk where sd: "searched es k (marked m) out stk s" and p: "p \<in> set stk"
      by (auto simp: s_def)
    have "marked m \<subseteq> {..<length es}" using len by (auto simp: marked_def)
    from searched_round [OF assms(1,2) sd m(5) this] obtain vs where vs:
      "closed_edges (set es) ((!) es ` (marked m \<union> set stk))" "vct_v_edge s = out @ vs"
      "\<forall>v \<in> set vs. set v \<subseteq> set es \<and> is_cycle v"
      "\<forall>i \<in> set stk. on_cycle (set es) (es ! i) \<longrightarrow> (\<exists>v \<in> set vs. es ! i \<in> set v)" by blast
    have "map fst (map_edge s) = es" "marked (map_edge s) = marked m \<union> set stk"
      "\<forall>i < length es. snd (map_edge s ! i) < k + 1"
      using sd by (auto simp: searched_def)
    moreover have "detect_edge p st = (map_edge s, k + 1, vct_v_edge s)"
      using False by (simp add: st detect_edge_def Let_def e s_def)
    ultimately show ?thesis
      using vs m p by (auto simp: detect_inv_def lessThan_Suc)
  qed
qed

lemma detect_fold_inv:
  assumes "sorted_wrt EdgeLess es" and "single_wait es" and "n \<le> length es"
  shows "detect_inv es n (fold detect_edge [0..<n] (map (\<lambda>e. (e, - 1)) es, 1, []))"
  using assms(3)
proof (induction n)
  case 0
  have "marked (map (\<lambda>e. (e, - 1)) es) = {}" by (auto simp: marked_def)
  then show ?case by (simp add: detect_inv_def closed_edges_def comp_def)
next
  case (Suc n)
  then show ?case using detect_edge_inv [OF assms(1,2), of n] by simp
qed

lemma DetectDeadLock_exact_aux:
  assumes "sorted_wrt EdgeLess es" and "single_wait es"
  shows "\<forall>v \<in> set (DetectDeadLock es). set v \<subseteq> set es \<and> is_cycle v"
    and "\<And>e. on_cycle (set es) e \<Longrightarrow> \<exists>v \<in> set (DetectDeadLock es). e \<in> set v"
proof -
  obtain m k out where st: "fold detect_edge [0..<length es] (map (\<lambda>e. (e, - 1)) es, 1, []) = (m, k, out)"
    by (metis prod_cases3)
  have out: "out = DetectDeadLock es" by (simp add: DetectDeadLock_def st)
  note inv = detect_fold_inv [OF assms le_refl, unfolded st detect_inv_def prod.case]
  then show "\<forall>v \<in> set (DetectDeadLock es). set v \<subseteq> set es \<and> is_cycle v" by (simp add: out)
  fix e
  assume e: "on_cycle (set es) e"
  then obtain i where i: "i < length es" "e = es ! i" by (auto simp: on_cycle_def in_set_conv_nth)
  with inv have "i \<in> marked m" by auto
  with inv e i show "\<exists>v \<in> set (DetectDeadLock es). e \<in> set v" by (simp add: out)
qed


text \<open>
  C22: Exactness of the search when no transaction waits for two others. Every reported group is
  a cycle of the wait graph, and every edge that lies on a cycle belongs to a reported group: no
  deadlock is missed and none is invented.
\<close>

theorem DetectDeadLock_exact:
  assumes "single_wait (GenerateTxWaitGraph d)"
  shows "(\<forall>v \<in> set (DetectDeadLock (GenerateTxWaitGraph d)).
            set v \<subseteq> set (GenerateTxWaitGraph d) \<and> is_cycle v)
     \<and> (\<forall>e. on_cycle (set (GenerateTxWaitGraph d)) e \<longrightarrow>
            (\<exists>v \<in> set (DetectDeadLock (GenerateTxWaitGraph d)). e \<in> set v))"
  using DetectDeadLock_exact_aux [OF sorted_GenerateTxWaitGraph assms] by blast

text \<open>Three transactions that wait for each other in a ring, and one more behind them.\<close>

definition demo_entry :: "u64 \<Rightarrow> TxNumber list \<Rightarrow> TxNumber list \<Rightarrow> BlockEntry" where
  "demo_entry addr locked waited =
     \<lparr>be_core_id = 0, be_entry = addr, be_locked_tids = locked, be_waited_tids = waited\<rparr>"

definition demo_response :: DeadLockResponse where
  "demo_response = \<lparr>rsp_node_id = 1, rsp_block_entry =
     [demo_entry 100 [2] [1], demo_entry 200 [3] [2], demo_entry 300 [1] [3, 4]],
     rsp_tx_etys = [(1, 5), (2, 3), (3, 3), (4, 1)]\<rparr>"

definition dlc_empty :: DeadLockCheck where
  "dlc_empty = \<lparr>entry_locked_txid_map = [], txid_waited_entry_map = [], txid_ety_count_map = [],
     reply_map = [], node_unfinished = 1, last_check_time = 0, check_node_id = 0\<rparr>"

definition demo_dlc :: DeadLockCheck where
  "demo_dlc = fst (MergeRemoteWaitingLockInfo demo_response dlc_empty)"

lemma demo_graph: "GenerateTxWaitGraph demo_dlc = [(1, 2), (2, 3), (3, 1), (4, 1)]"
  by code_simp

theorem DetectDeadLock_exact_witness:
  "single_wait (GenerateTxWaitGraph demo_dlc)
   \<and> (\<exists>v \<in> set (DetectDeadLock (GenerateTxWaitGraph demo_dlc)). (1, 2) \<in> set v \<and> is_cycle v)"
proof -
  have sw: "single_wait (GenerateTxWaitGraph demo_dlc)"
    by (simp add: demo_graph single_wait_def)
  have "on_cycle (set (GenerateTxWaitGraph demo_dlc)) (1, 2)"
    unfolding on_cycle_def demo_graph
    by (auto intro: converse_rtrancl_into_rtrancl [of _ 3])
  with DetectDeadLock_exact [OF sw] sw show ?thesis by blast
qed

section \<open>The victim\<close>

lemma pick_victim_apply:
  "map_of counts (tx_wait e) = Some c \<Longrightarrow> pick_victim counts e (v, k)
     = (if c < k then (tx_wait e, c) else if c = k \<and> v > tx_wait e then (tx_wait e, k) else (v, k))"
  by (simp add: pick_victim_def)

lemma pick_victim_fold:
  assumes "dead \<noteq> []"
    and "\<And>e. e \<in> set dead \<Longrightarrow> \<exists>c. map_of counts (tx_wait e) = Some c \<and> c < - 1"
  shows "\<exists>e \<in> set dead. fst (fold (pick_victim counts) dead (0, - 1)) = tx_wait e
     \<and> map_of counts (tx_wait e) = Some (snd (fold (pick_victim counts) dead (0, - 1)))
     \<and> (\<forall>e' \<in> set dead. \<forall>c'. map_of counts (tx_wait e') = Some c' \<longrightarrow>
          snd (fold (pick_victim counts) dead (0, - 1)) \<le> c'
          \<and> (snd (fold (pick_victim counts) dead (0, - 1)) = c' \<longrightarrow> tx_wait e \<le> tx_wait e'))"
  using assms
proof (induction dead rule: rev_induct)
  case (snoc x xs)
  obtain c where c: "map_of counts (tx_wait x) = Some c" "c < - 1" using snoc.prems(2) [of x] by auto
  obtain v k where vk: "fold (pick_victim counts) xs (0, - 1) = (v, k)" by fastforce
  show ?case
  proof (cases "xs = []")
    case True
    then show ?thesis using c by (simp add: pick_victim_def)
  next
    case False
    have "\<exists>c. map_of counts (tx_wait e) = Some c \<and> c < - 1" if "e \<in> set xs" for e
      using snoc.prems(2) [of e] that by simp
    from snoc.IH [OF False this, unfolded vk fst_conv snd_conv]
    obtain e where e: "e \<in> set xs" "v = tx_wait e" "map_of counts (tx_wait e) = Some k"
      "\<And>e' c'. e' \<in> set xs \<Longrightarrow> map_of counts (tx_wait e') = Some c' \<Longrightarrow>
         k \<le> c' \<and> (k = c' \<longrightarrow> tx_wait e \<le> tx_wait e')"
      by blast
    have step: "fold (pick_victim counts) (xs @ [x]) (0, - 1) = pick_victim counts x (v, k)"
      by (simp add: vk)
    consider "c < k" | "\<not> c < k" "c = k \<and> v > tx_wait x" | "\<not> c < k" "\<not> (c = k \<and> v > tx_wait x)" by blast
    then show ?thesis
    proof cases
      case 1
      then show ?thesis
        unfolding step using c e by (intro bexI [of _ x]) (force simp: pick_victim_apply)+
    next
      case 2
      then show ?thesis
        unfolding step using c e by (intro bexI [of _ x]) (force simp: pick_victim_apply)+
    next
      case 3
      then show ?thesis
        unfolding step using c e by (intro bexI [of _ e]) (force simp: pick_victim_apply not_less)+
    qed
  qed
qed simp


text \<open>
  C28: The victim. For a reported group whose transactions all have a locked-entry count below
  the initial \<open>UINT32_MAX\<close>, the transaction chosen for abortion is one of the waiting
  transactions of the group, none of them has locked fewer entries, and among those with equally
  few it has the smallest number.
\<close>

theorem victim_minimal:
  assumes "dead \<noteq> []"
    and "\<And>e. e \<in> set dead \<Longrightarrow> \<exists>c. map_of (txid_ety_count_map d) (tx_wait e) = Some c \<and> c < - 1"
  shows "\<exists>c. dead_victim d dead \<in> tx_wait ` set dead
     \<and> map_of (txid_ety_count_map d) (dead_victim d dead) = Some c
     \<and> (\<forall>e \<in> set dead. \<forall>c'. map_of (txid_ety_count_map d) (tx_wait e) = Some c' \<longrightarrow>
          c \<le> c' \<and> (c = c' \<longrightarrow> dead_victim d dead \<le> tx_wait e))"
proof -
  from pick_victim_fold [OF assms] obtain e where
    "e \<in> set dead" "dead_victim d dead = tx_wait e"
    "map_of (txid_ety_count_map d) (tx_wait e)
       = Some (snd (fold (pick_victim (txid_ety_count_map d)) dead (0, - 1)))"
    "\<forall>e' \<in> set dead. \<forall>c'. map_of (txid_ety_count_map d) (tx_wait e') = Some c' \<longrightarrow>
       snd (fold (pick_victim (txid_ety_count_map d)) dead (0, - 1)) \<le> c'
       \<and> (snd (fold (pick_victim (txid_ety_count_map d)) dead (0, - 1)) = c' \<longrightarrow> tx_wait e \<le> tx_wait e')"
    unfolding dead_victim_def by blast
  then show ?thesis by auto
qed

theorem victim_minimal_witness:
  "dead_victim demo_dlc [(3, 1), (2, 3), (1, 2)] = 2
   \<and> (\<exists>c. dead_victim demo_dlc [(3, 1), (2, 3), (1, 2)] \<in> {1, 2, 3}
        \<and> map_of (txid_ety_count_map demo_dlc) 2 = Some c)"
proof -
  have counts: "txid_ety_count_map demo_dlc = [(1, 5), (2, 3), (3, 3), (4, 1)]" by code_simp
  have v: "dead_victim demo_dlc [(3, 1), (2, 3), (1, 2)] = 2"
    by (simp add: dead_victim_def pick_victim_def counts)
  have "\<exists>c. map_of (txid_ety_count_map demo_dlc) (tx_wait e) = Some c \<and> c < - 1"
    if "e \<in> set [(3, 1), (2, 3), (1, 2)]" for e
    using that by (auto simp: counts)
  from victim_minimal [of "[(3, 1), (2, 3), (1, 2)]" demo_dlc, OF _ this] v show ?thesis by auto
qed

section \<open>Several waits at once\<close>

text \<open>
  C37: The search misses deadlocks when a transaction waits for several others. Transaction 2
  waits for 3, which waits for 1 and 2: there is a cycle between 2 and 3, yet nothing is
  reported, because the search does not return to the second edge of 3 after the first one.
\<close>

theorem DetectDeadLock_misses_cycle:
  "is_cycle [(3, 2), (2, 3)] \<and> set [(3, 2), (2, 3)] \<subseteq> set [(2, 3), (3, 1), (3, 2)]
   \<and> DetectDeadLock [(2, 3), (3, 1), (3, 2)] = []"
proof -
  have "DetectDeadLock [(2, 3), (3, 1), (3, 2)] = []" by code_simp
  then show ?thesis by (simp add: is_cycle_def)
qed

text \<open>
  C38: The search reports deadlocks that do not exist when a transaction waits for several
  others. Transaction 1 waits for 2, 2 for 3 and 4, 3 for 4: no transaction can reach itself, yet
  a group is reported.
\<close>

theorem DetectDeadLock_false_alarm:
  "\<not> (\<exists>e. on_cycle (set [(1, 2), (2, 3), (2, 4), (3, 4)]) e)
   \<and> DetectDeadLock [(1, 2), (2, 3), (2, 4), (3, 4)] \<noteq> []"
proof -
  let ?G = "set [(1, 2), (2, 3), (2, 4), (3, 4 :: TxNumber)] :: TxEdge set"
  have "DetectDeadLock [(1, 2), (2, 3), (2, 4), (3, 4)] \<noteq> []" by code_simp
  moreover have up: "a \<le> b" if "(a, b) \<in> ?G\<^sup>*" for a b
    using that by (induction rule: rtrancl_induct) (auto simp: word_le_nat_alt)
  have "\<not> on_cycle ?G e" for e
  proof
    assume "on_cycle ?G e"
    then have "e \<in> ?G" and "tx_lock e \<le> tx_wait e" using up by (auto simp: on_cycle_def)
    then show False by (auto simp: word_le_nat_alt)
  qed
  ultimately show ?thesis by blast
qed


end
