(* ===== verification/Entry_Info.thy ===== *)
theory Entry_Info
  imports Cc_Protocol
begin

text \<open>
  The metadata word of a cc entry (\<open>EntryInfo\<close>, \<open>VersionedEntryInfo\<close> and \<open>VersionedLruEntry\<close> of
  \<open>include/cc/cc_entry.h\<close>, \<open>src/cc/cc_entry.cpp\<close>). One 64-bit word packs the commit timestamp
  (upper 56 bits), the record status (lowest 4 bits) and two flags: \<open>0x10\<close>, the latest version
  has been flushed, and \<open>0x20\<close>, the entry is being written by a checkpoint. A versioned entry
  has a checkpoint timestamp of its own instead of the flushed flag.

  The template parameter \<open>Versioned\<close> is a boolean argument. A status code above 9 has no
  enumerator; \<open>status_of\<close> maps it to \<open>Invalid\<close>, and no operation of the code stores one.
\<close>

section \<open>Model\<close>

record entry_info =
  commit_ts_and_status :: u64
  ckpt_ts :: u64

primrec status_code :: "RecordStatus \<Rightarrow> u64" where
  "status_code Normal = 0"
| "status_code Unknown = 1"
| "status_code Deleted = 2"
| "status_code RemoteUnknown = 3"
| "status_code VersionUnknown = 4"
| "status_code BaseVersionMiss = 5"
| "status_code ArchiveVersionMiss = 6"
| "status_code Invalid = 7"
| "status_code NonExistent = 8"
| "status_code Uncreated = 9"

definition status_of :: "u64 \<Rightarrow> RecordStatus" where
  "status_of c =
     (if c = 0 then Normal else if c = 1 then Unknown else if c = 2 then Deleted
      else if c = 3 then RemoteUnknown else if c = 4 then VersionUnknown
      else if c = 5 then BaseVersionMiss else if c = 6 then ArchiveVersionMiss
      else if c = 7 then Invalid else if c = 8 then NonExistent
      else if c = 9 then Uncreated else Invalid)"

definition pack_word :: "u64 \<Rightarrow> RecordStatus \<Rightarrow> u64" where
  "pack_word ts status = or (push_bit 8 ts) (status_code status)"

definition ei_new :: entry_info where
  "ei_new = \<lparr>commit_ts_and_status = pack_word 0 Unknown, ckpt_ts = 0\<rparr>"

definition CommitTs :: "entry_info \<Rightarrow> u64" where
  "CommitTs e = drop_bit 8 (commit_ts_and_status e)"

definition PayloadStatus :: "entry_info \<Rightarrow> RecordStatus" where
  "PayloadStatus e = status_of (and (commit_ts_and_status e) 0x0F)"

definition SetCommitTsPayloadStatus ::
    "bool \<Rightarrow> bool \<Rightarrow> u64 \<Rightarrow> RecordStatus \<Rightarrow> entry_info \<Rightarrow> entry_info" where
  "SetCommitTsPayloadStatus versioned skip_kv ts status e =
     (let curr_ts = drop_bit 8 (commit_ts_and_status e);
          e1 = (if curr_ts < ts
                then e\<lparr>commit_ts_and_status := pack_word ts status\<rparr> else e)
      in if \<not> versioned \<and> skip_kv \<and> status = Deleted
         then e1\<lparr>commit_ts_and_status := or (commit_ts_and_status e1) 0x10\<rparr> else e1)"

definition SetCkptTs :: "bool \<Rightarrow> u64 \<Rightarrow> entry_info \<Rightarrow> entry_info" where
  "SetCkptTs versioned ts e =
     (if versioned then (if ckpt_ts e \<le> ts then e\<lparr>ckpt_ts := ts\<rparr> else e)
      else if drop_bit 8 (commit_ts_and_status e) \<le> ts
      then e\<lparr>commit_ts_and_status := or (commit_ts_and_status e) 0x10\<rparr> else e)"

text \<open>\<open>standby_shared\<close>: this node is a standby and the data store is shared with the primary.\<close>

definition IsPersistent :: "bool \<Rightarrow> bool \<Rightarrow> entry_info \<Rightarrow> bool" where
  "IsPersistent versioned standby_shared e =
     (if standby_shared then True
      else if versioned then CommitTs e \<le> ckpt_ts e
      else and (commit_ts_and_status e) 0x10 \<noteq> 0)"

definition NeedCkpt :: "bool \<Rightarrow> bool \<Rightarrow> entry_info \<Rightarrow> bool" where
  "NeedCkpt versioned standby_shared e \<longleftrightarrow>
     \<not> IsPersistent versioned standby_shared e
     \<and> (PayloadStatus e = Normal \<or> PayloadStatus e = Deleted)"

definition SetBeingCkpt :: "entry_info \<Rightarrow> entry_info" where
  "SetBeingCkpt e = e\<lparr>commit_ts_and_status := or (commit_ts_and_status e) 0x20\<rparr>"

definition being_mask :: u64 where
  "being_mask = and (- 1) (not (push_bit 5 1))"

definition ClearBeingCkpt :: "entry_info \<Rightarrow> entry_info" where
  "ClearBeingCkpt e = e\<lparr>commit_ts_and_status := and (commit_ts_and_status e) being_mask\<rparr>"

definition GetBeingCkpt :: "entry_info \<Rightarrow> bool" where
  "GetBeingCkpt e \<longleftrightarrow> and (commit_ts_and_status e) 0x20 \<noteq> 0"

section \<open>The packed word\<close>

lemma status_of_code [simp]: "status_of (status_code s) = s"
  by (cases s) (simp_all add: status_of_def)

lemma status_code_small: "status_code s < 16"
  by (cases s) simp_all

lemma status_code_bit: "bit (status_code s) n \<Longrightarrow> n < 4"
proof (rule ccontr)
  assume "bit (status_code s) n" and "\<not> n < 4"
  moreover have "status_code s = and (status_code s) (mask 4)"
    by (cases s) (simp_all add: mask_eq_exp_minus_1)
  ultimately show False by (metis bit_and_iff bit_mask_iff)
qed

declare bit_numeral_word_iff [simp del]

lemma bit_mask_0F: "bit (0x0F :: u64) n \<longleftrightarrow> n < 4"
proof -
  have "(0x0F :: u64) = mask 4" by (simp add: mask_eq_exp_minus_1)
  then show ?thesis by (simp only: bit_mask_iff) auto
qed

lemma bit_flag_10: "bit (0x10 :: u64) n \<longleftrightarrow> n = 4"
proof -
  have "(0x10 :: u64) = push_bit 4 1" by simp
  then show ?thesis by (simp only: bit_push_bit_iff bit_1_iff) auto
qed

lemma bit_flag_20: "bit (0x20 :: u64) n \<longleftrightarrow> n = 5"
proof -
  have "(0x20 :: u64) = push_bit 5 1" by simp
  then show ?thesis by (simp only: bit_push_bit_iff bit_1_iff) auto
qed

lemma flag_10_iff: "and w (0x10 :: u64) \<noteq> 0 \<longleftrightarrow> bit w 4"
  using and_exp_eq_0_iff_not_bit [of w 4] by simp

lemma flag_20_iff: "and w (0x20 :: u64) \<noteq> 0 \<longleftrightarrow> bit w 5"
  using and_exp_eq_0_iff_not_bit [of w 5] by simp

text \<open>The word is determined by the four things it packs.\<close>

lemma packed_eq:
  "drop_bit 8 (pack_word ts s) = (and ts (mask 56) :: u64)"
  "and (pack_word ts s) 0x0F = status_code s"
  "\<not> bit (pack_word ts s) 4"
  "\<not> bit (pack_word ts s) 5"
proof -
  show "drop_bit 8 (pack_word ts s) = (and ts (mask 56) :: u64)"
    by (rule bit_word_eqI) (auto simp: pack_word_def bit_simps dest: status_code_bit)
  show "and (pack_word ts s) 0x0F = status_code s"
    by (rule bit_word_eqI) (auto simp: pack_word_def bit_and_iff bit_or_iff bit_push_bit_iff bit_mask_0F
        dest: status_code_bit)
qed (auto simp: pack_word_def bit_simps dest: status_code_bit)

lemma mask_small: "ts < 2 ^ 56 \<Longrightarrow> and ts (mask 56) = (ts :: u64)"
  by (simp flip: take_bit_eq_mask add: take_bit_eq_self_iff_drop_bit_eq_0 word_less_nat_alt)
     (simp add: drop_bit_eq_div word_eq_iff_unsigned [where 'a = nat] unat_div_distrib)

lemma ts_setflags:
  "drop_bit 8 (or w 0x10) = (drop_bit 8 w :: u64)" "drop_bit 8 (or w 0x20) = (drop_bit 8 w :: u64)"
  "and (or w 0x10) 0x0F = (and w 0x0F :: u64)" "and (or w 0x20) 0x0F = (and w 0x0F :: u64)"
  by (rule bit_word_eqI, auto simp: bit_and_iff bit_or_iff bit_drop_bit_eq bit_flag_10 bit_flag_20
      bit_mask_0F)+


lemma bit_being_mask: "bit being_mask n \<longleftrightarrow> n < 64 \<and> n \<noteq> 5"
  unfolding being_mask_def
  by (simp only: bit_and_iff bit_not_iff bit_minus_1_iff bit_push_bit_iff bit_1_iff possible_bit_word)
     auto

lemma ts_ClearBeingCkpt:
  "and (drop_bit 8 w) (drop_bit 8 being_mask) = (drop_bit 8 w :: u64)"
  "and (and w being_mask) 0x0F = (and w 0x0F :: u64)"
  by (rule bit_word_eqI, auto simp: bit_and_iff bit_drop_bit_eq bit_being_mask bit_mask_0F
      dest: bit_imp_le_length)+

section \<open>The unpacked view and its refinement\<close>

text \<open>What the word stands for: five independent fields.\<close>

record entry_view =
  v_commit_ts :: u64
  v_status :: RecordStatus
  v_flushed :: bool
  v_being :: bool
  v_ckpt_ts :: u64

definition entry_abs :: "entry_info \<Rightarrow> entry_view" where
  "entry_abs e = \<lparr>v_commit_ts = CommitTs e, v_status = PayloadStatus e,
     v_flushed = bit (commit_ts_and_status e) 4, v_being = GetBeingCkpt e, v_ckpt_ts = ckpt_ts e\<rparr>"

datatype entry_op = Commit u64 RecordStatus | FlushAck u64 | BeginCkpt | EndCkpt

primrec entry_exec :: "bool \<Rightarrow> bool \<Rightarrow> entry_op \<Rightarrow> entry_info \<Rightarrow> entry_info" where
  "entry_exec versioned skip_kv (Commit ts s) = SetCommitTsPayloadStatus versioned skip_kv ts s"
| "entry_exec versioned skip_kv (FlushAck ts) = SetCkptTs versioned ts"
| "entry_exec versioned skip_kv BeginCkpt = SetBeingCkpt"
| "entry_exec versioned skip_kv EndCkpt = ClearBeingCkpt"

text \<open>
  The contract: a commit with a newer timestamp installs its timestamp and status and makes the
  entry dirty, an older one changes nothing; a flush acknowledgement cleans an entry whose version
  it covers; with no data store behind the cache a deletion needs no flush.
\<close>

primrec entry_spec :: "bool \<Rightarrow> bool \<Rightarrow> entry_op \<Rightarrow> entry_view \<Rightarrow> entry_view" where
  "entry_spec versioned skip_kv (Commit ts s) v =
     (let v1 = (if v_commit_ts v < ts
                then v\<lparr>v_commit_ts := ts, v_status := s, v_flushed := False, v_being := False\<rparr> else v)
      in if \<not> versioned \<and> skip_kv \<and> s = Deleted then v1\<lparr>v_flushed := True\<rparr> else v1)"
| "entry_spec versioned skip_kv (FlushAck ts) v =
     (if versioned then v\<lparr>v_ckpt_ts := max (v_ckpt_ts v) ts\<rparr>
      else v\<lparr>v_flushed := (v_flushed v \<or> v_commit_ts v \<le> ts)\<rparr>)"
| "entry_spec versioned skip_kv BeginCkpt v = v\<lparr>v_being := True\<rparr>"
| "entry_spec versioned skip_kv EndCkpt v = v\<lparr>v_being := False\<rparr>"

fun op_ts_ok :: "entry_op \<Rightarrow> bool" where
  "op_ts_ok (Commit ts s) \<longleftrightarrow> ts < 2 ^ 56"
| "op_ts_ok _ \<longleftrightarrow> True"

lemmas entry_abs_simps = entry_abs_def CommitTs_def PayloadStatus_def GetBeingCkpt_def flag_20_iff
  packed_eq mask_small ts_setflags ts_ClearBeingCkpt

lemma entry_exec_refines:
  "op_ts_ok p \<Longrightarrow> entry_abs (entry_exec versioned skip_kv p e) =
     entry_spec versioned skip_kv p (entry_abs e)"
  by (cases p)
     (auto simp: entry_abs_simps SetCommitTsPayloadStatus_def SetCkptTs_def SetBeingCkpt_def
        ClearBeingCkpt_def Let_def bit_or_iff bit_and_iff bit_flag_10 bit_flag_20 bit_being_mask
        max_def simp del: status_code.simps)

definition view_clean :: "bool \<Rightarrow> entry_view \<Rightarrow> bool" where
  "view_clean versioned v = (if versioned then v_commit_ts v \<le> v_ckpt_ts v else v_flushed v)"

lemma IsPersistent_abs:
  "IsPersistent versioned standby e \<longleftrightarrow> standby \<or> view_clean versioned (entry_abs e)"
  by (simp add: IsPersistent_def view_clean_def entry_abs_def flag_10_iff)

definition entry_run :: "bool \<Rightarrow> bool \<Rightarrow> entry_op list \<Rightarrow> entry_info \<Rightarrow> entry_info" where
  "entry_run versioned skip_kv = fold (entry_exec versioned skip_kv)"

lemma entry_run_refines:
  "list_all op_ts_ok ops \<Longrightarrow> entry_abs (entry_run versioned skip_kv ops e) =
     fold (entry_spec versioned skip_kv) ops (entry_abs e)"
  by (induction ops arbitrary: e) (simp_all add: entry_run_def entry_exec_refines)

text \<open>
  C19: The packed word behaves as the five separate fields it encodes. Along every sequence of
  commits, flush acknowledgements and checkpoint marks whose commit timestamps fit 56 bits, reading
  the word back gives what the same sequence does to the unpacked fields: no timestamp leaks into
  the status or the flags, and no flag into the timestamp.
\<close>
theorem entry_word_refines:
  assumes "list_all op_ts_ok ops"
  shows "entry_abs (entry_run versioned skip_kv ops e) =
           fold (entry_spec versioned skip_kv) ops (entry_abs e)"
  using assms by (rule entry_run_refines)

theorem entry_word_refines_witness:
  "entry_abs (entry_run False False [Commit 7 Normal, BeginCkpt, FlushAck 7, Commit 9 Deleted] ei_new) =
     \<lparr>v_commit_ts = 9, v_status = Deleted, v_flushed = False, v_being = False, v_ckpt_ts = 0\<rparr>"
  using entry_word_refines [of "[Commit 7 Normal, BeginCkpt, FlushAck 7, Commit 9 Deleted]" False False ei_new]
  by (simp add: ei_new_def entry_abs_simps status_of_def Let_def)

section \<open>Dirty tracking\<close>

fun newer_commit :: "u64 \<Rightarrow> entry_op \<Rightarrow> bool" where
  "newer_commit ts (Commit t s) \<longleftrightarrow> ts < t"
| "newer_commit ts _ \<longleftrightarrow> False"

fun covering_ack :: "u64 \<Rightarrow> entry_op \<Rightarrow> bool" where
  "covering_ack ts (FlushAck t) \<longleftrightarrow> ts \<le> t"
| "covering_ack ts _ \<longleftrightarrow> False"

fun deletes :: "entry_op \<Rightarrow> bool" where
  "deletes (Commit t s) \<longleftrightarrow> s = Deleted"
| "deletes _ \<longleftrightarrow> False"

text \<open>With no data store behind a cache without versions, a deletion counts as flushed.\<close>

definition unstored :: "bool \<Rightarrow> bool \<Rightarrow> entry_op \<Rightarrow> bool" where
  "unstored versioned skip_kv p \<longleftrightarrow> \<not> versioned \<and> skip_kv \<and> deletes p"

lemma entry_spec_older:
  "\<not> newer_commit (v_commit_ts v) p \<Longrightarrow>
     v_commit_ts (entry_spec versioned skip_kv p v) = v_commit_ts v \<and>
     (view_clean versioned (entry_spec versioned skip_kv p v) \<longleftrightarrow>
        view_clean versioned v \<or> covering_ack (v_commit_ts v) p \<or> unstored versioned skip_kv p)"
  by (cases p) (auto simp: view_clean_def unstored_def max_def Let_def)

lemma entry_spec_run_older:
  "\<not> list_ex (newer_commit (v_commit_ts v)) ops \<Longrightarrow>
     (view_clean versioned (fold (entry_spec versioned skip_kv) ops v) \<longleftrightarrow>
        view_clean versioned v \<or> list_ex (covering_ack (v_commit_ts v)) ops \<or> list_ex (unstored versioned skip_kv) ops)"
  by (induction ops arbitrary: v) (auto simp: entry_spec_older)

lemma op_ts_ok_older: "ts < 2 ^ 56 \<Longrightarrow> \<not> newer_commit ts p \<Longrightarrow> op_ts_ok p"
  by (cases p) auto

text \<open>
  C20: When a committed version counts as persistent. After a commit at a newer timestamp of at most 56
  bits, and any operations that commit nothing newer, the entry is persistent (so evictable) exactly in
  these cases: the node is a standby that shares the data store of its primary; one of the operations
  acknowledged a flush up to that timestamp or later; the entry keeps versions and its checkpoint
  timestamp had already reached the new one; or the entry keeps no versions, there is no data store
  behind the cache, and the commit or one of the later operations was a deletion.
\<close>
theorem persistent_iff_flushed:
  assumes newer: "CommitTs e < ts" and small: "ts < 2 ^ 56"
    and older: "\<not> list_ex (newer_commit ts) ops"
  shows "IsPersistent versioned standby_shared (entry_run versioned skip_kv (Commit ts s # ops) e) \<longleftrightarrow>
           standby_shared \<or> list_ex (covering_ack ts) ops \<or> (versioned \<and> ts \<le> ckpt_ts e) \<or>
           (\<not> versioned \<and> skip_kv \<and> list_ex deletes (Commit ts s # ops))"
proof -
  let ?v = "entry_spec versioned skip_kv (Commit ts s) (entry_abs e)"
  have v: "v_commit_ts ?v = ts"
      "view_clean versioned ?v \<longleftrightarrow> (versioned \<and> ts \<le> ckpt_ts e) \<or> (\<not> versioned \<and> skip_kv \<and> s = Deleted)"
    using newer by (simp_all add: entry_abs_def view_clean_def Let_def)
  have un: "list_ex (unstored versioned skip_kv) ops \<longleftrightarrow> \<not> versioned \<and> skip_kv \<and> list_ex deletes ops"
    by (auto simp: list_ex_iff unstored_def)
  have "list_all op_ts_ok (Commit ts s # ops)"
    using small older by (auto simp: list_all_iff list_ex_iff intro: op_ts_ok_older)
  then have "entry_abs (entry_run versioned skip_kv (Commit ts s # ops) e) =
      fold (entry_spec versioned skip_kv) ops ?v"
    by (simp only: entry_run_refines fold_simps o_apply)
  then show ?thesis
    using entry_spec_run_older [of ?v ops versioned skip_kv] older v un
    by (simp only: IsPersistent_abs) auto
qed

theorem persistent_iff_flushed_witness:
  "\<not> IsPersistent False False (entry_run False False (Commit 7 Normal # [FlushAck 6, Commit 5 Deleted]) ei_new) \<and>
   IsPersistent False False (entry_run False True (Commit 7 Normal # [FlushAck 6, Commit 5 Deleted]) ei_new)"
  using persistent_iff_flushed [of ei_new 7 "[FlushAck 6, Commit 5 Deleted]" False False False Normal]
    persistent_iff_flushed [of ei_new 7 "[FlushAck 6, Commit 5 Deleted]" False False True Normal]
  by (simp add: ei_new_def CommitTs_def packed_eq)

end
