(* ===== verification/Mvcc_Entry.thy ===== *)
theory Mvcc_Entry
  imports Entry_Info
begin

text \<open>
  The versions of a cc entry (\<open>CcEntry<KeyT, ValueT, true>\<close>, \<open>VersionedPayload\<close>, \<open>VersionRecord\<close>
  and \<open>VersionResultRecord\<close> of \<open>include/cc/cc_entry.h\<close>): the current payload beside the metadata
  word, and the archive list of the historical versions, newest first. A \<open>unique_ptr\<close> to the
  archive list is an option; iterators into the list are the suffix they point at. Payloads are
  values: \<open>SetCurrentPayload\<close> writes in place only when no reader shares the object, so a payload
  a reader holds never changes.
\<close>

section \<open>Model\<close>

record 'v VersionRecord =
  vr_payload :: "'v option"
  vr_commit_ts :: u64
  vr_status :: RecordStatus

record 'v VersionResultRecord =
  payload_ptr :: "'v option"
  payload_status :: RecordStatus
  result_ts :: u64

definition VersionResultRecord_new :: "'v VersionResultRecord" where
  "VersionResultRecord_new = \<lparr>payload_ptr = None, payload_status = Unknown, result_ts = 1\<rparr>"

record 'v CcEntry =
  entry_info :: entry_info
  cur_payload :: "'v option"
  archives :: "'v VersionRecord list option"
  data_store_size :: int

definition INT32_MAX :: int where "INT32_MAX = 2147483647"

definition CcEntry_new :: "'v CcEntry" where
  "CcEntry_new = \<lparr>entry_info = ei_new, cur_payload = None, archives = None,
     data_store_size = INT32_MAX\<rparr>"

definition cce_CommitTs :: "'v CcEntry \<Rightarrow> u64" where
  "cce_CommitTs e = CommitTs (entry_info e)"

definition cce_PayloadStatus :: "'v CcEntry \<Rightarrow> RecordStatus" where
  "cce_PayloadStatus e = PayloadStatus (entry_info e)"

definition cce_CkptTs :: "'v CcEntry \<Rightarrow> u64" where
  "cce_CkptTs e = ckpt_ts (entry_info e)"

definition cce_SetCkptTs :: "u64 \<Rightarrow> 'v CcEntry \<Rightarrow> 'v CcEntry" where
  "cce_SetCkptTs ts e = e\<lparr>entry_info := SetCkptTs True ts (entry_info e)\<rparr>"

definition cce_SetCommitTsPayloadStatus :: "u64 \<Rightarrow> RecordStatus \<Rightarrow> 'v CcEntry \<Rightarrow> 'v CcEntry" where
  "cce_SetCommitTsPayloadStatus ts s e =
     e\<lparr>entry_info := SetCommitTsPayloadStatus True False ts s (entry_info e)\<rparr>"

definition SetCurrentPayload :: "'v option \<Rightarrow> 'v CcEntry \<Rightarrow> 'v CcEntry" where
  "SetCurrentPayload p e = e\<lparr>cur_payload := p\<rparr>"

definition ArchiveBeforeUpdate :: "'v CcEntry \<Rightarrow> 'v CcEntry" where
  "ArchiveBeforeUpdate e =
     (let rec_status = cce_PayloadStatus e in
      if rec_status = Unknown then e
      else let arch = (case archives e of None \<Rightarrow> [] | Some a \<Rightarrow> a);
               commit_ts = cce_CommitTs e
           in e\<lparr>archives := Some (\<lparr>vr_payload = cur_payload e, vr_commit_ts = commit_ts,
                                  vr_status = rec_status\<rparr> # arch),
                cur_payload := None\<rparr>)"

text \<open>The loop of \<open>AddArchiveRecords\<close> from its iterator on; \<open>emplace\<close> inserts before the iterator.\<close>

fun add_archive_loop :: "'v VersionRecord list \<Rightarrow> 'v VersionRecord list \<Rightarrow> 'v VersionRecord list" where
  "add_archive_loop [] it = it"
| "add_archive_loop (v # vs) [] = v # add_archive_loop vs []"
| "add_archive_loop (v # vs) (a # it) =
     (if vr_commit_ts a \<noteq> vr_commit_ts v then v # add_archive_loop vs (a # it)
      else a # add_archive_loop vs it)"

definition AddArchiveRecords :: "'v VersionRecord list \<Rightarrow> 'v CcEntry \<Rightarrow> 'v CcEntry" where
  "AddArchiveRecords v_recs e =
     (case v_recs of [] \<Rightarrow> e
      | v0 # _ \<Rightarrow>
          let arch = (case archives e of None \<Rightarrow> [] | Some a \<Rightarrow> a);
              newer = (\<lambda>r. \<not> vr_commit_ts r \<le> vr_commit_ts v0)
          in e\<lparr>archives := Some (takeWhile newer arch @ add_archive_loop v_recs (dropWhile newer arch))\<rparr>)"

definition AddArchiveRecord :: "'v option \<Rightarrow> RecordStatus \<Rightarrow> u64 \<Rightarrow> 'v CcEntry \<Rightarrow> 'v CcEntry" where
  "AddArchiveRecord payload status commit_ts e =
     (if commit_ts = 1 \<and> status = Deleted then e
      else let arch = (case archives e of None \<Rightarrow> [] | Some a \<Rightarrow> a);
               newer = (\<lambda>r. \<not> vr_commit_ts r \<le> commit_ts);
               it = dropWhile newer arch;
               r = \<lparr>vr_payload = payload, vr_commit_ts = commit_ts, vr_status = status\<rparr>
           in e\<lparr>archives := Some (if it = [] \<or> vr_commit_ts (hd it) < commit_ts
                                then takeWhile newer arch @ r # it else arch)\<rparr>)"

definition KickOutArchiveRecords :: "u64 \<Rightarrow> 'v CcEntry \<Rightarrow> 'v CcEntry" where
  "KickOutArchiveRecords oldest_active_tx_ts e =
     (case archives e of None \<Rightarrow> e
      | Some arch \<Rightarrow>
          if cce_CommitTs e \<le> oldest_active_tx_ts then e\<lparr>archives := None\<rparr>
          else if length arch \<le> 1 then e
          else let newer = (\<lambda>r. \<not> vr_commit_ts r \<le> oldest_active_tx_ts);
                   it = dropWhile newer arch
               in if it = [] then e
                  else e\<lparr>archives := Some (takeWhile newer arch @ [hd it])\<rparr>)"

definition MvccGet ::
    "u64 \<Rightarrow> u64 \<Rightarrow> 'v VersionResultRecord \<Rightarrow> 'v CcEntry \<Rightarrow> u64 \<times> 'v VersionResultRecord" where
  "MvccGet ts last_read_ts r e =
     (let commit_ts = cce_CommitTs e; rec_status = cce_PayloadStatus e in
      if rec_status = Unknown
      then (last_read_ts, r\<lparr>payload_status := Unknown, result_ts := commit_ts\<rparr>)
      else if commit_ts \<le> ts
      then (max ts last_read_ts,
            (if rec_status = Normal then r\<lparr>payload_ptr := cur_payload e\<rparr> else r)
              \<lparr>result_ts := commit_ts, payload_status := rec_status\<rparr>)
      else case find (\<lambda>v. vr_commit_ts v \<le> ts) (case archives e of None \<Rightarrow> [] | Some a \<Rightarrow> a) of
        Some v \<Rightarrow>
          (last_read_ts,
           (if vr_status v = Normal then r\<lparr>payload_ptr := vr_payload v\<rparr> else r)
             \<lparr>result_ts := vr_commit_ts v, payload_status := vr_status v\<rparr>)
      | None \<Rightarrow>
          (last_read_ts,
           r\<lparr>result_ts := 1,
             payload_status := (if cce_CkptTs e = 0 then VersionUnknown
                                else if cce_CkptTs e \<le> ts then BaseVersionMiss
                                else ArchiveVersionMiss)\<rparr>))"

definition HasVisibleVersion :: "u64 \<Rightarrow> 'v CcEntry \<Rightarrow> bool" where
  "HasVisibleVersion read_ts e =
     (if cce_CommitTs e \<le> read_ts then True
      else case archives e of
        None \<Rightarrow> False
      | Some arch \<Rightarrow> arch \<noteq> [] \<and> vr_commit_ts (last arch) \<le> read_ts)"

definition ArchiveRecordsCount :: "'v CcEntry \<Rightarrow> nat" where
  "ArchiveRecordsCount e = (case archives e of None \<Rightarrow> 0 | Some a \<Rightarrow> length a)"

definition ClearArchives :: "'v CcEntry \<Rightarrow> 'v CcEntry" where
  "ClearArchives e = (if archives e \<noteq> None then e\<lparr>archives := None\<rparr> else e)"

text \<open>
  The sizes: \<open>mem\<close> is the payload's own \<open>MemUsage\<close>; the two object sizes are the compiler's
  \<open>sizeof\<close>.
\<close>

definition VersionRecord_MemUsage :: "('v \<Rightarrow> nat) \<Rightarrow> nat \<Rightarrow> 'v VersionRecord \<Rightarrow> nat" where
  "VersionRecord_MemUsage mem sz_rec v =
     sz_rec + (case vr_payload v of None \<Rightarrow> 0 | Some p \<Rightarrow> mem p)"

definition GetArchiveMemUsage :: "('v \<Rightarrow> nat) \<Rightarrow> nat \<Rightarrow> nat \<Rightarrow> 'v CcEntry \<Rightarrow> nat" where
  "GetArchiveMemUsage mem sz_rec sz_list e =
     (case archives e of None \<Rightarrow> 0
      | Some a \<Rightarrow> foldl (\<lambda>n v. n + VersionRecord_MemUsage mem sz_rec v) sz_list a)"

definition PayloadMemUsage :: "('v \<Rightarrow> nat) \<Rightarrow> 'v CcEntry \<Rightarrow> nat" where
  "PayloadMemUsage mem e = (case cur_payload e of None \<Rightarrow> 0 | Some p \<Rightarrow> mem p)"

definition GetCcEntryMemUsage :: "('v \<Rightarrow> nat) \<Rightarrow> nat \<Rightarrow> nat \<Rightarrow> nat \<Rightarrow> 'v CcEntry \<Rightarrow> nat" where
  "GetCcEntryMemUsage mem sz_rec sz_list basic e =
     basic + PayloadMemUsage mem e + GetArchiveMemUsage mem sz_rec sz_list e"

text \<open>
  The update of the entry by a committed write (\<open>PostWriteCc\<close> with a positive commit timestamp).
  \<open>val\<close> is the payload of the request, given as an object or decoded from its bytes; the result
  says whether the value was installed, or discarded because the entry is newer.
\<close>

definition commit_write ::
    "bool \<Rightarrow> bool \<Rightarrow> u64 \<Rightarrow> bool \<Rightarrow> bool \<Rightarrow> OperationType \<Rightarrow> u64 \<Rightarrow> 'v option \<Rightarrow> 'v CcEntry
     \<Rightarrow> bool \<times> 'v CcEntry" where
  "commit_write range_partition mvcc recycle_ts is_upload initial_insert op_type commit_ts val e =
     (let cce_version = cce_CommitTs e;
          e1 = (if range_partition \<and> (cce_version = 1 \<or> cce_version = 0 \<and> op_type = OpInsert)
                then e\<lparr>data_store_size := 0\<rparr> else e);
          e2 = (if mvcc then ArchiveBeforeUpdate (KickOutArchiveRecords recycle_ts e1) else e1)
      in if commit_ts < cce_CommitTs e2 then (False, e2)
         else let is_del = (op_type = OpDelete);
                  e3 = SetCurrentPayload (if is_del then None else val) e2;
                  e4 = cce_SetCommitTsPayloadStatus commit_ts (if is_del then Deleted else Normal) e3;
                  e5 = (if is_upload \<and> initial_insert then cce_SetCkptTs 1 e4 else e4)
              in (True, e5))"

end
