(* ===== verification/Mvcc_Properties.thy ===== *)
theory Mvcc_Properties
  imports Mvcc_Entry
begin

text \<open>
  What multi-version reads may rely on: the archive list is strictly descending and older than the
  current version, a read at a timestamp returns the newest version not newer than it, and neither
  later commits nor the recycling of old versions change what a running snapshot reads.
\<close>

section \<open>Versions and their order\<close>

definition archive_list :: "'v CcEntry \<Rightarrow> 'v VersionRecord list" where
  "archive_list e = (case archives e of None \<Rightarrow> [] | Some a \<Rightarrow> a)"

definition current_version :: "'v CcEntry \<Rightarrow> 'v VersionRecord" where
  "current_version e =
     \<lparr>vr_payload = cur_payload e, vr_commit_ts = cce_CommitTs e, vr_status = cce_PayloadStatus e\<rparr>"

definition versions :: "'v CcEntry \<Rightarrow> 'v VersionRecord list" where
  "versions e = (if cce_PayloadStatus e = Unknown then [] else [current_version e]) @ archive_list e"

definition newer_than :: "'v VersionRecord \<Rightarrow> 'v VersionRecord \<Rightarrow> bool" where
  "newer_than a b \<longleftrightarrow> vr_commit_ts b < vr_commit_ts a"

definition mv_inv :: "'v CcEntry \<Rightarrow> bool" where
  "mv_inv e \<longleftrightarrow> sorted_wrt newer_than (versions e)"

text \<open>A read answers with a version, or with the reason it found none in memory.\<close>

definition answer :: "'v VersionRecord \<Rightarrow> 'v VersionResultRecord" where
  "answer v = \<lparr>payload_ptr = (if vr_status v = Normal then vr_payload v else None),
     payload_status = vr_status v, result_ts = vr_commit_ts v\<rparr>"

definition read_at :: "u64 \<Rightarrow> 'v CcEntry \<Rightarrow> 'v VersionResultRecord" where
  "read_at ts e = snd (MvccGet ts 0 VersionResultRecord_new e)"

lemma newer_than_trans: "newer_than a b \<Longrightarrow> newer_than b c \<Longrightarrow> newer_than a c"
  by (simp add: newer_than_def)

lemma versions_known:
  "cce_PayloadStatus e \<noteq> Unknown \<Longrightarrow> versions e = current_version e # archive_list e"
  by (simp add: versions_def)

lemma current_version_sel [simp]:
  "vr_commit_ts (current_version e) = cce_CommitTs e"
  "vr_payload (current_version e) = cur_payload e"
  "vr_status (current_version e) = cce_PayloadStatus e"
  by (simp_all add: current_version_def)

lemma read_at_find:
  assumes "cce_PayloadStatus e \<noteq> Unknown"
  shows "read_at ts e =
    (case find (\<lambda>v. vr_commit_ts v \<le> ts) (versions e) of
       Some v \<Rightarrow> answer v
     | None \<Rightarrow> \<lparr>payload_ptr = None, payload_status =
         (if cce_CkptTs e = 0 then VersionUnknown
          else if cce_CkptTs e \<le> ts then BaseVersionMiss else ArchiveVersionMiss), result_ts = 1\<rparr>)"
  using assms
  by (auto simp: read_at_def MvccGet_def answer_def VersionResultRecord_new_def archive_list_def Let_def
      versions_known split: option.splits)

text \<open>In a strictly descending list the first version that satisfies the bound is the newest one.\<close>

lemma find_newest:
  assumes "sorted_wrt newer_than vs" and "find (\<lambda>v. vr_commit_ts v \<le> ts) vs = Some v"
  shows "v \<in> set vs" "vr_commit_ts v \<le> ts"
    "\<And>w. w \<in> set vs \<Longrightarrow> vr_commit_ts w \<le> ts \<Longrightarrow> vr_commit_ts w \<le> vr_commit_ts v"
  using assms by (induction vs) (auto simp: newer_than_def less_imp_le split: if_splits)

lemma find_unique:
  assumes "sorted_wrt newer_than vs" "v \<in> set vs" "vr_commit_ts v \<le> ts"
    "\<And>w. w \<in> set vs \<Longrightarrow> vr_commit_ts w \<le> ts \<Longrightarrow> vr_commit_ts w \<le> vr_commit_ts v"
  shows "find (\<lambda>v. vr_commit_ts v \<le> ts) vs = Some v"
  using assms by (induction vs) (force simp: newer_than_def not_le)+

text \<open>
  C23: A snapshot read returns the right version. On an entry whose status is known and whose versions
  are in order, the read at \<open>ts\<close> answers with the timestamp, the status and (unless deleted) the
  payload of the newest version committed at or before \<open>ts\<close>; if memory has no such version, it says
  whether the base table, the archive table or both must be asked; and the entry's read timestamp is
  raised to \<open>ts\<close> exactly when the current version was read.
\<close>
theorem MvccGet_newest:
  assumes known: "cce_PayloadStatus e \<noteq> Unknown" and inv: "mv_inv e"
  shows "(v \<in> set (versions e) \<and> vr_commit_ts v \<le> ts \<and>
            (\<forall>w \<in> set (versions e). vr_commit_ts w \<le> ts \<longrightarrow> vr_commit_ts w \<le> vr_commit_ts v)
            \<longrightarrow> read_at ts e = answer v) \<and>
         ((\<forall>w \<in> set (versions e). ts < vr_commit_ts w) \<longrightarrow>
            read_at ts e = \<lparr>payload_ptr = None, payload_status =
              (if cce_CkptTs e = 0 then VersionUnknown
               else if cce_CkptTs e \<le> ts then BaseVersionMiss else ArchiveVersionMiss), result_ts = 1\<rparr>) \<and>
         fst (MvccGet ts last_read_ts r e) =
           (if cce_CommitTs e \<le> ts then max ts last_read_ts else last_read_ts)"
proof (intro conjI impI)
  assume v: "v \<in> set (versions e) \<and> vr_commit_ts v \<le> ts \<and>
    (\<forall>w \<in> set (versions e). vr_commit_ts w \<le> ts \<longrightarrow> vr_commit_ts w \<le> vr_commit_ts v)"
  then have "find (\<lambda>v. vr_commit_ts v \<le> ts) (versions e) = Some v"
    using inv by (auto simp: mv_inv_def intro: find_unique)
  then show "read_at ts e = answer v" by (simp add: read_at_find [OF known])
next
  assume "\<forall>w \<in> set (versions e). ts < vr_commit_ts w"
  then have "find (\<lambda>v. vr_commit_ts v \<le> ts) (versions e) = None"
    by (auto simp: find_None_iff not_le)
  then show "read_at ts e = \<lparr>payload_ptr = None, payload_status =
      (if cce_CkptTs e = 0 then VersionUnknown
       else if cce_CkptTs e \<le> ts then BaseVersionMiss else ArchiveVersionMiss), result_ts = 1\<rparr>"
    by (simp add: read_at_find [OF known])
next
  show "fst (MvccGet ts last_read_ts r e) =
      (if cce_CommitTs e \<le> ts then max ts last_read_ts else last_read_ts)"
    using known by (auto simp: MvccGet_def Let_def split: option.splits)
qed

text \<open>An entry with current version 9 and archived versions 7 (deleted) and 4.\<close>

definition sample_entry :: "nat CcEntry" where
  "sample_entry = \<lparr>entry_info = \<lparr>commit_ts_and_status = pack_word 9 Normal, ckpt_ts = 4\<rparr>,
     cur_payload = Some 90,
     archives = Some [\<lparr>vr_payload = None, vr_commit_ts = 7, vr_status = Deleted\<rparr>,
                      \<lparr>vr_payload = Some 40, vr_commit_ts = 4, vr_status = Normal\<rparr>],
     data_store_size = INT32_MAX\<rparr>"

lemma sample_entry_sel [simp]:
  "cce_PayloadStatus sample_entry = Normal" "cce_CommitTs sample_entry = 9"
  "cce_CkptTs sample_entry = 4"
  "versions sample_entry = [\<lparr>vr_payload = Some 90, vr_commit_ts = 9, vr_status = Normal\<rparr>,
     \<lparr>vr_payload = None, vr_commit_ts = 7, vr_status = Deleted\<rparr>,
     \<lparr>vr_payload = Some 40, vr_commit_ts = 4, vr_status = Normal\<rparr>]"
  "mv_inv sample_entry"
  by (simp_all add: mv_inv_def versions_def archive_list_def newer_than_def cce_PayloadStatus_def
      current_version_def cce_CommitTs_def cce_CkptTs_def sample_entry_def CommitTs_def
      PayloadStatus_def packed_eq mask_small status_of_def)

theorem MvccGet_newest_witness:
  "payload_ptr (read_at 6 sample_entry) = Some 40 \<and> payload_status (read_at 8 sample_entry) = Deleted
   \<and> payload_status (read_at 3 sample_entry) = ArchiveVersionMiss"
  using MvccGet_newest [of sample_entry "\<lparr>vr_payload = Some 40, vr_commit_ts = 4, vr_status = Normal\<rparr>" 6]
    MvccGet_newest [of sample_entry "\<lparr>vr_payload = None, vr_commit_ts = 7, vr_status = Deleted\<rparr>" 8]
    MvccGet_newest [of sample_entry _ 3]
  by (simp add: answer_def)

section \<open>The archive operations keep the order\<close>

lemma entry_word_sel:
  "commit_ts < 2 ^ 56 \<Longrightarrow> cce_CommitTs e < commit_ts \<Longrightarrow>
     cce_CommitTs (cce_SetCommitTsPayloadStatus commit_ts s e) = commit_ts \<and>
     cce_PayloadStatus (cce_SetCommitTsPayloadStatus commit_ts s e) = s"
  by (simp add: cce_CommitTs_def cce_PayloadStatus_def cce_SetCommitTsPayloadStatus_def
      SetCommitTsPayloadStatus_def CommitTs_def PayloadStatus_def packed_eq mask_small Let_def)

lemma kick_sel [simp]:
  "entry_info (KickOutArchiveRecords ts e) = entry_info e"
  "cur_payload (KickOutArchiveRecords ts e) = cur_payload e"
  "cce_CommitTs (KickOutArchiveRecords ts e) = cce_CommitTs e"
  "cce_PayloadStatus (KickOutArchiveRecords ts e) = cce_PayloadStatus e"
  "current_version (KickOutArchiveRecords ts e) = current_version e"
  by (simp_all add: KickOutArchiveRecords_def Let_def cce_CommitTs_def cce_PayloadStatus_def
      current_version_def split: option.splits)

text \<open>Recycling cuts the list after the first version that is old enough.\<close>

fun cut_after :: "('a \<Rightarrow> bool) \<Rightarrow> 'a list \<Rightarrow> 'a list" where
  "cut_after P [] = []"
| "cut_after P (x # xs) = (if P x then [x] else x # cut_after P xs)"

lemma cut_after_While:
  "cut_after P xs = (if dropWhile (\<lambda>x. \<not> P x) xs = [] then xs
     else takeWhile (\<lambda>x. \<not> P x) xs @ [hd (dropWhile (\<lambda>x. \<not> P x) xs)])"
  by (induction xs) auto

lemma cut_after_short: "length xs \<le> 1 \<Longrightarrow> cut_after P xs = xs"
  by (cases xs) auto

lemma cut_after_find:
  "(\<And>x. P x \<Longrightarrow> Q x) \<Longrightarrow> find Q (cut_after P xs) = find Q xs"
  by (induction xs) auto

lemma set_cut_after: "set (cut_after P xs) \<subseteq> set xs"
  by (induction xs) auto

lemma sorted_cut_after: "sorted_wrt R xs \<Longrightarrow> sorted_wrt R (cut_after P xs)"
  by (induction xs) (use set_cut_after in fastforce)+

lemma kick_archives:
  "archive_list (KickOutArchiveRecords ts e) =
     (if cce_CommitTs e \<le> ts then [] else cut_after (\<lambda>v. vr_commit_ts v \<le> ts) (archive_list e))"
proof (cases "archives e")
  case (Some arch)
  then show ?thesis
    using cut_after_short [of arch "\<lambda>v. vr_commit_ts v \<le> ts"]
      cut_after_While [of "\<lambda>v. vr_commit_ts v \<le> ts" arch]
    by (auto simp: KickOutArchiveRecords_def archive_list_def Let_def split: if_splits)
qed (simp add: KickOutArchiveRecords_def archive_list_def)

lemma versions_KickOut:
  "cce_PayloadStatus e \<noteq> Unknown \<Longrightarrow>
     versions (KickOutArchiveRecords ts e) = cut_after (\<lambda>v. vr_commit_ts v \<le> ts) (versions e)"
  by (simp add: versions_known kick_archives)

lemma archive_Before:
  "cce_PayloadStatus e \<noteq> Unknown \<Longrightarrow> archive_list (ArchiveBeforeUpdate e) = versions e"
  by (simp add: ArchiveBeforeUpdate_def archive_list_def versions_known current_version_def Let_def
      split: option.split)

lemma Before_sel [simp]:
  "entry_info (ArchiveBeforeUpdate e) = entry_info e"
  "cce_CommitTs (ArchiveBeforeUpdate e) = cce_CommitTs e"
  "cce_PayloadStatus (ArchiveBeforeUpdate e) = cce_PayloadStatus e"
  by (simp_all add: ArchiveBeforeUpdate_def Let_def cce_CommitTs_def cce_PayloadStatus_def)

section \<open>Commits\<close>

definition write_version :: "OperationType \<Rightarrow> u64 \<Rightarrow> 'v option \<Rightarrow> 'v VersionRecord" where
  "write_version op_type ts val =
     \<lparr>vr_payload = (if op_type = OpDelete then None else val), vr_commit_ts = ts,
      vr_status = (if op_type = OpDelete then Deleted else Normal)\<rparr>"

lemma data_store_size_frame [simp]:
  "cce_CommitTs (e\<lparr>data_store_size := n\<rparr>) = cce_CommitTs e"
  "cce_PayloadStatus (e\<lparr>data_store_size := n\<rparr>) = cce_PayloadStatus e"
  "archive_list (e\<lparr>data_store_size := n\<rparr>) = archive_list e"
  "versions (e\<lparr>data_store_size := n\<rparr>) = versions e"
  by (simp_all add: cce_CommitTs_def cce_PayloadStatus_def archive_list_def versions_def
      current_version_def)

lemma ckpt_frame [simp]:
  "cce_CommitTs (cce_SetCkptTs ts e) = cce_CommitTs e"
  "cce_PayloadStatus (cce_SetCkptTs ts e) = cce_PayloadStatus e"
  "archives (cce_SetCkptTs ts e) = archives e"
  "cur_payload (cce_SetCkptTs ts e) = cur_payload e"
  "versions (cce_SetCkptTs ts e) = versions e"
  by (simp_all add: cce_SetCkptTs_def SetCkptTs_def cce_CommitTs_def cce_PayloadStatus_def CommitTs_def
      PayloadStatus_def archive_list_def versions_def current_version_def)

lemma commit_write_versions:
  assumes "cce_PayloadStatus e \<noteq> Unknown" "cce_CommitTs e < ts" "ts < 2 ^ 56"
  shows "fst (commit_write rp True recycle up ini op_type ts val e)"
    and "versions (snd (commit_write rp True recycle up ini op_type ts val e)) =
           write_version op_type ts val # cut_after (\<lambda>v. vr_commit_ts v \<le> recycle) (versions e)"
    and "cce_PayloadStatus (snd (commit_write rp True recycle up ini op_type ts val e)) =
           (if op_type = OpDelete then Deleted else Normal)"
    and "cce_CommitTs (snd (commit_write rp True recycle up ini op_type ts val e)) = ts"
proof -
  define e1 where "e1 = (if rp \<and> (cce_CommitTs e = 1 \<or> cce_CommitTs e = 0 \<and> op_type = OpInsert)
    then e\<lparr>data_store_size := 0\<rparr> else e)"
  define e2 where "e2 = ArchiveBeforeUpdate (KickOutArchiveRecords recycle e1)"
  have e1: "cce_PayloadStatus e1 \<noteq> Unknown" "cce_CommitTs e1 = cce_CommitTs e" "versions e1 = versions e"
    using assms by (simp_all add: e1_def)
  have e2: "archive_list e2 = cut_after (\<lambda>v. vr_commit_ts v \<le> recycle) (versions e)"
      "cce_CommitTs e2 = cce_CommitTs e" and new: "\<not> ts < cce_CommitTs e"
    using e1 assms by (simp_all add: e2_def archive_Before versions_KickOut)
  show "fst (commit_write rp True recycle up ini op_type ts val e)"
    using e2 new unfolding commit_write_def Let_def e1_def [symmetric]
    by (simp add: e2_def [symmetric])
  define e4 where "e4 = cce_SetCommitTsPayloadStatus ts (if op_type = OpDelete then Deleted else Normal)
    (SetCurrentPayload (if op_type = OpDelete then None else val) e2)"
  have "cce_CommitTs (SetCurrentPayload p e2) < ts" for p
    using e2 assms by (simp add: SetCurrentPayload_def cce_CommitTs_def)
  then have e4: "cce_CommitTs e4 = ts"
    "cce_PayloadStatus e4 = (if op_type = OpDelete then Deleted else Normal)"
    by (simp_all only: e4_def entry_word_sel [OF assms(3)])
  have "archive_list e4 = archive_list e2"
      "cur_payload e4 = (if op_type = OpDelete then None else val)"
    by (simp_all add: e4_def archive_list_def cce_SetCommitTsPayloadStatus_def SetCurrentPayload_def)
  then have v4: "versions e4 = write_version op_type ts val # archive_list e2"
    using e4 by (simp add: versions_known current_version_def write_version_def)
  have res: "snd (commit_write rp True recycle up ini op_type ts val e) =
      (if up \<and> ini then cce_SetCkptTs 1 e4 else e4)"
    using e2 new unfolding commit_write_def Let_def e1_def [symmetric] e4_def
    by (simp add: e2_def [symmetric])
  show "cce_PayloadStatus (snd (commit_write rp True recycle up ini op_type ts val e)) =
      (if op_type = OpDelete then Deleted else Normal)"
    and "cce_CommitTs (snd (commit_write rp True recycle up ini op_type ts val e)) = ts"
    using e4 by (simp_all add: res)
  show "versions (snd (commit_write rp True recycle up ini op_type ts val e)) =
      write_version op_type ts val # cut_after (\<lambda>v. vr_commit_ts v \<le> recycle) (versions e)"
    using e2 v4 by (simp add: res)
qed

section \<open>Snapshots\<close>

text \<open>What happens to an entry while a snapshot is open.\<close>

datatype 'v mv_op = MvWrite u64 OperationType u64 "'v option" | MvRecycle u64 | MvFlushAck u64

primrec mv_exec :: "bool \<Rightarrow> 'v mv_op \<Rightarrow> 'v CcEntry \<Rightarrow> 'v CcEntry" where
  "mv_exec rp (MvWrite recycle op_type ts val) e =
     snd (commit_write rp True recycle False False op_type ts val e)"
| "mv_exec rp (MvRecycle ts) e = KickOutArchiveRecords ts e"
| "mv_exec rp (MvFlushAck ts) e = cce_SetCkptTs ts e"

text \<open>
  The environment of a reader at \<open>ts\<close>: writers commit after the entry's current version (they hold
  its write lock) and after \<open>ts\<close>, and versions are recycled only below \<open>ts\<close>.
\<close>

primrec after_snapshot :: "u64 \<Rightarrow> 'v CcEntry \<Rightarrow> 'v mv_op \<Rightarrow> bool" where
  "after_snapshot ts e (MvWrite recycle op_type c val) \<longleftrightarrow>
     recycle \<le> ts \<and> ts < c \<and> cce_CommitTs e < c \<and> c < 2 ^ 56"
| "after_snapshot ts e (MvRecycle old) \<longleftrightarrow> old \<le> ts"
| "after_snapshot ts e (MvFlushAck c) \<longleftrightarrow> True"

fun snapshot_run :: "bool \<Rightarrow> u64 \<Rightarrow> 'v mv_op list \<Rightarrow> 'v CcEntry \<Rightarrow> bool" where
  "snapshot_run rp ts [] e \<longleftrightarrow> True"
| "snapshot_run rp ts (p # ps) e \<longleftrightarrow> after_snapshot ts e p \<and> snapshot_run rp ts ps (mv_exec rp p e)"

definition visible_at :: "u64 \<Rightarrow> 'v CcEntry \<Rightarrow> 'v VersionRecord option" where
  "visible_at ts e = find (\<lambda>v. vr_commit_ts v \<le> ts) (versions e)"

lemma write_version_sel [simp]:
  "vr_commit_ts (write_version op_type ts val) = ts"
  "vr_status (write_version op_type ts val) \<noteq> Unknown"
  by (simp_all add: write_version_def)

lemma mv_exec_known:
  assumes "cce_PayloadStatus e \<noteq> Unknown" "after_snapshot ts e p"
  shows "cce_PayloadStatus (mv_exec rp p e) \<noteq> Unknown"
  using assms by (cases p) (auto simp: commit_write_versions)

lemma mv_exec_visible:
  assumes "cce_PayloadStatus e \<noteq> Unknown" "after_snapshot ts e p"
  shows "visible_at ts (mv_exec rp p e) = visible_at ts e"
  using assms
  by (cases p) (auto simp: visible_at_def commit_write_versions versions_KickOut cut_after_find not_le)

lemma mv_exec_inv:
  assumes "cce_PayloadStatus e \<noteq> Unknown" "mv_inv e" "after_snapshot ts e p"
  shows "mv_inv (mv_exec rp p e)"
proof (cases p)
  case (MvWrite recycle op_type c val)
  have "vr_commit_ts v < c" if "v \<in> set (versions e)" for v
    using that assms MvWrite by (auto simp: mv_inv_def versions_known newer_than_def)
  then have "sorted_wrt newer_than (write_version op_type c val # versions e)"
    using assms(2) by (simp add: mv_inv_def newer_than_def)
  then show ?thesis
    using assms MvWrite set_cut_after [of "\<lambda>v. vr_commit_ts v \<le> recycle" "versions e"]
    by (auto simp: mv_inv_def commit_write_versions intro: sorted_cut_after)
qed (use assms in \<open>simp_all add: mv_inv_def versions_KickOut sorted_cut_after\<close>)

lemma snapshot_run_stable:
  assumes "cce_PayloadStatus e \<noteq> Unknown" "mv_inv e" "snapshot_run rp ts ps e"
  shows "cce_PayloadStatus (fold (mv_exec rp) ps e) \<noteq> Unknown \<and> mv_inv (fold (mv_exec rp) ps e) \<and>
         visible_at ts (fold (mv_exec rp) ps e) = visible_at ts e"
  using assms
proof (induction ps arbitrary: e)
  case (Cons p ps)
  then show ?case
    using Cons.IH [of "mv_exec rp p e"] mv_exec_known [of e ts p rp] mv_exec_inv [of e ts p rp]
      mv_exec_visible [of e ts p rp]
    by simp
qed simp

lemma read_at_visible:
  "cce_PayloadStatus e \<noteq> Unknown \<Longrightarrow> visible_at ts e = Some v \<Longrightarrow> read_at ts e = answer v"
  by (simp add: read_at_find visible_at_def)

text \<open>
  C16: A snapshot reads the same version for as long as it is open. Take an entry with known status
  and ordered versions, one of which is visible at \<open>ts\<close>. After any sequence of commits newer than the
  snapshot and than the entry, of recycling with a bound not above the snapshot, and of flush
  acknowledgements, the versions are still in order and the read at \<open>ts\<close> returns exactly what it
  returned before.
\<close>
theorem snapshot_read_stable:
  assumes known: "cce_PayloadStatus e \<noteq> Unknown" and inv: "mv_inv e"
    and vis: "v \<in> set (versions e)" "vr_commit_ts v \<le> ts"
    and run: "snapshot_run rp ts ps e"
  shows "mv_inv (fold (mv_exec rp) ps e) \<and> read_at ts (fold (mv_exec rp) ps e) = read_at ts e"
proof -
  have "visible_at ts e \<noteq> None"
    using vis by (auto simp: visible_at_def find_None_iff)
  then obtain w where "visible_at ts e = Some w" by auto
  then show ?thesis
    using snapshot_run_stable [OF known inv run] known by (simp add: read_at_visible)
qed

theorem snapshot_read_stable_witness:
  "read_at 8 (fold (mv_exec False) [MvWrite 5 OpUpsert 12 (Some 120), MvRecycle 8] sample_entry) =
     read_at 8 sample_entry"
  using snapshot_read_stable [of sample_entry
      "\<lparr>vr_payload = None, vr_commit_ts = 7, vr_status = Deleted\<rparr>" 8 False
      "[MvWrite 5 OpUpsert 12 (Some 120), MvRecycle 8]"]
  by simp

section \<open>Recycling\<close>

lemma cut_after_keeps:
  "sorted_wrt newer_than vs \<Longrightarrow> set (cut_after (\<lambda>v. vr_commit_ts v \<le> ts) vs) =
     {v \<in> set vs. \<forall>w \<in> set vs. vr_commit_ts w \<le> ts \<longrightarrow> vr_commit_ts w \<le> vr_commit_ts v}"
proof (induction vs)
  case (Cons x vs)
  then show ?case by (auto simp: newer_than_def not_le dest: less_imp_le)
qed simp

text \<open>
  C24: Recycling removes exactly the versions no snapshot can read any more: of an entry with ordered
  versions it keeps those that no version at or below the oldest active timestamp supersedes, so
  every version newer than the bound and the newest one at or below it, and drops all others. The
  order is kept.
\<close>
theorem KickOut_exact:
  assumes "cce_PayloadStatus e \<noteq> Unknown" "mv_inv e"
  shows "mv_inv (KickOutArchiveRecords ts e) \<and>
         set (versions (KickOutArchiveRecords ts e)) =
           {v \<in> set (versions e). \<forall>w \<in> set (versions e). vr_commit_ts w \<le> ts \<longrightarrow> vr_commit_ts w \<le> vr_commit_ts v}"
  using assms by (simp add: mv_inv_def versions_KickOut sorted_cut_after cut_after_keeps)

theorem KickOut_exact_witness:
  "map vr_commit_ts (versions (KickOutArchiveRecords 8 sample_entry)) = [9, 7] \<and>
   mv_inv (KickOutArchiveRecords 8 sample_entry)"
  using KickOut_exact [of sample_entry 8] by (simp add: versions_KickOut)

section \<open>Backfilled versions\<close>

lemma sorted_split:
  assumes "sorted_wrt newer_than vs"
  shows "v \<in> set (takeWhile (\<lambda>r. \<not> vr_commit_ts r \<le> ts) vs) \<Longrightarrow> ts < vr_commit_ts v"
    and "v \<in> set (dropWhile (\<lambda>r. \<not> vr_commit_ts r \<le> ts) vs) \<Longrightarrow> vr_commit_ts v \<le> ts"
  using assms by (auto dest!: set_takeWhileD simp: not_le) (induction vs, auto simp: newer_than_def split: if_splits)

text \<open>
  C25: Adding one historical version inserts it at its place. On an ordered archive the archive stays
  strictly descending and afterwards holds the old versions and, unless one with that timestamp was
  there or the record is the deletion at time 1 that stands for "never existed", the new one.
\<close>
theorem AddArchiveRecord_inserts:
  assumes "sorted_wrt newer_than (archive_list e)"
  shows "sorted_wrt newer_than (archive_list (AddArchiveRecord p s ts e)) \<and>
         set (archive_list (AddArchiveRecord p s ts e)) =
           (if ts = 1 \<and> s = Deleted \<or> ts \<in> vr_commit_ts ` set (archive_list e)
            then set (archive_list e)
            else insert \<lparr>vr_payload = p, vr_commit_ts = ts, vr_status = s\<rparr> (set (archive_list e)))"
proof (cases "ts = 1 \<and> s = Deleted")
  case False
  define arch where "arch = archive_list e"
  define pre where "pre = takeWhile (\<lambda>r. \<not> vr_commit_ts r \<le> ts) arch"
  define it where "it = dropWhile (\<lambda>r. \<not> vr_commit_ts r \<le> ts) arch"
  define r where "r = \<lparr>vr_payload = p, vr_commit_ts = ts, vr_status = s\<rparr>"
  have arch: "arch = pre @ it" by (simp add: pre_def it_def)
  have split: "\<forall>v \<in> set pre. ts < vr_commit_ts v" "\<forall>v \<in> set it. vr_commit_ts v \<le> ts"
      "sorted_wrt newer_than arch"
    using assms by (auto simp: pre_def it_def arch_def dest: sorted_split)
  have res: "archive_list (AddArchiveRecord p s ts e) =
      (if it = [] \<or> vr_commit_ts (hd it) < ts then pre @ r # it else arch)"
    unfolding AddArchiveRecord_def if_not_P [OF False] archive_list_def [symmetric] arch_def [symmetric] Let_def
      pre_def [symmetric] it_def [symmetric] r_def [symmetric]
    by (simp add: archive_list_def)
  show ?thesis
  proof (cases "it = [] \<or> vr_commit_ts (hd it) < ts")
    case True
    have older: "\<forall>v \<in> set it. vr_commit_ts v < ts"
      using True split arch by (cases it) (auto simp: sorted_wrt_append newer_than_def)
    then have new: "ts \<notin> vr_commit_ts ` set arch"
      using split arch by fastforce
    have "sorted_wrt newer_than (pre @ r # it)"
      using split older by (simp add: arch sorted_wrt_append) (simp add: newer_than_def r_def)
    moreover have "set (pre @ r # it) = insert r (set arch)" by (simp add: arch)
    ultimately show ?thesis
      using True False new by (simp only: res arch_def [symmetric] r_def [symmetric] if_True simp_thms if_False)
  next
    case same: False
    then have "vr_commit_ts (hd it) = ts" "hd it \<in> set arch"
      using split arch by (auto simp: not_less intro: antisym)
    then show ?thesis
      using same split False by (auto simp: res arch_def [symmetric])
  qed
qed (use assms in \<open>simp add: AddArchiveRecord_def archive_list_def\<close>)

theorem AddArchiveRecord_inserts_witness:
  "sorted_wrt newer_than (archive_list (AddArchiveRecord (Some 50) Normal 5 sample_entry)) \<and>
   card (set (archive_list (AddArchiveRecord (Some 50) Normal 5 sample_entry))) = 3"
  using AddArchiveRecord_inserts [of sample_entry "Some 50" Normal 5]
  by (simp add: sample_entry_def archive_list_def newer_than_def)

text \<open>
  The batch form walks both lists in step. It is right when the batch has no gap, that is, contains
  every archived version between its newest and its oldest one.
\<close>

definition gapless :: "'v VersionRecord list \<Rightarrow> 'v VersionRecord list \<Rightarrow> bool" where
  "gapless v_recs arch \<longleftrightarrow>
     (\<forall>a \<in> set arch. v_recs \<noteq> [] \<and> vr_commit_ts (last v_recs) \<le> vr_commit_ts a \<and>
        vr_commit_ts a \<le> vr_commit_ts (hd v_recs) \<longrightarrow> vr_commit_ts a \<in> vr_commit_ts ` set v_recs)"

text \<open>The loop's precondition: nothing at the iterator is newer than the batch, and no gap.\<close>

definition loop_ok :: "'v VersionRecord list \<Rightarrow> 'v VersionRecord list \<Rightarrow> bool" where
  "loop_ok vs it \<longleftrightarrow> sorted_wrt newer_than vs \<and> sorted_wrt newer_than it \<and>
     (vs \<noteq> [] \<longrightarrow> (\<forall>a \<in> set it. vr_commit_ts a \<le> vr_commit_ts (hd vs)) \<and> gapless vs it)"

lemma loop_ok_step:
  assumes "loop_ok (v # vs) it" "\<forall>x \<in> set it. vr_commit_ts x < vr_commit_ts v"
  shows "loop_ok vs it"
proof (cases vs)
  case (Cons w ws)
  have last_le: "vr_commit_ts (last vs) \<le> vr_commit_ts w"
    using assms(1) Cons by (cases ws rule: rev_cases) (auto simp: loop_ok_def newer_than_def less_imp_le)
  have in_vs: "vr_commit_ts x \<in> vr_commit_ts ` set vs"
    if "x \<in> set it" "vr_commit_ts (last vs) \<le> vr_commit_ts x" for x
  proof -
    have "vr_commit_ts x \<in> vr_commit_ts ` set (v # vs)"
      using assms that Cons unfolding loop_ok_def gapless_def by (auto simp: less_imp_le)
    then show ?thesis using assms(2) that by auto
  qed
  have "vr_commit_ts x \<le> vr_commit_ts w" if x: "x \<in> set it" for x
  proof (cases "vr_commit_ts (last vs) \<le> vr_commit_ts x")
    case True
    then obtain u where "u \<in> set vs" "vr_commit_ts x = vr_commit_ts u" using in_vs [OF x] by auto
    then show ?thesis
      using assms(1) Cons by (auto simp: loop_ok_def newer_than_def less_imp_le)
  next
    case False
    then show ?thesis using last_le by (simp add: not_le less_imp_le order.strict_trans2)
  qed
  then show ?thesis
    using assms(1) in_vs Cons by (auto simp: loop_ok_def gapless_def)
qed (use assms in \<open>simp add: loop_ok_def\<close>)

lemma add_archive_loop_set:
  "set (add_archive_loop vs it) \<subseteq> set vs \<union> set it"
  by (induction vs it rule: add_archive_loop.induct) auto

lemma loop_bound:
  "\<forall>x \<in> set vs \<union> set it. newer_than v x \<Longrightarrow> sorted_wrt newer_than (add_archive_loop vs it) \<Longrightarrow>
     sorted_wrt newer_than (v # add_archive_loop vs it)"
  using add_archive_loop_set [of vs it] by auto

lemma add_archive_loop_sorted:
  assumes "loop_ok vs it"
  shows "sorted_wrt newer_than (add_archive_loop vs it) \<and>
         set (add_archive_loop vs it) = set it \<union> {v \<in> set vs. vr_commit_ts v \<notin> vr_commit_ts ` set it}"
  using assms
proof (induction vs it rule: add_archive_loop.induct)
  case (2 v vs)
  then have "loop_ok vs ([] :: 'a VersionRecord list)" by (simp add: loop_ok_def gapless_def)
  then show ?case using 2 loop_bound [of vs "[]" v] by (auto simp: loop_ok_def)
next
  case (3 v vs a it)
  have vs: "\<forall>x \<in> set vs. newer_than v x" and le: "vr_commit_ts a \<le> vr_commit_ts v"
    and it: "\<forall>x \<in> set it. newer_than a x" "sorted_wrt newer_than it"
    using "3.prems" by (auto simp: loop_ok_def)
  show ?case
  proof (cases "vr_commit_ts a = vr_commit_ts v")
    case True
    then have older: "\<forall>x \<in> set it. vr_commit_ts x < vr_commit_ts v"
      using it by (simp add: newer_than_def)
    have "loop_ok (v # vs) it" using "3.prems" by (auto simp: loop_ok_def gapless_def)
    then have ok: "loop_ok vs it" using older by (rule loop_ok_step)
    have "newer_than a x" if "x \<in> set vs" for x using vs that True by (simp add: newer_than_def)
    moreover have "vr_commit_ts x \<noteq> vr_commit_ts a" if "x \<in> set vs" for x
      using vs that True by (auto simp: newer_than_def)
    ultimately show ?thesis
      using "3.IH"(2) ok True it loop_bound [of vs it a] by auto
  next
    case False
    then have older: "\<forall>x \<in> set (a # it). vr_commit_ts x < vr_commit_ts v"
      using it le by (auto simp: newer_than_def order.strict_iff_order)
    then have ok: "loop_ok vs (a # it)" using "3.prems" by (rule loop_ok_step [rotated])
    have "\<forall>x \<in> set vs \<union> set (a # it). newer_than v x"
      using older vs by (auto simp: newer_than_def)
    then show ?thesis
      using "3.IH"(1) ok False loop_bound [of vs "a # it" v] older by auto
  qed
qed (simp add: loop_ok_def)

text \<open>
  C26: Adding a batch of historical versions that has no gap merges it in. If the archive and the
  batch are strictly descending and the batch contains every archived version between its newest and
  its oldest, then the archive afterwards is strictly descending and holds the old versions and the
  versions of the batch whose timestamps were not archived.
\<close>
theorem AddArchiveRecords_merges:
  assumes "sorted_wrt newer_than (archive_list e)" "sorted_wrt newer_than v_recs"
    and "gapless v_recs (archive_list e)"
  shows "sorted_wrt newer_than (archive_list (AddArchiveRecords v_recs e)) \<and>
         set (archive_list (AddArchiveRecords v_recs e)) = set (archive_list e) \<union>
           {v \<in> set v_recs. vr_commit_ts v \<notin> vr_commit_ts ` set (archive_list e)}"
proof (cases v_recs)
  case (Cons v vs)
  define arch where "arch = archive_list e"
  define pre where "pre = takeWhile (\<lambda>r. \<not> vr_commit_ts r \<le> vr_commit_ts v) arch"
  define it where "it = dropWhile (\<lambda>r. \<not> vr_commit_ts r \<le> vr_commit_ts v) arch"
  have arch: "arch = pre @ it" by (simp add: pre_def it_def)
  have split: "\<forall>x \<in> set pre. vr_commit_ts v < vr_commit_ts x" "\<forall>x \<in> set it. vr_commit_ts x \<le> vr_commit_ts v"
      "sorted_wrt newer_than arch"
    using assms by (auto simp: pre_def it_def arch_def dest: sorted_split)
  have below: "\<forall>x \<in> set v_recs. vr_commit_ts x \<le> vr_commit_ts v"
    using assms(2) Cons by (auto simp: newer_than_def less_imp_le)
  have res: "archive_list (AddArchiveRecords v_recs e) = pre @ add_archive_loop v_recs it"
    unfolding AddArchiveRecords_def Cons archive_list_def [symmetric] arch_def [symmetric] Let_def
      pre_def it_def by (simp add: archive_list_def)
  have "loop_ok v_recs it"
    using assms(2,3) split Cons arch by (auto simp: loop_ok_def gapless_def arch_def [symmetric] sorted_wrt_append)
  then have loop: "sorted_wrt newer_than (add_archive_loop v_recs it)"
      "set (add_archive_loop v_recs it) = set it \<union> {x \<in> set v_recs. vr_commit_ts x \<notin> vr_commit_ts ` set it}"
    by (simp_all add: add_archive_loop_sorted)
  have "\<forall>x \<in> set pre. \<forall>y \<in> set v_recs \<union> set it. newer_than x y"
    using split below by (force simp: newer_than_def)
  then have "sorted_wrt newer_than (pre @ add_archive_loop v_recs it)"
    using split loop arch add_archive_loop_set [of v_recs it] by (auto simp: sorted_wrt_append)
  moreover have "vr_commit_ts y \<noteq> vr_commit_ts x" if "x \<in> set pre" "y \<in> set v_recs" for x y
    using split below that by force
  ultimately show ?thesis
    using loop by (auto simp: res arch_def [symmetric] arch)
qed (use assms in \<open>simp add: AddArchiveRecords_def\<close>)

theorem AddArchiveRecords_merges_witness:
  "sorted_wrt newer_than (archive_list (AddArchiveRecords
     [\<lparr>vr_payload = Some 80, vr_commit_ts = 8, vr_status = Normal\<rparr>,
      \<lparr>vr_payload = None, vr_commit_ts = 7, vr_status = Deleted\<rparr>,
      \<lparr>vr_payload = Some 60, vr_commit_ts = 6, vr_status = Normal\<rparr>] sample_entry))"
  using AddArchiveRecords_merges [of sample_entry
     "[\<lparr>vr_payload = Some 80, vr_commit_ts = 8, vr_status = Normal\<rparr>,
      \<lparr>vr_payload = None, vr_commit_ts = 7, vr_status = Deleted\<rparr>,
      \<lparr>vr_payload = Some 60, vr_commit_ts = 6, vr_status = Normal\<rparr>]"]
  by (simp add: sample_entry_def archive_list_def newer_than_def gapless_def)


section \<open>Visibility test and stale uploads\<close>

text \<open>
  The cheap visibility test is exact. For an entry with known status and ordered versions, looking
  at the current and the oldest archived timestamp only tells whether some version in memory is
  visible at the read timestamp.
\<close>
lemma HasVisibleVersion_exact:
  assumes "cce_PayloadStatus e \<noteq> Unknown" "mv_inv e"
  shows "HasVisibleVersion ts e \<longleftrightarrow> (\<exists>v \<in> set (versions e). vr_commit_ts v \<le> ts)"
proof (cases "archive_list e" rule: rev_cases)
  case Nil
  then show ?thesis
    using assms by (auto simp: HasVisibleVersion_def versions_known archive_list_def split: option.splits)
next
  case (snoc as a)
  have "archives e = Some (as @ [a])"
    using snoc by (simp add: archive_list_def split: option.splits)
  moreover have "vr_commit_ts a \<le> vr_commit_ts v" if "v \<in> set (as @ [a])" for v
    using assms that snoc by (auto simp: mv_inv_def versions_known sorted_wrt_append newer_than_def less_imp_le)
  ultimately show ?thesis
    using assms(1) snoc by (auto simp: HasVisibleVersion_def versions_known intro: order_trans)
qed

text \<open>
  C35: An uploaded write that is older than the entry loses the entry's current payload when
  multi-versioning is on: the current version is moved to the archive before the write is found to be
  stale and discarded. Afterwards a read of the newest version still answers with its timestamp and
  status \<open>Normal\<close>, but with no payload, and the archive repeats the current timestamp.
\<close>
theorem stale_upload_loses_payload:
  assumes "cce_PayloadStatus e = Normal" "stale < cce_CommitTs e" "cce_CommitTs e \<le> ts"
  shows "let (installed, e') = commit_write rp True recycle True ini op_type stale val e
         in \<not> installed \<and> \<not> mv_inv e' \<and>
            read_at ts e = \<lparr>payload_ptr = cur_payload e, payload_status = Normal, result_ts = cce_CommitTs e\<rparr> \<and>
            read_at ts e' = \<lparr>payload_ptr = None, payload_status = Normal, result_ts = cce_CommitTs e\<rparr>"
proof -
  define e1 where "e1 = (if rp \<and> (cce_CommitTs e = 1 \<or> cce_CommitTs e = 0 \<and> op_type = OpInsert)
    then e\<lparr>data_store_size := 0\<rparr> else e)"
  define e2 where "e2 = ArchiveBeforeUpdate (KickOutArchiveRecords recycle e1)"
  have sel: "cce_PayloadStatus e2 = Normal" "cce_CommitTs e2 = cce_CommitTs e" "cce_PayloadStatus e1 = Normal"
    using assms by (simp_all add: e1_def e2_def)
  have "cur_payload e2 = None"
    using sel by (simp add: e2_def ArchiveBeforeUpdate_def Let_def)
  moreover have "archive_list e2 = versions (KickOutArchiveRecords recycle e1)"
    using sel by (simp add: e2_def archive_Before)
  moreover have "commit_write rp True recycle True ini op_type stale val e = (False, e2)"
    using sel assms unfolding commit_write_def Let_def e1_def [symmetric] by (simp add: e2_def [symmetric])
  moreover have "cce_CommitTs e1 = cce_CommitTs e" by (simp add: e1_def)
  ultimately show ?thesis
    using sel assms by (simp add: read_at_find versions_known answer_def mv_inv_def newer_than_def)
qed

theorem stale_upload_loses_payload_witness:
  "payload_ptr (read_at 10 sample_entry) = Some 90 \<and>
   payload_ptr (read_at 10 (snd (commit_write False True 1 True False OpUpsert 6 (Some 60) sample_entry))) = None"
  using stale_upload_loses_payload [of sample_entry 6 10 False 1 False OpUpsert "Some 60"]
  by (simp add: case_prod_beta) (simp add: sample_entry_def)

end
