(* ===== verification/Ckpt_Export.thy ===== *)
theory Ckpt_Export
  imports Mvcc_Properties
begin

text \<open>
  What a checkpoint takes from an entry: \<open>FlushRecord\<close> and \<open>CcEntry::ExportForCkpt\<close> of
  \<open>include/cc/cc_entry.h\<close>, with \<open>BlobTxRecord\<close> of \<open>include/tx_record.h\<close>. The caller passes a vector
  of preallocated base-table slots it reuses between batches and the index of the next free one; the
  archive vector grows. The sizes, the serialization and the time to live of keys and payloads
  belong to the key and record types, so they are the fields of \<open>flush_env\<close>. The compile-time flag
  \<open>RANGE_PARTITION_ENABLED\<close> and the template parameter \<open>VersionedRecord\<close> are boolean arguments. A
  slot beyond the vector is undefined behaviour in the code, where the caller keeps a free slot: here
  reading it gives a fresh record and writing it leaves the vector as it is, so that a statement about the
  written slot says something only if the slot is inside the vector.
\<close>

section \<open>Flush records\<close>

record BlobTxRecord =
  blob_value :: string
  blob_ttl :: u64

definition BlobTxRecord_new :: BlobTxRecord where
  "BlobTxRecord_new = \<lparr>blob_value = [], blob_ttl = - 1\<rparr>"

definition HasTTL :: "BlobTxRecord \<Rightarrow> bool" where
  "HasTTL b \<longleftrightarrow> blob_ttl b \<noteq> - 1"

definition SetTTL :: "u64 \<Rightarrow> BlobTxRecord \<Rightarrow> BlobTxRecord" where
  "SetTTL ttl b = b\<lparr>blob_ttl := ttl\<rparr>"

datatype 'v flush_payload = Shared "'v option" | Blob BlobTxRecord

datatype 'k flush_key = FlushTxKey "'k option" | KeyIndex nat

record ('k, 'v, 'c) FlushRecord =
  fr_payload :: "'v flush_payload"
  fr_key :: "'k flush_key"
  fr_status :: RecordStatus
  post_flush_size :: "32 word"
  fr_commit_ts :: u64
  fr_cce :: "'c option"
  partition_id :: int

definition FlushRecord_new :: "('k, 'v, 'c) FlushRecord" where
  "FlushRecord_new = \<lparr>fr_payload = Shared None, fr_key = FlushTxKey None, fr_status = Unknown,
     post_flush_size = 0, fr_commit_ts = 1, fr_cce = None, partition_id = - 1\<rparr>"

record ('k, 'v) flush_env =
  key_Size :: "'k \<Rightarrow> nat"
  key_MemUsage :: "'k option \<Rightarrow> nat"
  rec_Size :: "'v \<Rightarrow> nat"
  rec_Serialize :: "'v \<Rightarrow> string"
  rec_TTL :: "'v \<Rightarrow> u64 option"
  sizeof_payload :: nat
  sizeof_blob :: nat
  sizeof_idx :: nat

definition CloneOrCopyKey :: "'k \<Rightarrow> ('k, 'v, 'c) FlushRecord \<Rightarrow> ('k, 'v, 'c) FlushRecord" where
  "CloneOrCopyKey k r = r\<lparr>fr_key := FlushTxKey (Some k)\<rparr>"

definition SetKeyIndex :: "nat \<Rightarrow> ('k, 'v, 'c) FlushRecord \<Rightarrow> ('k, 'v, 'c) FlushRecord" where
  "SetKeyIndex offset r = r\<lparr>fr_key := KeyIndex offset\<rparr>"

definition SetVersionedPayload :: "'v option \<Rightarrow> ('k, 'v, 'c) FlushRecord \<Rightarrow> ('k, 'v, 'c) FlushRecord" where
  "SetVersionedPayload p r = r\<lparr>fr_payload := Shared p\<rparr>"

definition SetNonVersionedPayload ::
    "('k, 'v) flush_env \<Rightarrow> 'v option \<Rightarrow> ('k, 'v, 'c) FlushRecord \<Rightarrow> ('k, 'v, 'c) FlushRecord" where
  "SetNonVersionedPayload E p r =
     (let b = (case fr_payload r of Shared _ \<Rightarrow> BlobTxRecord_new | Blob b \<Rightarrow> b\<lparr>blob_value := []\<rparr>);
          b1 = (case p of None \<Rightarrow> b
                | Some v \<Rightarrow> (let b' = b\<lparr>blob_value := blob_value b @ rec_Serialize E v\<rparr>
                            in case rec_TTL E v of None \<Rightarrow> b' | Some ttl \<Rightarrow> SetTTL ttl b'))
      in r\<lparr>fr_payload := Blob b1\<rparr>)"

definition fr_PayloadSize :: "('k, 'v) flush_env \<Rightarrow> ('k, 'v, 'c) FlushRecord \<Rightarrow> nat" where
  "fr_PayloadSize E r =
     (case fr_payload r of Shared None \<Rightarrow> 0 | Shared (Some v) \<Rightarrow> rec_Size E v
      | Blob b \<Rightarrow> length (blob_value b))"

definition fr_MemUsage :: "('k, 'v) flush_env \<Rightarrow> ('k, 'v, 'c) FlushRecord \<Rightarrow> nat" where
  "fr_MemUsage E r =
     (case fr_key r of FlushTxKey k \<Rightarrow> key_MemUsage E k | KeyIndex _ \<Rightarrow> sizeof_idx E) +
     (case fr_payload r of Blob b \<Rightarrow> sizeof_blob E + length (blob_value b) | Shared _ \<Rightarrow> sizeof_payload E)"

section \<open>ExportForCkpt\<close>

record ('k, 'v, 'c) export_state =
  ckpt_vec :: "('k, 'v, 'c) FlushRecord list"
  ckpt_vec_size :: nat
  akv_vec :: "('k, 'v, 'c) FlushRecord list"
  mv_base_vec :: "nat list"
  mem_usage :: nat
  exported_count :: nat
  ex_cce :: "'v CcEntry"

record export_flags =
  range_partition :: bool
  versioned_record :: bool
  standby_shared :: bool
  mvcc_enabled :: bool
  export_persisted_item_to_ckpt_vec :: bool
  export_base_table_item_only :: bool
  export_persisted_key_only :: bool

definition slot :: "('k, 'v, 'c) export_state \<Rightarrow> ('k, 'v, 'c) FlushRecord" where
  "slot st = (if ckpt_vec_size st < length (ckpt_vec st) then ckpt_vec st ! ckpt_vec_size st
              else FlushRecord_new)"

text \<open>
  \<open>ref.MemUsage()\<close> depends on the key and the payload only, so it may be read from the finished
  record. A record of the archive vector names its key by the index of the base-table slot.
\<close>

definition export_base ::
    "('k, 'v) flush_env \<Rightarrow> ('k, 'v, 'c) FlushRecord \<Rightarrow> ('k, 'v, 'c) export_state \<Rightarrow> ('k, 'v, 'c) export_state" where
  "export_base E r st =
     st\<lparr>ckpt_vec := (ckpt_vec st)[ckpt_vec_size st := r], ckpt_vec_size := ckpt_vec_size st + 1,
        mem_usage := mem_usage st + fr_MemUsage E r, exported_count := exported_count st + 1\<rparr>"

definition export_archive ::
    "('k, 'v) flush_env \<Rightarrow> ('k, 'v, 'c) FlushRecord \<Rightarrow> ('k, 'v, 'c) export_state \<Rightarrow> ('k, 'v, 'c) export_state" where
  "export_archive E r st =
     st\<lparr>akv_vec := akv_vec st @ [r], mem_usage := mem_usage st + fr_MemUsage E r,
        exported_count := exported_count st + 1\<rparr>"

definition mark_being_ckpt :: "('k, 'v, 'c) export_state \<Rightarrow> ('k, 'v, 'c) export_state" where
  "mark_being_ckpt st = st\<lparr>ex_cce := (ex_cce st)\<lparr>entry_info := SetBeingCkpt (entry_info (ex_cce st))\<rparr>\<rparr>"

definition normal_payload :: "'v VersionRecord \<Rightarrow> 'v option" where
  "normal_payload v = (if vr_status v = Normal then vr_payload v else None)"

definition export_persisted ::
    "('k, 'v) flush_env \<Rightarrow> export_flags \<Rightarrow> 'k \<Rightarrow> u64 \<Rightarrow> ('k, 'v, 'c) export_state \<Rightarrow> ('k, 'v, 'c) export_state" where
  "export_persisted E F key to_ts st =
     (let e = ex_cce st; commit_ts = cce_CommitTs e; rec_status = cce_PayloadStatus e;
          wanted = (commit_ts \<noteq> 1 \<and> commit_ts \<le> to_ts \<and> (rec_status = Normal \<or> rec_status = Deleted));
          ref = (CloneOrCopyKey key (slot st))\<lparr>fr_cce := None, fr_status := rec_status, fr_commit_ts := commit_ts\<rparr>
      in if export_persisted_item_to_ckpt_vec F \<and> wanted
         then let ref = SetVersionedPayload (if rec_status = Normal then cur_payload e else None) ref
              in export_base E (ref\<lparr>post_flush_size :=
                   (if rec_status = Normal then of_nat (key_Size E key + fr_PayloadSize E ref) else 0)\<rparr>) st
         else if export_persisted_key_only F \<and> wanted
         then export_base E (ref\<lparr>post_flush_size :=
                (if rec_status = Normal
                 then of_nat (key_Size E key + (case cur_payload e of None \<Rightarrow> 0 | Some v \<Rightarrow> rec_Size E v))
                 else 0)\<rparr>) st
         else st)"

definition current_ref ::
    "('k, 'v) flush_env \<Rightarrow> export_flags \<Rightarrow> 'c \<Rightarrow> 'k \<Rightarrow> 'v CcEntry \<Rightarrow> ('k, 'v, 'c) FlushRecord \<Rightarrow> ('k, 'v, 'c) FlushRecord" where
  "current_ref E F this key e r =
     (let rec_status = cce_PayloadStatus e;
          payload = (if rec_status = Normal then cur_payload e else None);
          ref = (CloneOrCopyKey key r)\<lparr>fr_cce := Some this\<rparr>;
          ref = (if versioned_record F then SetVersionedPayload payload ref
                 else SetNonVersionedPayload E payload ref);
          ref = ref\<lparr>fr_status := rec_status, fr_commit_ts := cce_CommitTs e\<rparr>
      in if range_partition F
         then ref\<lparr>post_flush_size :=
           (if rec_status \<noteq> Deleted then of_nat (key_Size E key + fr_PayloadSize E ref) else 0)\<rparr>
         else ref)"

definition export_current ::
    "('k, 'v) flush_env \<Rightarrow> export_flags \<Rightarrow> 'c \<Rightarrow> 'k \<Rightarrow> u64 \<Rightarrow> ('k, 'v, 'c) export_state \<Rightarrow> ('k, 'v, 'c) export_state" where
  "export_current E F this key to_ts st =
     (if \<not> versioned_record F \<or> cce_CommitTs (ex_cce st) \<le> to_ts
      then export_base E (current_ref E F this key (ex_cce st) (slot st)) (mark_being_ckpt st)
      else st)"

definition archive_ref ::
    "'c \<Rightarrow> nat \<Rightarrow> 'v VersionRecord \<Rightarrow> ('k, 'v, 'c) FlushRecord" where
  "archive_ref this ckpt_idx v =
     (SetVersionedPayload (normal_payload v) (SetKeyIndex ckpt_idx FlushRecord_new))
       \<lparr>fr_cce := Some this, fr_status := vr_status v, fr_commit_ts := vr_commit_ts v\<rparr>"

definition base_ref ::
    "'k \<Rightarrow> 'v VersionRecord \<Rightarrow> ('k, 'v, 'c) FlushRecord \<Rightarrow> ('k, 'v, 'c) FlushRecord" where
  "base_ref key v r =
     (SetVersionedPayload (normal_payload v) (CloneOrCopyKey key r))
       \<lparr>fr_status := vr_status v, fr_commit_ts := vr_commit_ts v\<rparr>"

text \<open>The archived version that equals the checkpoint timestamp: it is in the base table already.\<close>

definition export_at_ckpt ::
    "('k, 'v) flush_env \<Rightarrow> export_flags \<Rightarrow> 'c \<Rightarrow> 'k \<Rightarrow> nat \<Rightarrow> 'v VersionRecord \<Rightarrow> ('k, 'v, 'c) export_state
     \<Rightarrow> ('k, 'v, 'c) export_state" where
  "export_at_ckpt E F this key ckpt_idx v st =
     (if exported_count st \<noteq> 0 then export_archive E (archive_ref this ckpt_idx v) (mark_being_ckpt st)
      else if export_persisted_item_to_ckpt_vec F
      then let ref = (base_ref key v (slot st))\<lparr>fr_cce := None\<rparr>
           in export_base E (ref\<lparr>post_flush_size :=
                (if vr_status v = Normal then of_nat (key_Size E key + fr_PayloadSize E ref) else 0)\<rparr>) st
      else if range_partition F \<and> export_persisted_key_only F
      then export_base E ((CloneOrCopyKey key (slot st))\<lparr>fr_cce := None, fr_status := vr_status v,
             fr_commit_ts := vr_commit_ts v, post_flush_size :=
               (if vr_status v = Normal
                then of_nat (key_Size E key + (case vr_payload v of None \<Rightarrow> 0 | Some p \<Rightarrow> rec_Size E p))
                else 0)\<rparr>) st
      else st)"

text \<open>An archived version newer than the checkpoint timestamp.\<close>

definition export_newer ::
    "('k, 'v) flush_env \<Rightarrow> export_flags \<Rightarrow> 'c \<Rightarrow> 'k \<Rightarrow> nat \<Rightarrow> 'v VersionRecord \<Rightarrow> ('k, 'v, 'c) export_state
     \<Rightarrow> ('k, 'v, 'c) export_state" where
  "export_newer E F this key ckpt_idx v st =
     (if exported_count st = 0
      then let ref = (base_ref key v (slot st))\<lparr>fr_cce := Some this\<rparr>;
               ref = (if range_partition F
                      then ref\<lparr>post_flush_size :=
                        (if vr_status v = Normal then of_nat (key_Size E key + fr_PayloadSize E ref) else 0)\<rparr>
                      else ref)
           in export_base E ref (mark_being_ckpt st)
      else export_archive E (archive_ref this ckpt_idx v) (mark_being_ckpt st))"

fun export_archives ::
    "('k, 'v) flush_env \<Rightarrow> export_flags \<Rightarrow> 'c \<Rightarrow> 'k \<Rightarrow> nat \<Rightarrow> u64 \<Rightarrow> u64 \<Rightarrow> 'v VersionRecord list
     \<Rightarrow> ('k, 'v, 'c) export_state \<Rightarrow> ('k, 'v, 'c) export_state" where
  "export_archives E F this key ckpt_idx to_ts last_ckpt [] st = st"
| "export_archives E F this key ckpt_idx to_ts last_ckpt (v # vs) st =
     (if vr_commit_ts v \<le> to_ts
      then if vr_commit_ts v < last_ckpt \<or> vr_commit_ts v = 1 then st
           else if vr_commit_ts v = last_ckpt then export_at_ckpt E F this key ckpt_idx v st
           else export_archives E F this key ckpt_idx to_ts last_ckpt vs (export_newer E F this key ckpt_idx v st)
      else export_archives E F this key ckpt_idx to_ts last_ckpt vs st)"

definition export_mv_base ::
    "('k, 'v) flush_env \<Rightarrow> nat \<Rightarrow> u64 \<Rightarrow> u64 \<Rightarrow> ('k, 'v, 'c) export_state \<Rightarrow> ('k, 'v, 'c) export_state" where
  "export_mv_base E ckpt_idx oldest_active_tx_ts last_ckpt st =
     (if exported_count st > 0 \<and> last_ckpt = 0 \<and> \<not> HasVisibleVersion oldest_active_tx_ts (ex_cce st)
      then st\<lparr>mv_base_vec := mv_base_vec st @ [ckpt_idx], mem_usage := mem_usage st + sizeof_idx E\<rparr>
      else st)"

definition ExportForCkpt ::
    "('k, 'v) flush_env \<Rightarrow> export_flags \<Rightarrow> 'c \<Rightarrow> 'k \<Rightarrow> u64 \<Rightarrow> u64 \<Rightarrow> ('k, 'v, 'c) export_state
     \<Rightarrow> ('k, 'v, 'c) export_state" where
  "ExportForCkpt E F this key to_ts oldest_active_tx_ts st =
     (let st0 = st\<lparr>exported_count := 0\<rparr>
      in if versioned_record F \<and> IsPersistent True (standby_shared F) (entry_info (ex_cce st))
         then export_persisted E F key to_ts st0
         else let ckpt_idx = ckpt_vec_size st;
                  st1 = export_current E F this key to_ts st0
              in if \<not> mvcc_enabled F \<or> export_base_table_item_only F \<or> \<not> versioned_record F then st1
                 else let last_ckpt = cce_CkptTs (ex_cce st);
                          arch = (case archives (ex_cce st) of None \<Rightarrow> [] | Some a \<Rightarrow> a)
                      in export_mv_base E ckpt_idx oldest_active_tx_ts last_ckpt
                           (export_archives E F this key ckpt_idx to_ts last_ckpt arch st1))"

end
