(* ===== verification/Ckpt_Properties.thy ===== *)
theory Ckpt_Properties
  imports Ckpt_Export
begin

text \<open>
  What a checkpoint exports of a versioned entry: the newest version up to the checkpoint's timestamp
  goes to the base table, every other version it has not flushed before goes to the archive table,
  and nothing else does.
\<close>

section \<open>The archive loop\<close>

definition unflushed :: "u64 \<Rightarrow> u64 \<Rightarrow> 'v VersionRecord \<Rightarrow> bool" where
  "unflushed to_ts last_ckpt v \<longleftrightarrow> vr_commit_ts v \<le> to_ts \<and> last_ckpt < vr_commit_ts v \<and> vr_commit_ts v \<noteq> 1"

definition in_base :: "u64 \<Rightarrow> u64 \<Rightarrow> 'v VersionRecord \<Rightarrow> bool" where
  "in_base to_ts last_ckpt v \<longleftrightarrow> vr_commit_ts v \<le> to_ts \<and> last_ckpt = vr_commit_ts v \<and> vr_commit_ts v \<noteq> 1"

text \<open>The record \<open>r\<close> carries the version \<open>v\<close> of the entry \<open>this\<close> for the base table.\<close>

definition carries :: "'c \<Rightarrow> 'k \<Rightarrow> 'v VersionRecord \<Rightarrow> ('k, 'v, 'c) FlushRecord \<Rightarrow> bool" where
  "carries this key v r \<longleftrightarrow> fr_key r = FlushTxKey (Some key) \<and> fr_cce r = Some this \<and>
     fr_payload r = Shared (normal_payload v) \<and> fr_status r = vr_status v \<and> fr_commit_ts r = vr_commit_ts v"

lemma export_sel [simp]:
  "ckpt_vec (export_archive E r st) = ckpt_vec st"
  "ckpt_vec_size (export_archive E r st) = ckpt_vec_size st"
  "akv_vec (export_archive E r st) = akv_vec st @ [r]"
  "exported_count (export_archive E r st) = Suc (exported_count st)"
  "ckpt_vec (export_base E r st) = (ckpt_vec st)[ckpt_vec_size st := r]"
  "ckpt_vec_size (export_base E r st) = Suc (ckpt_vec_size st)"
  "akv_vec (export_base E r st) = akv_vec st"
  "exported_count (export_base E r st) = Suc (exported_count st)"
  "ckpt_vec (mark_being_ckpt st) = ckpt_vec st"
  "ckpt_vec_size (mark_being_ckpt st) = ckpt_vec_size st"
  "akv_vec (mark_being_ckpt st) = akv_vec st"
  "exported_count (mark_being_ckpt st) = exported_count st"
  "ckpt_vec (export_mv_base E i o' l st) = ckpt_vec st"
  "ckpt_vec_size (export_mv_base E i o' l st) = ckpt_vec_size st"
  "akv_vec (export_mv_base E i o' l st) = akv_vec st"
  "exported_count (export_mv_base E i o' l st) = exported_count st"
  by (simp_all add: export_archive_def export_base_def mark_being_ckpt_def export_mv_base_def)

lemma sorted_below:
  "sorted_wrt newer_than (v # vs) \<Longrightarrow> vr_commit_ts v \<le> c \<Longrightarrow> w \<in> set vs \<Longrightarrow> vr_commit_ts w < c"
  by (auto simp: newer_than_def)

lemma filter_below:
  assumes "sorted_wrt newer_than (v # vs)" "vr_commit_ts v \<le> last_ckpt"
  shows "filter (unflushed to_ts last_ckpt) vs = []" "filter (in_base to_ts last_ckpt) vs = []"
  using sorted_below [OF assms] by (auto simp: filter_empty_conv unflushed_def in_base_def dest: order.asym)

lemma filter_below_one:
  assumes "sorted_wrt newer_than (v # vs)" "vr_commit_ts v = 1" "\<forall>v \<in> set vs. 0 < vr_commit_ts v"
  shows "vs = []"
  using sorted_below [OF assms(1), of 1] assms(2,3) by (cases vs) (auto simp: word_less_1)

text \<open>Once something is exported, all further versions go to the archive table.\<close>

lemma export_archives_rest:
  assumes "sorted_wrt newer_than vs" "\<forall>v \<in> set vs. 0 < vr_commit_ts v" "exported_count st \<noteq> 0"
  shows "ckpt_vec (export_archives E F this key i to_ts c vs st) = ckpt_vec st \<and>
    ckpt_vec_size (export_archives E F this key i to_ts c vs st) = ckpt_vec_size st \<and>
    akv_vec (export_archives E F this key i to_ts c vs st) = akv_vec st @
      map (archive_ref this i) (filter (unflushed to_ts c) vs @ filter (in_base to_ts c) vs) \<and>
    exported_count (export_archives E F this key i to_ts c vs st) = exported_count st +
      length (filter (unflushed to_ts c) vs @ filter (in_base to_ts c) vs)"
  using assms
proof (induction vs arbitrary: st)
  case (Cons v vs)
  let ?st = "export_newer E F this key i v st"
  have step: "exported_count ?st = Suc (exported_count st)" "ckpt_vec ?st = ckpt_vec st"
      "ckpt_vec_size ?st = ckpt_vec_size st" "akv_vec ?st = akv_vec st @ [archive_ref this i v]"
    using Cons.prems by (simp_all add: export_newer_def)
  consider (late) "\<not> vr_commit_ts v \<le> to_ts" | (old) "vr_commit_ts v \<le> to_ts" "vr_commit_ts v \<le> c"
    | (one) "vr_commit_ts v \<le> to_ts" "vr_commit_ts v = 1" | (new) "vr_commit_ts v \<le> to_ts" "c < vr_commit_ts v" "vr_commit_ts v \<noteq> 1"
    by fastforce
  then show ?case
  proof cases
    case late
    then have "\<not> unflushed to_ts c v" "\<not> in_base to_ts c v" by (simp_all add: unflushed_def in_base_def)
    then show ?thesis using Cons late by simp
  next
    case old
    then have "\<not> unflushed to_ts c v" "in_base to_ts c v \<longleftrightarrow> vr_commit_ts v = c \<and> vr_commit_ts v \<noteq> 1"
      by (auto simp: unflushed_def in_base_def not_less)
    moreover have "vr_commit_ts v < c \<or> vr_commit_ts v = 1" if "\<not> (vr_commit_ts v = c \<and> vr_commit_ts v \<noteq> 1)"
      using old that by (auto simp: order.strict_iff_order)
    ultimately show ?thesis
      using filter_below [OF Cons.prems(1), of c to_ts] Cons.prems(3) old
      by (cases "vr_commit_ts v = c \<and> vr_commit_ts v \<noteq> 1") (simp_all add: export_at_ckpt_def, auto)
  next
    case one
    then have "vs = []" using filter_below_one [OF Cons.prems(1)] Cons.prems(2) by simp
    then show ?thesis using one by (simp add: unflushed_def in_base_def)
  next
    case new
    then have "filter (in_base to_ts c) (v # vs) = filter (in_base to_ts c) vs"
        "filter (unflushed to_ts c) (v # vs) = v # filter (unflushed to_ts c) vs"
      by (auto simp: in_base_def unflushed_def)
    then show ?thesis
      using new Cons.IH [of ?st] Cons.prems step order.asym [of c "vr_commit_ts v"] by auto
  qed
qed simp

text \<open>With nothing exported yet, the first unflushed version goes to the base table.\<close>

lemma export_archives_first:
  assumes "sorted_wrt newer_than vs" "\<forall>v \<in> set vs. 0 < vr_commit_ts v" "exported_count st = 0"
    and "filter (unflushed to_ts c) vs = b # rest" "i = ckpt_vec_size st"
  shows "(\<exists>r. carries this key b r \<and>
      ckpt_vec (export_archives E F this key i to_ts c vs st) = (ckpt_vec st)[ckpt_vec_size st := r]) \<and>
    ckpt_vec_size (export_archives E F this key i to_ts c vs st) = Suc (ckpt_vec_size st) \<and>
    akv_vec (export_archives E F this key i to_ts c vs st) = akv_vec st @
      map (archive_ref this i) (rest @ filter (in_base to_ts c) vs) \<and>
    exported_count (export_archives E F this key i to_ts c vs st) =
      length (b # rest @ filter (in_base to_ts c) vs)"
  using assms
proof (induction vs)
  case (Cons v vs)
  show ?case
  proof (cases "unflushed to_ts c v")
    case True
    let ?st = "export_newer E F this key i v st"
    obtain r where r: "ckpt_vec ?st = (ckpt_vec st)[ckpt_vec_size st := r]" "carries this key v r"
      using Cons.prems(3)
      by (auto simp: export_newer_def Let_def carries_def base_ref_def SetVersionedPayload_def CloneOrCopyKey_def)
    have "\<not> in_base to_ts c v" using True by (auto simp: unflushed_def in_base_def)
    moreover have "v = b" "rest = filter (unflushed to_ts c) vs" using True Cons.prems(4) by simp_all
    moreover have "exported_count ?st = 1" "ckpt_vec_size ?st = Suc (ckpt_vec_size st)" "akv_vec ?st = akv_vec st"
      using Cons.prems(3) by (simp_all add: export_newer_def Let_def)
    moreover have "export_archives E F this key i to_ts c (v # vs) st = export_archives E F this key i to_ts c vs ?st"
      using True order.asym [of c "vr_commit_ts v"] by (auto simp: unflushed_def)
    ultimately show ?thesis
      using export_archives_rest [of vs ?st E F this key i to_ts c] Cons.prems r by auto
  next
    case False
    have "filter (unflushed to_ts c) vs = b # rest" using Cons.prems(4) False by simp
    then have "c < vr_commit_ts v" "vr_commit_ts v \<noteq> 1"
      using filter_below(1) [OF Cons.prems(1), of c to_ts] filter_below_one [OF Cons.prems(1)] Cons.prems(2)
      by (auto simp flip: not_le)
    then have late: "\<not> vr_commit_ts v \<le> to_ts" using False by (simp add: unflushed_def)
    then have "\<not> in_base to_ts c v" by (simp add: in_base_def)
    then show ?thesis using late False Cons by simp
  qed
qed simp

section \<open>The export of an entry\<close>

definition export_ready :: "export_flags \<Rightarrow> 'v CcEntry \<Rightarrow> bool" where
  "export_ready F e \<longleftrightarrow> versioned_record F \<and> \<not> standby_shared F \<and> mvcc_enabled F \<and>
     \<not> export_base_table_item_only F \<and> cce_PayloadStatus e \<noteq> Unknown \<and> mv_inv e \<and>
     cce_CkptTs e < cce_CommitTs e \<and> 1 < cce_CommitTs e \<and> (\<forall>v \<in> set (versions e). 0 < vr_commit_ts v)"

lemma export_ready_D:
  assumes "export_ready F e"
  shows "sorted_wrt newer_than (archive_list e)" "\<forall>v \<in> set (archive_list e). 0 < vr_commit_ts v"
    "versions e = current_version e # archive_list e"
    "unflushed to_ts (cce_CkptTs e) (current_version e) \<longleftrightarrow> cce_CommitTs e \<le> to_ts"
    "\<not> IsPersistent True (standby_shared F) (entry_info e)"
  using assms
  by (auto simp: export_ready_def mv_inv_def versions_known unflushed_def IsPersistent_def cce_CkptTs_def
      cce_CommitTs_def)

lemma ExportForCkpt_ready:
  assumes "export_ready F (ex_cce st)"
  shows "ExportForCkpt E F this key to_ts oldest st =
    export_mv_base E (ckpt_vec_size st) oldest (cce_CkptTs (ex_cce st))
      (export_archives E F this key (ckpt_vec_size st) to_ts (cce_CkptTs (ex_cce st)) (archive_list (ex_cce st))
        (export_current E F this key to_ts (st\<lparr>exported_count := 0\<rparr>)))"
  using assms export_ready_D(5) [OF assms]
  by (simp add: ExportForCkpt_def export_ready_def Let_def archive_list_def)

lemma current_ref_carries:
  "versioned_record F \<Longrightarrow> carries this key (current_version e) (current_ref E F this key e r)"
  by (simp add: carries_def current_ref_def SetVersionedPayload_def CloneOrCopyKey_def normal_payload_def Let_def)

lemma export_current_carries:
  assumes "export_ready F (ex_cce st)" "cce_CommitTs (ex_cce st) \<le> to_ts" "exported_count st = 0"
  shows "\<exists>r. carries this key (current_version (ex_cce st)) r \<and>
      ckpt_vec (export_current E F this key to_ts st) = (ckpt_vec st)[ckpt_vec_size st := r]"
    and "ckpt_vec_size (export_current E F this key to_ts st) = Suc (ckpt_vec_size st)"
      "akv_vec (export_current E F this key to_ts st) = akv_vec st"
      "exported_count (export_current E F this key to_ts st) = 1"
  using assms current_ref_carries [of F this key "ex_cce st" E "slot st"]
  by (auto simp: export_current_def export_ready_def)

text \<open>
  C17: A checkpoint up to \<open>to_ts\<close> exports every version it owes and no other. For a versioned entry with
  ordered versions whose current version is not flushed, let \<open>b # rest\<close> be the versions in memory that
  are not newer than \<open>to_ts\<close> and newer than the last checkpoint. Then \<open>b\<close>, the newest, is written to the
  next base-table slot with its key, payload, status and timestamp; \<open>rest\<close> and the archived version
  the base table holds now (it is about to be overwritten) are appended to the archive vector in
  order, each naming that slot for its key; and the count is the number of these records.
\<close>
theorem ExportForCkpt_exact:
  assumes ready: "export_ready F (ex_cce st)"
    and todo: "filter (unflushed to_ts (cce_CkptTs (ex_cce st))) (versions (ex_cce st)) = b # rest"
  shows "let st' = ExportForCkpt E F this key to_ts oldest st;
             arch = rest @ filter (in_base to_ts (cce_CkptTs (ex_cce st))) (archive_list (ex_cce st))
         in (\<exists>r. carries this key b r \<and> ckpt_vec st' = (ckpt_vec st)[ckpt_vec_size st := r]) \<and>
            ckpt_vec_size st' = Suc (ckpt_vec_size st) \<and>
            akv_vec st' = akv_vec st @ map (archive_ref this (ckpt_vec_size st)) arch \<and>
            exported_count st' = length (b # arch)"
proof -
  let ?e = "ex_cce st" and ?st0 = "st\<lparr>exported_count := 0\<rparr>"
  let ?st1 = "export_current E F this key to_ts ?st0"
  note D = export_ready_D [OF ready]
  show ?thesis
  proof (cases "cce_CommitTs ?e \<le> to_ts")
    case True
    then have "b = current_version ?e" "rest = filter (unflushed to_ts (cce_CkptTs ?e)) (archive_list ?e)"
      using todo D(3,4) by simp_all
    moreover obtain r where "carries this key (current_version ?e) r"
        "ckpt_vec ?st1 = (ckpt_vec st)[ckpt_vec_size st := r]"
      using export_current_carries(1) [of F ?st0 to_ts this key E] ready True by auto
    moreover have "ckpt_vec_size ?st1 = Suc (ckpt_vec_size st)" "akv_vec ?st1 = akv_vec st" "exported_count ?st1 = 1"
      using export_current_carries(2-4) [of F ?st0 to_ts E this key] ready True by simp_all
    ultimately show ?thesis
      using export_archives_rest [OF D(1,2), of ?st1 E F this key "ckpt_vec_size st" to_ts "cce_CkptTs ?e"]
      by (auto simp: Let_def ExportForCkpt_ready [OF ready])
  next
    case False
    then have "?st1 = ?st0" "filter (unflushed to_ts (cce_CkptTs ?e)) (archive_list ?e) = b # rest"
      using todo D(3,4) ready by (simp_all add: export_current_def export_ready_def)
    then show ?thesis
      using export_archives_first [OF D(1,2), of ?st0 to_ts "cce_CkptTs ?e" b rest "ckpt_vec_size st" this key E F]
      by (simp add: Let_def ExportForCkpt_ready [OF ready])
  qed
qed

definition sample_flags :: export_flags where
  "sample_flags = \<lparr>range_partition = False, versioned_record = True, standby_shared = False,
     mvcc_enabled = True, export_persisted_item_to_ckpt_vec = False,
     export_base_table_item_only = False, export_persisted_key_only = False\<rparr>"

definition sample_env :: "(nat, nat) flush_env" where
  "sample_env = \<lparr>key_Size = (\<lambda>_. 0), key_MemUsage = (\<lambda>_. 0), rec_Size = (\<lambda>_. 1), rec_Serialize = (\<lambda>_. ''v''),
      rec_TTL = (\<lambda>_. None), sizeof_payload = 0, sizeof_blob = 0, sizeof_idx = 8\<rparr>"

definition sample_export :: "(nat, nat, nat) export_state" where
  "sample_export = \<lparr>ckpt_vec = [FlushRecord_new, FlushRecord_new], ckpt_vec_size = 1, akv_vec = [],
     mv_base_vec = [], mem_usage = 0, exported_count = 0, ex_cce = sample_entry\<rparr>"

theorem ExportForCkpt_exact_witness:
  "map fr_commit_ts (akv_vec (ExportForCkpt sample_env sample_flags 3 5 8 8 sample_export)) = [4] \<and>
   exported_count (ExportForCkpt sample_env sample_flags 3 5 10 8 sample_export) = 3"
proof -
  have ready: "export_ready sample_flags (ex_cce sample_export)"
    by (simp add: export_ready_def sample_flags_def sample_export_def)
  have arch: "archive_list sample_entry = [\<lparr>vr_payload = None, vr_commit_ts = 7, vr_status = Deleted\<rparr>,
     \<lparr>vr_payload = Some 40, vr_commit_ts = 4, vr_status = Normal\<rparr>]"
    by (simp add: archive_list_def sample_entry_def)
  show ?thesis
    using ExportForCkpt_exact [OF ready, of 8 _ _ sample_env 3 5 8] ExportForCkpt_exact [OF ready, of 10 _ _ sample_env 3 5 8]
    by (simp add: sample_export_def unflushed_def in_base_def arch archive_ref_def Let_def)
qed

text \<open>
  C40: A record without a time to live inherits the one of the record that used its flush slot before.
  Exporting a non-versioned entry into a slot whose payload buffer was used clears the bytes but not
  the time to live, so a payload that has none is flushed with the previous record's.
\<close>
theorem flush_slot_keeps_ttl:
  assumes "fr_payload r = Blob \<lparr>blob_value = old, blob_ttl = t\<rparr>" "rec_TTL E v = None"
  shows "fr_payload (SetNonVersionedPayload E (Some v) r) =
           Blob \<lparr>blob_value = rec_Serialize E v, blob_ttl = t\<rparr>"
  using assms by (simp add: SetNonVersionedPayload_def Let_def)

theorem flush_slot_keeps_ttl_witness:
  "\<exists>b. fr_payload (SetNonVersionedPayload
     sample_env (Some 1)
     (FlushRecord_new\<lparr>fr_payload := Blob \<lparr>blob_value = ''x'', blob_ttl = 1000\<rparr>\<rparr>
        :: (nat, nat, nat) FlushRecord)) = Blob b \<and> HasTTL b"
  using flush_slot_keeps_ttl [of "FlushRecord_new\<lparr>fr_payload := Blob \<lparr>blob_value = ''x'', blob_ttl = 1000\<rparr>\<rparr>
        :: (nat, nat, nat) FlushRecord" "''x''" 1000
     sample_env 1]
  by (simp add: HasTTL_def sample_env_def)

end
