(* ===== verification/Txn_Cmd.thy ===== *)
theory Txn_Cmd
  imports Entry_Info
begin

text \<open>
  Buffered commands of an object (\<open>TxnCmd\<close> and \<open>BufferedTxnCmdList\<close> of \<open>include/tx_command.h\<close>) and
  their replay (\<open>TryCommitBufferedCommands\<close> and \<open>EmplaceAndCommitBufferedTxnCommand\<close> of
  \<open>include/cc/cc_entry.h\<close>). Log records reach a node in any order; a record says which version of the
  object it applies to, and waits in a list sorted by commit timestamp until that version is there.

  Commands are virtual: \<open>IsOverwrite\<close>, \<open>CreateObject\<close> and \<open>CommitOn\<close> are the fields of
  \<open>cmd_env\<close>. \<open>CommitOn\<close> returns the object after the command, \<open>None\<close> when it deletes it; whether
  it changed the object in place or allocated a new one makes no difference to the value kept.
  \<open>std::lower_bound\<close> is its result on the sorted list, the first element not below the key.
\<close>

section \<open>The buffer\<close>

record 'c TxnCmd =
  obj_version :: u64
  new_version :: u64
  ignore_previous_version :: bool
  cmd_list :: "'c list"

definition EmplaceTxnCmd :: "'c TxnCmd \<Rightarrow> 'c TxnCmd list \<Rightarrow> 'c TxnCmd list" where
  "EmplaceTxnCmd txn_cmd txn_cmd_list =
     (let below = (\<lambda>c. new_version c < new_version txn_cmd);
          before = takeWhile below txn_cmd_list;
          lb_it = dropWhile below txn_cmd_list
      in if lb_it \<noteq> [] \<and> new_version (hd lb_it) = new_version txn_cmd then txn_cmd_list
         else if ignore_previous_version txn_cmd then txn_cmd # lb_it
         else before @ txn_cmd # lb_it)"

section \<open>Replay\<close>

record ('v, 'c) cmd_env =
  IsOverwrite :: "'c \<Rightarrow> bool"
  CreateObject :: "'c \<Rightarrow> 'v"
  CommitOn :: "'c \<Rightarrow> 'v \<Rightarrow> 'v option"

definition apply_cmd :: "('v, 'c) cmd_env \<Rightarrow> 'c \<Rightarrow> 'v option \<Rightarrow> 'v option" where
  "apply_cmd E cmd payload =
     CommitOn E cmd (case payload of None \<Rightarrow> CreateObject E cmd | Some obj \<Rightarrow> obj)"

definition apply_txn :: "('v, 'c) cmd_env \<Rightarrow> 'c TxnCmd \<Rightarrow> 'v option \<Rightarrow> 'v option" where
  "apply_txn E t payload =
     (let payload1 = (case cmd_list t of [] \<Rightarrow> payload
                      | first_cmd # _ \<Rightarrow>
                          if ignore_previous_version t \<and> \<not> IsOverwrite E first_cmd then None else payload)
      in fold (apply_cmd E) (cmd_list t) payload1)"

fun TryCommitBufferedCommands ::
    "('v, 'c) cmd_env \<Rightarrow> 'c TxnCmd list \<Rightarrow> u64 \<Rightarrow> 'v option \<Rightarrow> 'c TxnCmd list \<times> u64 \<times> 'v option" where
  "TryCommitBufferedCommands E [] cur_ver payload = ([], cur_ver, payload)"
| "TryCommitBufferedCommands E (t # ts) cur_ver payload =
     (let cur_ver1 = (if ignore_previous_version t then obj_version t else cur_ver)
      in if obj_version t \<noteq> cur_ver1 then (t # ts, cur_ver1, payload)
         else TryCommitBufferedCommands E ts (new_version t) (apply_txn E t payload))"

text \<open>A non-versioned entry, with the command buffer of its lock structure.\<close>

record ('v, 'c) obj_entry =
  oe_info :: entry_info
  oe_payload :: "'v option"
  oe_cmds :: "'c TxnCmd list"

definition EmplaceAndCommitBufferedTxnCommand ::
    "('v, 'c) cmd_env \<Rightarrow> bool \<Rightarrow> 'c TxnCmd \<Rightarrow> ('v, 'c) obj_entry \<Rightarrow> ('v, 'c) obj_entry" where
  "EmplaceAndCommitBufferedTxnCommand E skip_kv txn_cmd e =
     (let cur_ver = CommitTs (oe_info e);
          status = PayloadStatus (oe_info e);
          try_commit = (ignore_previous_version txn_cmd \<or> status \<noteq> Unknown);
          cmds = EmplaceTxnCmd txn_cmd (oe_cmds e)
      in if try_commit
         then let (cmds', cur_ver', payload') = TryCommitBufferedCommands E cmds cur_ver (oe_payload e);
                  status' = (if payload' = None then Deleted else Normal)
              in \<lparr>oe_info = SetCommitTsPayloadStatus False skip_kv cur_ver' status' (oe_info e),
                  oe_payload = payload', oe_cmds = cmds'\<rparr>
         else e\<lparr>oe_info := SetCommitTsPayloadStatus False skip_kv cur_ver status (oe_info e),
                oe_cmds := cmds\<rparr>)"

section \<open>The buffer is sorted\<close>

definition by_version :: "'c TxnCmd list \<Rightarrow> bool" where
  "by_version = sorted_wrt (\<lambda>a b. new_version a < new_version b)"

lemma by_version_simps [simp]:
  "by_version []"
  "by_version (x # xs) \<longleftrightarrow> (\<forall>y \<in> set xs. new_version x < new_version y) \<and> by_version xs"
  "by_version (xs @ ys) \<longleftrightarrow> by_version xs \<and> by_version ys \<and>
     (\<forall>x \<in> set xs. \<forall>y \<in> set ys. new_version x < new_version y)"
  by (auto simp: by_version_def sorted_wrt_append)

lemma by_version_split:
  assumes "by_version xs"
  shows "v \<in> set (takeWhile (\<lambda>c. new_version c < k) xs) \<Longrightarrow> new_version v < k"
    and "v \<in> set (dropWhile (\<lambda>c. new_version c < k) xs) \<Longrightarrow> k \<le> new_version v"
  using assms
  by (auto dest: set_takeWhileD) (induction xs, auto simp: not_less less_imp_le split: if_splits)

text \<open>The sorted list is determined by its elements.\<close>

lemma by_version_unique:
  "by_version xs \<Longrightarrow> by_version ys \<Longrightarrow> set xs = set ys \<Longrightarrow> xs = ys"
proof (induction xs arbitrary: ys)
  case (Cons x xs)
  then obtain y ys' where ys: "ys = y # ys'" by (cases ys) auto
  have xy: "x = y"
  proof (rule ccontr)
    assume "x \<noteq> y"
    then have "x \<in> set ys'" "y \<in> set xs" using Cons.prems(3) ys by auto
    then have "new_version y < new_version x" "new_version x < new_version y"
      using Cons.prems(1,2) ys by auto
    then show False by simp
  qed
  moreover have "x \<notin> set xs" "y \<notin> set ys'"
    using Cons.prems ys by auto
  ultimately have "set xs = set ys'" using Cons.prems(3) ys by (simp add: insert_ident)
  then show ?case using Cons.IH [of ys'] Cons.prems(1,2) ys xy by simp
qed simp

definition stored :: "'c TxnCmd \<Rightarrow> 'c TxnCmd list \<Rightarrow> bool" where
  "stored t xs \<longleftrightarrow> new_version t \<in> new_version ` set xs"

lemma by_version_inj:
  "by_version xs \<Longrightarrow> x \<in> set xs \<Longrightarrow> y \<in> set xs \<Longrightarrow> new_version x = new_version y \<Longrightarrow> x = y"
  by (induction xs) auto

lemma emplace_sorted:
  assumes "by_version xs"
  shows "by_version (EmplaceTxnCmd t xs) \<and>
         set (EmplaceTxnCmd t xs) =
           (if stored t xs then set xs
            else insert t {c \<in> set xs. ignore_previous_version t \<longrightarrow> new_version t < new_version c})"
proof -
  let ?k = "new_version t"
  define pre where "pre = takeWhile (\<lambda>c. new_version c < ?k) xs"
  define lb where "lb = dropWhile (\<lambda>c. new_version c < ?k) xs"
  have xs: "xs = pre @ lb" by (simp add: pre_def lb_def)
  have split: "\<forall>c \<in> set pre. new_version c < ?k" "\<forall>c \<in> set lb. ?k \<le> new_version c"
    using by_version_split [OF assms] by (auto simp: pre_def lb_def)
  have res: "EmplaceTxnCmd t xs = (if lb \<noteq> [] \<and> new_version (hd lb) = ?k then xs
      else if ignore_previous_version t then t # lb else pre @ t # lb)"
    by (simp add: EmplaceTxnCmd_def pre_def lb_def Let_def)
  show ?thesis
  proof (cases "lb \<noteq> [] \<and> new_version (hd lb) = ?k")
    case True
    then have "hd lb \<in> set xs" using xs by simp
    then have "stored t xs"
      unfolding stored_def by (intro image_eqI [of _ _ "hd lb"]) (use True in simp_all)
    then show ?thesis using True assms by (simp add: res)
  next
    case False
    have above: "\<forall>c \<in> set lb. ?k < new_version c"
    proof (cases lb)
      case (Cons c cs)
      then have "?k < new_version c" using False split by (auto simp: order.strict_iff_order)
      then show ?thesis using assms xs Cons by auto
    qed simp
    then have "\<not> stored t xs" using split xs by (force simp: stored_def)
    moreover have "EmplaceTxnCmd t xs = (if ignore_previous_version t then t # lb else pre @ t # lb)"
      unfolding res if_not_P [OF False] ..
    moreover have ord: "by_version pre" "by_version lb" "\<forall>x \<in> set pre. \<forall>y \<in> set lb. new_version x < new_version y"
      using assms unfolding xs by_version_simps by blast+
    moreover have "{c \<in> set xs. new_version t < new_version c} = set lb"
      using above split(1) unfolding xs by (auto dest: order.asym)
    moreover have "set xs = set pre \<union> set lb" unfolding xs by simp
    ultimately show ?thesis
      using above split(1) by simp blast
  qed
qed

text \<open>
  C27: Inserting a transaction's commands keeps the buffer sorted by commit timestamp with no timestamp
  twice. If the timestamp is buffered already, the buffer is unchanged; otherwise it afterwards holds
  the new commands and the old ones, without the older ones when the new commands do not depend on the
  previous version.
\<close>
theorem EmplaceTxnCmd_sorted:
  assumes "by_version xs"
  shows "by_version (EmplaceTxnCmd t xs) \<and>
         set (EmplaceTxnCmd t xs) =
           (if stored t xs then set xs
            else insert t {c \<in> set xs. ignore_previous_version t \<longrightarrow> new_version t < new_version c})"
  using assms by (rule emplace_sorted)

theorem EmplaceTxnCmd_sorted_witness:
  "by_version (EmplaceTxnCmd \<lparr>obj_version = 3, new_version = 4, ignore_previous_version = False, cmd_list = [()]\<rparr>
     [\<lparr>obj_version = 1, new_version = 2, ignore_previous_version = False, cmd_list = [()]\<rparr>])"
  using EmplaceTxnCmd_sorted
    [of "[\<lparr>obj_version = 1, new_version = 2, ignore_previous_version = False, cmd_list = [()]\<rparr>]"
      "\<lparr>obj_version = 3, new_version = 4, ignore_previous_version = False, cmd_list = [()]\<rparr>"]
  by simp

end
