(* ===== verification/Txn_Cmd_Replay.thy ===== *)
theory Txn_Cmd_Replay
  imports Txn_Cmd "HOL-Library.Multiset"
begin

text \<open>
  Replay is insensitive to the order of delivery: the commands of an object that form a chain of
  versions leave the same object, version and empty buffer whichever order they arrive in.
\<close>

section \<open>Chains of versions\<close>

fun chain :: "u64 \<Rightarrow> 'c TxnCmd list \<Rightarrow> bool" where
  "chain v [] \<longleftrightarrow> True"
| "chain v (t # ts) \<longleftrightarrow> obj_version t = v \<and> v < new_version t \<and> new_version t < 2 ^ 56 \<and>
     \<not> ignore_previous_version t \<and> chain (new_version t) ts"

definition last_ver :: "u64 \<Rightarrow> 'c TxnCmd list \<Rightarrow> u64" where
  "last_ver v ts = (if ts = [] then v else new_version (last ts))"

lemma last_ver_simps [simp]:
  "last_ver v [] = v" "last_ver v (t # ts) = last_ver (new_version t) ts"
  by (auto simp: last_ver_def)

lemma chain_append: "chain v (xs @ ys) \<longleftrightarrow> chain v xs \<and> chain (last_ver v xs) ys"
  by (induction xs arbitrary: v) auto

lemma last_ver_append: "last_ver v (xs @ ys) = last_ver (last_ver v xs) ys"
  by (induction xs arbitrary: v) auto

lemma chain_above:
  "chain v ts \<Longrightarrow> t \<in> set ts \<Longrightarrow> v \<le> obj_version t \<and> v < new_version t"
  by (induction ts arbitrary: v) (force dest: order.strict_trans)+

lemma chain_by_version: "chain v ts \<Longrightarrow> by_version ts"
  by (induction ts arbitrary: v) (auto dest: chain_above)

lemma last_ver_ge: "chain v ts \<Longrightarrow> v \<le> last_ver v ts \<and> (v < 2 ^ 56 \<longrightarrow> last_ver v ts < 2 ^ 56) \<and>
    (ts \<noteq> [] \<longrightarrow> v < last_ver v ts)"
proof (induction ts arbitrary: v)
  case (Cons t ts)
  then have "v < new_version t" "new_version t \<le> last_ver (new_version t) ts"
    using Cons.IH [of "new_version t"] by auto
  then have "v < last_ver (new_version t) ts" by (rule order.strict_trans2)
  then show ?case using Cons by (auto simp: less_imp_le)
qed simp

lemma chain_not_ignoring: "chain v ts \<Longrightarrow> t \<in> set ts \<Longrightarrow> \<not> ignore_previous_version t"
  by (induction ts arbitrary: v) auto

lemma by_version_filter: "by_version xs \<Longrightarrow> by_version (filter P xs)"
  by (simp add: by_version_def sorted_wrt_filter)

text \<open>The replay loop commits the longest gapless prefix of what is buffered, and keeps the rest.\<close>

lemma TryCommit_chain:
  "chain v ts \<Longrightarrow> TryCommitBufferedCommands E (filter P ts) v p =
     (filter P (dropWhile P ts), last_ver v (takeWhile P ts), fold (apply_txn E) (takeWhile P ts) p)"
proof (induction ts arbitrary: v p)
  case (Cons t ts)
  show ?case
  proof (cases "P t")
    case False
    have "obj_version u \<noteq> v" if "u \<in> set (filter P ts)" for u
      using chain_above [of "new_version t" ts u] Cons.prems that by auto
    moreover have "\<not> ignore_previous_version u" if "u \<in> set (filter P ts)" for u
      using chain_not_ignoring [of "new_version t" ts u] Cons.prems that by auto
    ultimately have "TryCommitBufferedCommands E (filter P ts) v p = (filter P ts, v, p)"
      by (cases "filter P ts") simp_all
    then show ?thesis using False by simp
  qed (use Cons in simp)
qed simp

lemma SetCommit_sel:
  assumes "ts < 2 ^ 56"
  shows "CommitTs (SetCommitTsPayloadStatus False skip_kv ts s i) = max (CommitTs i) ts"
    and "PayloadStatus (SetCommitTsPayloadStatus False skip_kv ts s i) =
           (if CommitTs i < ts then s else PayloadStatus i)"
  using entry_exec_refines [of "Commit ts s" False skip_kv i] assms
  by (auto simp: entry_abs_def Let_def max_def not_less split: if_splits)

section \<open>What is delivered determines the entry\<close>

definition replayed ::
    "('v, 'c) cmd_env \<Rightarrow> u64 \<Rightarrow> 'v option \<Rightarrow> 'c TxnCmd list \<Rightarrow> 'c TxnCmd set \<Rightarrow> ('v, 'c) obj_entry \<Rightarrow> bool" where
  "replayed E v0 p0 cs D e \<longleftrightarrow>
     (let applied = takeWhile (\<lambda>c. c \<in> D) cs; waiting = dropWhile (\<lambda>c. c \<in> D) cs
      in CommitTs (oe_info e) = last_ver v0 applied \<and> PayloadStatus (oe_info e) \<noteq> Unknown \<and>
         oe_payload e = fold (apply_txn E) applied p0 \<and>
         oe_cmds e = filter (\<lambda>c. c \<in> D) waiting \<and>
         (applied \<noteq> [] \<longrightarrow> PayloadStatus (oe_info e) = (if oe_payload e = None then Deleted else Normal)))"

lemma takeWhile_insert:
  "takeWhile (\<lambda>x. x \<in> insert c D) xs =
     takeWhile (\<lambda>x. x \<in> D) xs @ takeWhile (\<lambda>x. x \<in> insert c D) (dropWhile (\<lambda>x. x \<in> D) xs)"
  "dropWhile (\<lambda>x. x \<in> insert c D) xs = dropWhile (\<lambda>x. x \<in> insert c D) (dropWhile (\<lambda>x. x \<in> D) xs)"
  by (induction xs) auto

lemma replayed_step:
  assumes chain: "chain v0 cs" and v0: "v0 < 2 ^ 56" and rep: "replayed E v0 p0 cs D e"
    and c: "c \<in> set cs" "c \<notin> D"
  shows "replayed E v0 p0 cs (insert c D) (EmplaceAndCommitBufferedTxnCommand E skip_kv c e)"
proof -
  define old where "old = takeWhile (\<lambda>x. x \<in> D) cs"
  define todo where "todo = dropWhile (\<lambda>x. x \<in> D) cs"
  define fresh where "fresh = takeWhile (\<lambda>x. x \<in> insert c D) todo"
  define v where "v = last_ver v0 old"
  have cs: "cs = old @ todo" by (simp add: old_def todo_def)
  have ch: "chain v0 old" "chain v todo" using chain by (simp_all add: cs chain_append v_def)
  have e: "CommitTs (oe_info e) = v" "PayloadStatus (oe_info e) \<noteq> Unknown"
      "oe_payload e = fold (apply_txn E) old p0" "oe_cmds e = filter (\<lambda>x. x \<in> D) todo"
      "old \<noteq> [] \<longrightarrow> PayloadStatus (oe_info e) = (if oe_payload e = None then Deleted else Normal)"
    using rep by (simp_all add: replayed_def Let_def old_def todo_def v_def)
  have "x \<in> D" if "x \<in> set old" for x using that by (auto simp: old_def dest: set_takeWhileD)
  moreover have "set cs = set old \<union> set todo" by (subst cs) simp
  ultimately have "c \<in> set todo" using c by auto
  have sorted: "by_version todo" using ch(2) by (rule chain_by_version)
  have "\<not> stored c (filter (\<lambda>x. x \<in> D) todo)"
  proof
    assume "stored c (filter (\<lambda>x. x \<in> D) todo)"
    then obtain x where x: "x \<in> set todo" "x \<in> D" "new_version x = new_version c" by (auto simp: stored_def)
    then have "x = c" using sorted \<open>c \<in> set todo\<close> by (metis by_version_inj)
    then show False using x c by simp
  qed
  moreover have "\<not> ignore_previous_version c" using chain c chain_not_ignoring by blast
  ultimately have "by_version (EmplaceTxnCmd c (oe_cmds e)) \<and>
      set (EmplaceTxnCmd c (oe_cmds e)) = set (filter (\<lambda>x. x \<in> insert c D) todo)"
    using emplace_sorted [OF by_version_filter [OF sorted], of c "\<lambda>x. x \<in> D"] \<open>c \<in> set todo\<close> e(4) by auto
  then have emp: "EmplaceTxnCmd c (oe_cmds e) = filter (\<lambda>x. x \<in> insert c D) todo"
    by (intro by_version_unique) (simp_all add: by_version_filter sorted)
  let ?p = "fold (apply_txn E) fresh (oe_payload e)"
  let ?e = "EmplaceAndCommitBufferedTxnCommand E skip_kv c e"
  have res: "?e = \<lparr>oe_info = SetCommitTsPayloadStatus False skip_kv (last_ver v fresh)
        (if ?p = None then Deleted else Normal) (oe_info e), oe_payload = ?p,
      oe_cmds = filter (\<lambda>x. x \<in> insert c D) (dropWhile (\<lambda>x. x \<in> insert c D) todo)\<rparr>"
    using e(2) unfolding EmplaceAndCommitBufferedTxnCommand_def Let_def emp e(1) TryCommit_chain [OF ch(2)]
      fresh_def [symmetric] by simp
  have fr: "chain v fresh"
    using ch(2) chain_append [of v fresh "dropWhile (\<lambda>x. x \<in> insert c D) todo"] by (simp add: fresh_def)
  have "v < 2 ^ 56" using last_ver_ge [OF ch(1)] v0 by (simp add: v_def)
  then have lv: "v \<le> last_ver v fresh" "last_ver v fresh < 2 ^ 56" "fresh \<noteq> [] \<Longrightarrow> v < last_ver v fresh"
    using last_ver_ge [OF fr] by auto
  have app: "takeWhile (\<lambda>x. x \<in> insert c D) cs = old @ fresh"
      "dropWhile (\<lambda>x. x \<in> insert c D) cs = dropWhile (\<lambda>x. x \<in> insert c D) todo"
    unfolding old_def fresh_def todo_def by (rule takeWhile_insert)+
  show ?thesis
    unfolding replayed_def Let_def app res
    using lv e SetCommit_sel [OF lv(2)]
    by (cases "fresh = []") (auto simp: last_ver_append v_def max_def)
qed

lemma replayed_run:
  assumes "chain v0 cs" "v0 < 2 ^ 56" "replayed E v0 p0 cs D e"
    and "distinct ds" "set ds \<subseteq> set cs" "set ds \<inter> D = {}"
  shows "replayed E v0 p0 cs (D \<union> set ds) (fold (EmplaceAndCommitBufferedTxnCommand E skip_kv) ds e)"
  using assms
proof (induction ds arbitrary: D e)
  case (Cons c ds)
  then have "replayed E v0 p0 cs (insert c D) (EmplaceAndCommitBufferedTxnCommand E skip_kv c e)"
    by (intro replayed_step) auto
  then show ?case
    using Cons.IH [of "insert c D" "EmplaceAndCommitBufferedTxnCommand E skip_kv c e"] Cons.prems by auto
qed simp

lemma chain_distinct: "chain v cs \<Longrightarrow> distinct cs"
  by (induction cs arbitrary: v) (auto dest: chain_above)

lemma replayed_init:
  assumes "CommitTs (oe_info e) = v0" "PayloadStatus (oe_info e) \<noteq> Unknown" "oe_cmds e = []"
  shows "replayed E v0 (oe_payload e) cs {} e"
proof -
  have "takeWhile (\<lambda>c. c \<in> {}) cs = []" by (cases cs) simp_all
  then show ?thesis using assms by (simp add: replayed_def)
qed

text \<open>
  C18: Replay does not depend on the order of delivery. Take an object at version \<open>v0\<close> with nothing
  buffered and commands that form a chain of versions from \<open>v0\<close>. Delivering them in any order ends with
  the object all of them produce when applied in version order, with the version of the last one, the
  matching status, and an empty buffer.
\<close>
theorem replay_converges:
  assumes "CommitTs (oe_info e) = v0" "PayloadStatus (oe_info e) \<noteq> Unknown" "oe_cmds e = []"
    and chain: "chain v0 cs" "v0 < 2 ^ 56" "cs \<noteq> []"
    and perm: "mset ds = mset cs"
  shows "let e' = fold (EmplaceAndCommitBufferedTxnCommand E skip_kv) ds e
         in oe_payload e' = fold (apply_txn E) cs (oe_payload e) \<and> CommitTs (oe_info e') = new_version (last cs) \<and>
            PayloadStatus (oe_info e') = (if oe_payload e' = None then Deleted else Normal) \<and> oe_cmds e' = []"
proof -
  have "distinct ds" "set ds = set cs"
    using chain_distinct [OF chain(1)] mset_eq_imp_distinct_iff [OF perm] mset_eq_setD [OF perm] by simp_all
  then have "replayed E v0 (oe_payload e) cs (set cs) (fold (EmplaceAndCommitBufferedTxnCommand E skip_kv) ds e)"
    using replayed_run [OF chain(1,2) replayed_init [OF assms(1-3)], of ds E skip_kv] by simp
  moreover have "takeWhile (\<lambda>c. c \<in> set cs) cs = cs" "dropWhile (\<lambda>c. c \<in> set cs) cs = []"
    by (simp_all add: takeWhile_eq_all_conv)
  ultimately show ?thesis
    using chain(3) by (simp add: replayed_def Let_def last_ver_def)
qed

definition sample_cmds :: "(nat, nat) cmd_env" where
  "sample_cmds = \<lparr>IsOverwrite = (\<lambda>_. False), CreateObject = (\<lambda>_. 0), CommitOn = (\<lambda>c v. Some (10 * v + c))\<rparr>"

definition sample_chain :: "nat TxnCmd list" where
  "sample_chain = [\<lparr>obj_version = 5, new_version = 6, ignore_previous_version = False, cmd_list = [1]\<rparr>,
     \<lparr>obj_version = 6, new_version = 9, ignore_previous_version = False, cmd_list = [2, 3]\<rparr>,
     \<lparr>obj_version = 9, new_version = 10, ignore_previous_version = False, cmd_list = [4]\<rparr>]"

definition sample_obj :: "(nat, nat) obj_entry" where
  "sample_obj = \<lparr>oe_info = \<lparr>commit_ts_and_status = pack_word 5 Normal, ckpt_ts = 0\<rparr>,
     oe_payload = Some 7, oe_cmds = []\<rparr>"

theorem replay_converges_witness:
  "oe_payload (fold (EmplaceAndCommitBufferedTxnCommand sample_cmds False) (rev sample_chain) sample_obj) =
     Some 71234"
proof -
  have "CommitTs (oe_info sample_obj) = 5" "PayloadStatus (oe_info sample_obj) \<noteq> Unknown" "oe_cmds sample_obj = []"
    by (simp_all add: sample_obj_def CommitTs_def PayloadStatus_def packed_eq mask_small status_of_def)
  moreover have "chain 5 sample_chain" "sample_chain \<noteq> []" by (simp_all add: sample_chain_def)
  moreover have "fold (apply_txn sample_cmds) sample_chain (oe_payload sample_obj) = Some 71234"
    by (simp add: sample_chain_def sample_cmds_def sample_obj_def apply_txn_def apply_cmd_def)
  ultimately show ?thesis
    using replay_converges [of sample_obj 5 sample_chain "rev sample_chain" sample_cmds False]
    by (simp add: Let_def)
qed

end
