(* ===== verification/Lock_Extra.thy ===== *)
theory Lock_Extra
  imports Non_Blocking_Lock Txn_Cmd
begin

text \<open>
  \<open>KeyGapLockAndExtraData\<close> of \<open>include/cc/non_blocking_lock.h\<close> and \<open>src/cc/non_blocking_lock.cpp\<close>:
  the key lock of an entry together with what a transaction keeps beside it, the pending command and
  dirty object of its writer, the requests blocked on the object's contents, the buffered commands
  and the forward entry of the standby stream. Cc maps, pages, entries, forward entries and requests
  are known by their addresses. \<open>now\<close> is the shard's \<open>TsBase\<close>; \<open>able\<close> is
  \<open>AblePopBlockRequest\<close> of the request's command on the current object.
\<close>

text \<open>The pending command is a borrowed pointer or an owned one; moving it out empties the owned one only.\<close>

datatype 'c pending_cmd = RawCmd "'c option" | OwnedCmd "'c option"

record ('o, 'c) KeyGapLockAndExtraData =
  key_lock :: NonBlockingLock
  in_use :: bool
  last_used_ts :: u64
  lk_ccm :: "nat option"
  lk_page :: "nat option"
  lk_entry :: "nat option"
  pending_cmd :: "'c pending_cmd"
  dirty_payload :: "'o option"
  dirty_payload_status :: RecordStatus
  queue_block_cmds :: "cc_req circular_queue"
  buffered_cmd_list :: "'c TxnCmd list"
  forward_entry :: "nat option"

definition kgl_new :: "('o, 'c) KeyGapLockAndExtraData" where
  "kgl_new = \<lparr>key_lock = lock_new, in_use = False, last_used_ts = 0, lk_ccm = None, lk_page = None,
     lk_entry = None, pending_cmd = RawCmd None, dirty_payload = None, dirty_payload_status = NonExistent,
     queue_block_cmds = cq_new \<lparr>req_id = 0, req_txn = 0\<rparr> 8, buffered_cmd_list = [], forward_entry = None\<rparr>"

definition kgl_Reset ::
    "nat option \<Rightarrow> nat option \<Rightarrow> nat option \<Rightarrow> ('o, 'c) KeyGapLockAndExtraData \<Rightarrow> ('o, 'c) KeyGapLockAndExtraData" where
  "kgl_Reset ccm page entry k =
     k\<lparr>key_lock := lock_Reset (key_lock k), lk_ccm := ccm, lk_page := page, lk_entry := entry,
       dirty_payload := None, dirty_payload_status := NonExistent, pending_cmd := RawCmd None,
       queue_block_cmds := cq_Reset (queue_block_cmds k), buffered_cmd_list := [], forward_entry := None\<rparr>"

definition SetUsedStatus :: "u64 \<Rightarrow> bool \<Rightarrow> ('o, 'c) KeyGapLockAndExtraData \<Rightarrow> ('o, 'c) KeyGapLockAndExtraData" where
  "SetUsedStatus now is_used k =
     (let k1 = k\<lparr>in_use := is_used\<rparr> in if \<not> is_used then k1\<lparr>last_used_ts := now\<rparr> else k1)"

definition recycle_interval_us :: u64 where
  "recycle_interval_us = 30000000"

definition SafeToRecycle :: "u64 \<Rightarrow> ('o, 'c) KeyGapLockAndExtraData \<Rightarrow> bool" where
  "SafeToRecycle now k \<longleftrightarrow> \<not> in_use k \<and> recycle_interval_us \<le> now - last_used_ts k"

definition HasBufferedCommandList :: "('o, 'c) KeyGapLockAndExtraData \<Rightarrow> bool" where
  "HasBufferedCommandList k \<longleftrightarrow> buffered_cmd_list k \<noteq> []"

definition kgl_IsEmpty :: "('o, 'c) KeyGapLockAndExtraData \<Rightarrow> bool" where
  "kgl_IsEmpty k \<longleftrightarrow>
     (if lock_IsEmpty (key_lock k)
      then cq_Size (queue_block_cmds k) = 0 \<and> \<not> HasBufferedCommandList k else False)"

definition PendingCmd :: "('o, 'c) KeyGapLockAndExtraData \<Rightarrow> 'c pending_cmd \<times> ('o, 'c) KeyGapLockAndExtraData" where
  "PendingCmd k =
     (pending_cmd k, k\<lparr>pending_cmd := (case pending_cmd k of RawCmd c \<Rightarrow> RawCmd c | OwnedCmd _ \<Rightarrow> OwnedCmd None)\<rparr>)"

definition GetPendingCmd :: "('o, 'c) KeyGapLockAndExtraData \<Rightarrow> 'c option" where
  "GetPendingCmd k = (case pending_cmd k of RawCmd c \<Rightarrow> c | OwnedCmd c \<Rightarrow> c)"

definition SetPendingCmd :: "'c pending_cmd \<Rightarrow> ('o, 'c) KeyGapLockAndExtraData \<Rightarrow> ('o, 'c) KeyGapLockAndExtraData" where
  "SetPendingCmd c k = k\<lparr>pending_cmd := c\<rparr>"

definition IsNullPendingCmd :: "('o, 'c) KeyGapLockAndExtraData \<Rightarrow> bool" where
  "IsNullPendingCmd k \<longleftrightarrow> (case pending_cmd k of RawCmd c \<Rightarrow> c = None | OwnedCmd c \<Rightarrow> c = None)"

definition DirtyPayload :: "('o, 'c) KeyGapLockAndExtraData \<Rightarrow> 'o option \<times> ('o, 'c) KeyGapLockAndExtraData" where
  "DirtyPayload k = (dirty_payload k, k\<lparr>dirty_payload := None\<rparr>)"

definition SetDirtyPayload :: "'o option \<Rightarrow> ('o, 'c) KeyGapLockAndExtraData \<Rightarrow> ('o, 'c) KeyGapLockAndExtraData" where
  "SetDirtyPayload p k = k\<lparr>dirty_payload := p\<rparr>"

definition SetDirtyPayloadStatus :: "RecordStatus \<Rightarrow> ('o, 'c) KeyGapLockAndExtraData \<Rightarrow> ('o, 'c) KeyGapLockAndExtraData" where
  "SetDirtyPayloadStatus s k = k\<lparr>dirty_payload_status := s\<rparr>"

definition PushBlockRequest :: "cc_req \<Rightarrow> ('o, 'c) KeyGapLockAndExtraData \<Rightarrow> ('o, 'c) KeyGapLockAndExtraData" where
  "PushBlockRequest r k = k\<lparr>queue_block_cmds := cq_Enqueue (queue_block_cmds k) r\<rparr>"

text \<open>Both loops below stop at the first request that satisfies their test.\<close>

function find_block :: "(cc_req \<Rightarrow> bool) \<Rightarrow> cc_req circular_queue \<Rightarrow> nat \<Rightarrow> nat option" where
  "find_block P q i =
     (if i < cq_Size q then if P (cq_Get q i) then Some i else find_block P q (i + 1) else None)"
  by pat_completeness auto
termination
  by (relation "measure (\<lambda>(P, q, i). cq_Size q - i)") auto

declare find_block.simps [simp del]

definition PopBlockRequest ::
    "(cc_req \<Rightarrow> bool) \<Rightarrow> ('o, 'c) KeyGapLockAndExtraData \<Rightarrow> cc_env \<Rightarrow> ('o, 'c) KeyGapLockAndExtraData \<times> cc_env" where
  "PopBlockRequest able k E =
     (case find_block able (queue_block_cmds k) 0 of None \<Rightarrow> (k, E)
      | Some i \<Rightarrow> (k\<lparr>queue_block_cmds := cq_Erase (queue_block_cmds k) i\<rparr>,
                  ccs_Enqueue (cq_Get (queue_block_cmds k) i) E))"

definition AbortBlockRequest ::
    "TxNumber \<Rightarrow> CcErrorCode \<Rightarrow> ('o, 'c) KeyGapLockAndExtraData \<Rightarrow> cc_env \<Rightarrow> ('o, 'c) KeyGapLockAndExtraData \<times> cc_env" where
  "AbortBlockRequest txid err k E =
     (case find_block (\<lambda>r. req_txn r = txid) (queue_block_cmds k) 0 of None \<Rightarrow> (k, E)
      | Some i \<Rightarrow> (k\<lparr>queue_block_cmds := cq_Erase (queue_block_cmds k) i\<rparr>,
                  AbortCcRequest (cq_Get (queue_block_cmds k) i) err E))"

definition SetForwardEntry :: "nat option \<Rightarrow> ('o, 'c) KeyGapLockAndExtraData \<Rightarrow> ('o, 'c) KeyGapLockAndExtraData" where
  "SetForwardEntry entry k = k\<lparr>forward_entry := entry\<rparr>"

definition kgl_ClearTx :: "('o, 'c) KeyGapLockAndExtraData \<Rightarrow> ('o, 'c) KeyGapLockAndExtraData" where
  "kgl_ClearTx k = k\<lparr>pending_cmd := RawCmd None, dirty_payload := None,
     dirty_payload_status := NonExistent, forward_entry := None\<rparr>"

section \<open>The requests blocked on an object\<close>

lemma find_block_first:
  assumes "find_block P q i = r"
  shows "case r of Some j \<Rightarrow> i \<le> j \<and> j < cq_Size q \<and> P (cq_Get q j) \<and> (\<forall>n. i \<le> n \<and> n < j \<longrightarrow> \<not> P (cq_Get q n))
         | None \<Rightarrow> \<forall>n. i \<le> n \<and> n < cq_Size q \<longrightarrow> \<not> P (cq_Get q n)"
  using assms
proof (induction P q i arbitrary: r rule: find_block.induct)
  case (1 P q i)
  show ?case
  proof (cases "i < cq_Size q \<and> \<not> P (cq_Get q i)")
    case True
    have r: "find_block P q (i + 1) = r" using True 1(2) by (simp add: find_block.simps [of P q i])
    show ?thesis
      using 1(1) [OF _ _ r] True
      by (auto split: option.splits) (metis Suc_leI le_neq_implies_less)+
  qed (use 1(2) in \<open>auto simp: find_block.simps [of P q i] split: if_splits\<close>)
qed

lemma find_block_list:
  assumes "cq_inv q"
  shows "find_block P q 0 = None \<Longrightarrow> \<forall>r \<in> set (cq_list q). \<not> P r"
    and "find_block P q 0 = Some i \<Longrightarrow>
      \<exists>as r bs. cq_list q = as @ r # bs \<and> length as = i \<and> P r \<and> (\<forall>a \<in> set as. \<not> P a) \<and>
        cq_Get q i = r \<and> cq_list (cq_Erase q i) = as @ bs"
proof -
  assume "find_block P q 0 = None"
  then show "\<forall>r \<in> set (cq_list q). \<not> P r"
    using find_block_first [of P q 0 None] by (auto simp: cq_list_def cq_Size_def)
next
  assume found: "find_block P q 0 = Some i"
  have i: "i < length (cq_list q)" "P (cq_list q ! i)" "\<forall>n < i. \<not> P (cq_list q ! n)"
    using find_block_first [OF found] by (auto simp: cq_Size_def)
  have "cq_list q = take i (cq_list q) @ cq_list q ! i # drop (Suc i) (cq_list q)"
    using i(1) by (rule id_take_nth_drop)
  moreover have "\<forall>a \<in> set (take i (cq_list q)). \<not> P a"
    using i by (auto simp: in_set_conv_nth)
  ultimately show "\<exists>as r bs. cq_list q = as @ r # bs \<and> length as = i \<and> P r \<and> (\<forall>a \<in> set as. \<not> P a) \<and>
      cq_Get q i = r \<and> cq_list (cq_Erase q i) = as @ bs"
    using i cq_Erase_list [OF assms i(1)] by (intro exI [of _ "take i (cq_list q)"] exI [of _ "cq_list q ! i"]
        exI [of _ "drop (Suc i) (cq_list q)"]) auto
qed

text \<open>
  When an object changes, at most one blocked request is resumed, and it is the first one able to
  run: either no queued request is able to run and nothing changes, or the first that is leaves the
  queue, the order of the others is kept, and it is handed back to the shard.
\<close>
lemma PopBlockRequest_first:
  assumes "cq_inv (queue_block_cmds k)"
  shows "let (k', E') = PopBlockRequest able k E; q = cq_list (queue_block_cmds k) in
         (\<forall>r \<in> set q. \<not> able r) \<and> k' = k \<and> E' = E \<or>
         (\<exists>as r bs. q = as @ r # bs \<and> able r \<and> (\<forall>a \<in> set as. \<not> able a) \<and>
            cq_list (queue_block_cmds k') = as @ bs \<and> enqueued E' = enqueued E @ [r] \<and> aborted E' = aborted E)"
proof (cases "find_block able (queue_block_cmds k) 0")
  case None
  then show ?thesis using find_block_list(1) [OF assms None] by (simp add: PopBlockRequest_def)
next
  case (Some i)
  obtain as r bs where "cq_list (queue_block_cmds k) = as @ r # bs" "able r" "\<forall>a \<in> set as. \<not> able a"
      "cq_Get (queue_block_cmds k) i = r" "cq_list (cq_Erase (queue_block_cmds k) i) = as @ bs"
    using find_block_list(2) [OF assms Some] by auto
  then show ?thesis using Some by (auto simp: PopBlockRequest_def ccs_Enqueue_def)
qed

end
