(* ===== verification/Cc_Shard.thy ===== *)
theory Cc_Shard
  imports Lock_Extra "HOL-Library.AList"
begin

text \<open>
  The locks of a shard (\<open>src/cc/cc_shard.cpp\<close>, \<open>include/cc/cc_shard.h\<close>, and the lock operations of
  \<open>LruEntry\<close> in \<open>src/cc/cc_entry.cpp\<close>): the array of reusable lock structures, the entry each of them
  is assigned to, and the table of the transactions that hold locks here.

  Lock structures live in a store addressed by numbers, because entries keep pointers to them while
  the array moves its owning pointers around; \<open>None\<close> in the array is a moved-from \<open>unique_ptr\<close>.
  \<open>lock_of\<close> is the field \<open>cc_lock_and_extra_\<close> of the entries. The table of lock holders is an
  association list; the iteration order of the hash map is its order. \<open>sh_now\<close> is the time base
  \<open>Now()\<close>, \<open>leader_term\<close> the shared \<open>Sharder\<close>'s leader terms. Calls of \<open>Sharder::RecoverTx\<close> are
  recorded.
\<close>

section \<open>State\<close>

datatype TableType = Primary | Secondary | UniqueSecondary | Catalog | RangePartition | RangeBucket | ClusterConfig

definition IsMeta :: "TableType \<Rightarrow> bool" where
  "IsMeta t \<longleftrightarrow> t = RangeBucket \<or> t = Catalog \<or> t = RangePartition \<or> t = ClusterConfig"

record TxLockInfo =
  tx_coord_term :: int
  tli_wlock_ts :: u64
  last_recover_ts :: u64
  cce_list :: "nat list"
  tli_table_type :: TableType

definition TxLockInfo_new :: "int \<Rightarrow> TxLockInfo" where
  "TxLockInfo_new term = \<lparr>tx_coord_term = term, tli_wlock_ts = 0, last_recover_ts = 0, cce_list = [],
     tli_table_type = Primary\<rparr>"

record recover_call =
  rc_txn :: TxNumber
  rc_coord_term :: int
  rc_wlock_ts :: u64
  rc_ng :: nat
  rc_ng_term :: int

record ('o, 'c) shard =
  locks :: "nat \<Rightarrow> ('o, 'c) KeyGapLockAndExtraData"
  next_addr :: nat
  lock_vec :: "nat option list"
  next_lock_idx :: nat
  used_lock_count :: u32
  lock_sparse_num :: nat
  lock_of :: "nat \<Rightarrow> nat option"
  lock_holding_txs :: "(nat \<times> (TxNumber \<times> TxLockInfo) list) list"
  sh_now :: u64
  sh_env :: cc_env
  recovered :: "recover_call list"
  buffered_cmd_cnt :: int

definition LOCK_ARRAY_INIT_SIZE :: nat where "LOCK_ARRAY_INIT_SIZE = 8192"
definition LOCK_VECTOR_SHRINK_THRESHOLD :: nat where "LOCK_VECTOR_SHRINK_THRESHOLD = 2"
definition RESIZE_LOCK_LIMIT :: nat where "RESIZE_LOCK_LIMIT = 3"

definition vec_lock :: "('o, 'c) shard \<Rightarrow> nat \<Rightarrow> nat" where
  "vec_lock sh i = (case lock_vec sh ! i of None \<Rightarrow> 0 | Some a \<Rightarrow> a)"

definition upd_lock ::
    "nat \<Rightarrow> (('o, 'c) KeyGapLockAndExtraData \<Rightarrow> ('o, 'c) KeyGapLockAndExtraData) \<Rightarrow> ('o, 'c) shard \<Rightarrow> ('o, 'c) shard" where
  "upd_lock a f sh = sh\<lparr>locks := (locks sh)(a := f (locks sh a))\<rparr>"

section \<open>The lock array\<close>

function scan_lock :: "('o, 'c) shard \<Rightarrow> nat \<Rightarrow> nat \<Rightarrow> nat \<times> nat" where
  "scan_lock sh idx cnt =
     (if cnt < length (lock_vec sh)
      then if \<not> in_use (locks sh (vec_lock sh idx)) then (idx, cnt)
           else scan_lock sh (if idx + 1 \<ge> length (lock_vec sh) then 0 else idx + 1) (cnt + 1)
      else (idx, cnt))"
  by pat_completeness auto
termination
  by (relation "measure (\<lambda>(sh, idx, cnt). length (lock_vec sh) - cnt)") auto

declare scan_lock.simps [simp del]

text \<open>The vector doubles; the new structures take fresh addresses.\<close>

definition grow_locks :: "('o, 'c) shard \<Rightarrow> ('o, 'c) shard" where
  "grow_locks sh =
     (let old_size = length (lock_vec sh); fresh = [next_addr sh..<next_addr sh + old_size]
      in sh\<lparr>locks := (\<lambda>a. if a \<in> set fresh then kgl_new else locks sh a),
            next_addr := next_addr sh + old_size, lock_vec := lock_vec sh @ map Some fresh,
            next_lock_idx := old_size\<rparr>)"

definition NewLock :: "nat option \<Rightarrow> nat option \<Rightarrow> nat \<Rightarrow> ('o, 'c) shard \<Rightarrow> nat \<times> ('o, 'c) shard" where
  "NewLock ccm page entry sh =
     (let (idx, cnt) = scan_lock sh (next_lock_idx sh) 0;
          sh1 = sh\<lparr>next_lock_idx := idx\<rparr>;
          sh2 = (if cnt = length (lock_vec sh1) then grow_locks sh1 else sh1);
          lk = vec_lock sh2 (next_lock_idx sh2);
          sh3 = upd_lock lk (SetUsedStatus (sh_now sh2) True \<circ> kgl_Reset ccm page (Some entry)) sh2;
          next_idx = next_lock_idx sh3 + 1
      in (lk, sh3\<lparr>used_lock_count := used_lock_count sh3 + 1,
                  next_lock_idx := (if next_idx = length (lock_vec sh3) then 0 else next_idx)\<rparr>))"

definition DecreaseLockCount :: "('o, 'c) shard \<Rightarrow> ('o, 'c) shard" where
  "DecreaseLockCount sh = sh\<lparr>used_lock_count := used_lock_count sh - 1\<rparr>"

text \<open>
  The compaction: from the top down, a structure that may not be released yet is moved to the first
  slot from below whose structure may.
\<close>

function find_recyclable :: "('o, 'c) shard \<Rightarrow> nat option list \<Rightarrow> nat \<Rightarrow> nat \<Rightarrow> nat" where
  "find_recyclable sh vec low high =
     (if low < high \<and> \<not> (case vec ! low of None \<Rightarrow> False | Some a \<Rightarrow> SafeToRecycle (sh_now sh) (locks sh a))
      then find_recyclable sh vec (low + 1) high else low)"
  by pat_completeness auto
termination
  by (relation "measure (\<lambda>(sh, vec, low, high). high - low)") auto

declare find_recyclable.simps [simp del]

fun shrink_loop :: "('o, 'c) shard \<Rightarrow> nat \<Rightarrow> nat option list \<Rightarrow> nat \<Rightarrow> nat \<Rightarrow> nat option list \<times> nat" where
  "shrink_loop sh expect vec low high =
     (if high \<ge> expect \<and> high > low
      then if (case vec ! high of None \<Rightarrow> False | Some a \<Rightarrow> SafeToRecycle (sh_now sh) (locks sh a))
           then shrink_loop sh expect vec low (high - 1)
           else let low' = find_recyclable sh vec low high
                in if low' = high then (vec, high)
                   else shrink_loop sh expect (vec[low' := vec ! high, high := None]) (low' + 1) (high - 1)
      else (vec, high))"

declare shrink_loop.simps [simp del]

definition TryResizeLockArray :: "('o, 'c) shard \<Rightarrow> ('o, 'c) shard" where
  "TryResizeLockArray sh =
     (let size = length (lock_vec sh) in
      if size > LOCK_ARRAY_INIT_SIZE \<and> unat (used_lock_count sh) < size div 2 ^ LOCK_VECTOR_SHRINK_THRESHOLD
      then if lock_sparse_num sh < RESIZE_LOCK_LIMIT then sh\<lparr>lock_sparse_num := lock_sparse_num sh + 1\<rparr>
           else let expect = size div 2 ^ (LOCK_VECTOR_SHRINK_THRESHOLD - 1);
                    (vec, high) = shrink_loop sh expect (lock_vec sh) 0 (size - 1);
                    vec' = take (high + 1) vec
                in sh\<lparr>lock_sparse_num := 0, lock_vec := vec',
                      next_lock_idx := (if next_lock_idx sh \<ge> length vec' then 0 else next_lock_idx sh)\<rparr>
      else sh)"

section \<open>The lock of an entry\<close>

definition GetKeyLock :: "nat \<Rightarrow> ('o, 'c) shard \<Rightarrow> NonBlockingLock option" where
  "GetKeyLock cce sh = map_option (\<lambda>a. key_lock (locks sh a)) (lock_of sh cce)"

definition GetOrCreateKeyLock :: "nat \<Rightarrow> nat option \<Rightarrow> nat option \<Rightarrow> ('o, 'c) shard \<Rightarrow> nat \<times> ('o, 'c) shard" where
  "GetOrCreateKeyLock cce ccm page sh =
     (case lock_of sh cce of
        None \<Rightarrow> (let (lk, sh') = NewLock ccm page cce sh in (lk, sh'\<lparr>lock_of := (lock_of sh')(cce := Some lk)\<rparr>))
      | Some lk \<Rightarrow> (lk, sh))"

definition RecycleKeyLock :: "nat \<Rightarrow> ('o, 'c) shard \<Rightarrow> bool \<times> ('o, 'c) shard" where
  "RecycleKeyLock cce sh =
     (case lock_of sh cce of
        None \<Rightarrow> (False, sh)
      | Some lk \<Rightarrow>
          if kgl_IsEmpty (locks sh lk)
          then (True, (DecreaseLockCount (upd_lock lk (SetUsedStatus (sh_now sh) False) sh))
                        \<lparr>lock_of := (lock_of sh)(cce := None)\<rparr>)
          else (False, sh))"

definition UpdateBufferedCommandCnt :: "int \<Rightarrow> ('o, 'c) shard \<Rightarrow> ('o, 'c) shard" where
  "UpdateBufferedCommandCnt delta sh = sh\<lparr>buffered_cmd_cnt := buffered_cmd_cnt sh + delta\<rparr>"

section \<open>The transactions that hold locks\<close>

definition ng_txs :: "nat \<Rightarrow> ('o, 'c) shard \<Rightarrow> (TxNumber \<times> TxLockInfo) list" where
  "ng_txs ng sh = (case map_of (lock_holding_txs sh) ng of None \<Rightarrow> [] | Some txs \<Rightarrow> txs)"

definition UpsertLockHoldingTx ::
    "TxNumber \<Rightarrow> int \<Rightarrow> nat \<Rightarrow> bool \<Rightarrow> nat \<Rightarrow> TableType \<Rightarrow> ('o, 'c) shard \<Rightarrow> ('o, 'c) shard" where
  "UpsertLockHoldingTx txn tx_term cce is_key_write_lock cc_ng_id table_type sh =
     (let txs = ng_txs cc_ng_id sh;
          info = (case map_of txs txn of None \<Rightarrow> TxLockInfo_new tx_term | Some i \<Rightarrow> i);
          info1 = info\<lparr>cce_list := List.insert cce (cce_list info), last_recover_ts := sh_now sh,
                       tli_table_type := table_type\<rparr>;
          info2 = (if is_key_write_lock then info1\<lparr>tli_wlock_ts := sh_now sh\<rparr> else info1)
      in sh\<lparr>lock_holding_txs := AList.update cc_ng_id (AList.update txn info2 txs) (lock_holding_txs sh)\<rparr>)"

definition DeleteLockHoldingTx :: "TxNumber \<Rightarrow> nat \<Rightarrow> nat \<Rightarrow> ('o, 'c) shard \<Rightarrow> ('o, 'c) shard" where
  "DeleteLockHoldingTx txn cce cc_ng_id sh =
     (case map_of (lock_holding_txs sh) cc_ng_id of
        None \<Rightarrow> sh
      | Some txs \<Rightarrow>
          (case map_of txs txn of
             None \<Rightarrow> sh
           | Some info \<Rightarrow>
               let list = remove1 cce (cce_list info);
                   txs' = (if list = [] then AList.delete txn txs
                           else AList.update txn (info\<lparr>cce_list := list\<rparr>) txs)
               in sh\<lparr>lock_holding_txs := AList.update cc_ng_id txs' (lock_holding_txs sh)\<rparr>))"

text \<open>
  The inquiry about a transaction that has held a lock for five seconds. The subtraction of the two
  timestamps wraps as in the code.
\<close>

definition check_recover ::
    "(nat \<Rightarrow> int) \<Rightarrow> TxNumber \<Rightarrow> TxLockInfo \<Rightarrow> nat \<Rightarrow> int \<Rightarrow> ('o, 'c) shard \<Rightarrow> TxLockInfo \<times> recover_call list" where
  "check_recover leader_term txn info cc_ng_id cc_ng_term sh =
     (if sh_now sh - last_recover_ts info \<ge> 5000000
      then (info\<lparr>last_recover_ts := sh_now sh\<rparr>,
            if leader_term cc_ng_id > 0
            then [\<lparr>rc_txn = txn, rc_coord_term = tx_coord_term info, rc_wlock_ts = tli_wlock_ts info,
                   rc_ng = cc_ng_id, rc_ng_term = cc_ng_term\<rparr>]
            else [])
      else (info, []))"

definition CheckRecoverTx :: "(nat \<Rightarrow> int) \<Rightarrow> TxNumber \<Rightarrow> nat \<Rightarrow> int \<Rightarrow> ('o, 'c) shard \<Rightarrow> ('o, 'c) shard" where
  "CheckRecoverTx leader_term txn cc_ng_id cc_ng_term sh =
     (case map_of (lock_holding_txs sh) cc_ng_id of
        None \<Rightarrow> sh
      | Some txs \<Rightarrow>
          (case map_of txs txn of
             None \<Rightarrow> sh
           | Some info \<Rightarrow>
               let (info', calls) = check_recover leader_term txn info cc_ng_id cc_ng_term sh
               in sh\<lparr>lock_holding_txs := AList.update cc_ng_id (AList.update txn info' txs) (lock_holding_txs sh),
                     recovered := recovered sh @ calls\<rparr>))"

definition DropLockHoldingTxs :: "nat \<Rightarrow> ('o, 'c) shard \<Rightarrow> ('o, 'c) shard" where
  "DropLockHoldingTxs cc_ng_id sh = sh\<lparr>lock_holding_txs := AList.delete cc_ng_id (lock_holding_txs sh)\<rparr>"

text \<open>One entry of the transaction's list in \<open>ClearTx\<close>; \<open>keep_catalog\<close> is the flag \<open>cmd_read_catalog\<close>.\<close>

definition clear_entry :: "bool \<Rightarrow> TxNumber \<Rightarrow> TableType \<Rightarrow> nat \<Rightarrow> ('o, 'c) shard \<Rightarrow> ('o, 'c) shard" where
  "clear_entry keep_catalog txn table_type cce sh =
     (case lock_of sh cce of
        None \<Rightarrow> sh
      | Some lk \<Rightarrow>
          let (lt, l', E') = lock_ClearTx txn (key_lock (locks sh lk)) (sh_env sh);
              sh1 = (upd_lock lk (\<lambda>k. k\<lparr>key_lock := l'\<rparr>) sh)\<lparr>sh_env := E'\<rparr>;
              sh2 = (if lt = WriteLock then upd_lock lk kgl_ClearTx sh1 else sh1)
          in if keep_catalog \<and> table_type = Catalog then sh2 else snd (RecycleKeyLock cce sh2))"

definition clear_ng :: "bool \<Rightarrow> TxNumber \<Rightarrow> nat \<Rightarrow> ('o, 'c) shard \<Rightarrow> ('o, 'c) shard" where
  "clear_ng keep_catalog txn ng sh =
     (case map_of (ng_txs ng sh) txn of
        None \<Rightarrow> sh
      | Some info \<Rightarrow>
          let sh1 = fold (clear_entry keep_catalog txn (tli_table_type info)) (cce_list info) sh
          in sh1\<lparr>lock_holding_txs := AList.update ng (AList.delete txn (ng_txs ng sh1)) (lock_holding_txs sh1)\<rparr>)"

definition shard_ClearTx :: "bool \<Rightarrow> TxNumber \<Rightarrow> ('o, 'c) shard \<Rightarrow> ('o, 'c) shard" where
  "shard_ClearTx keep_catalog txn sh = fold (clear_ng keep_catalog txn) (map fst (lock_holding_txs sh)) sh"

text \<open>
  \<open>ClearLocks\<close> of an entry. Its loops delete the entry from the records of the writer, the readers
  and the intents. The hash sets of the lock are walked in the order of the transaction numbers here;
  no theorem depends on that order.
\<close>

definition ClearLocks :: "nat \<Rightarrow> nat \<Rightarrow> ('o, 'c) shard \<Rightarrow> ('o, 'c) shard" where
  "ClearLocks cce ng_id sh =
     (case lock_of sh cce of
        None \<Rightarrow> sh
      | Some lk \<Rightarrow>
          let l = key_lock (locks sh lk);
              (w_tx, w_type) = WriteTx l;
              sh1 = (if w_type \<noteq> NoWritelock then DeleteLockHoldingTx w_tx cce ng_id sh else sh);
              sh2 = fold (\<lambda>t. DeleteLockHoldingTx t cce ng_id) (sorted_list_of_set (read_locks l)) sh1;
              sh3 = fold (\<lambda>t. DeleteLockHoldingTx t cce ng_id) (sorted_list_of_set (read_intentions l)) sh2;
              (l', E') = AbortAllQueuedRequests REQUESTED_NODE_NOT_LEADER l (sh_env sh3);
              sh4 = UpdateBufferedCommandCnt (- int (length (buffered_cmd_list (locks sh lk)))) (sh3\<lparr>sh_env := E'\<rparr>);
              sh5 = upd_lock lk (SetUsedStatus (sh_now sh4) False \<circ> kgl_Reset None None None \<circ> (\<lambda>k. k\<lparr>key_lock := l'\<rparr>)) sh4
          in DecreaseLockCount (sh5\<lparr>lock_of := (lock_of sh5)(cce := None)\<rparr>))"

section \<open>The checkpoint timestamp\<close>

definition active_min :: "(TxNumber \<times> TxLockInfo) list \<Rightarrow> u64" where
  "active_min txs =
     fold (\<lambda>(t, info) m. if \<not> IsMeta (tli_table_type info) \<and> tli_wlock_ts info \<noteq> 0
                        then min m (tli_wlock_ts info - 1) else m) txs (- 1)"

definition UpdateTsBase :: "u64 \<Rightarrow> ('o, 'c) shard \<Rightarrow> ('o, 'c) shard" where
  "UpdateTsBase ts sh = (if ts > sh_now sh then sh\<lparr>sh_now := ts\<rparr> else sh)"

definition ActiveTxMinTs ::
    "(nat \<Rightarrow> int) \<Rightarrow> int \<Rightarrow> u64 \<Rightarrow> nat \<Rightarrow> ('o, 'c) shard \<Rightarrow> u64 \<times> ('o, 'c) shard" where
  "ActiveTxMinTs leader_term standby_term clock_ts cc_ng_id sh =
     (let cc_ng_term = (if leader_term cc_ng_id < 0 then standby_term else leader_term cc_ng_id);
          txs = ng_txs cc_ng_id sh;
          min_ts = active_min txs;
          sh1 = fold (\<lambda>(t, info). CheckRecoverTx leader_term t cc_ng_id cc_ng_term) txs sh;
          (min_ts', sh2) = (if min_ts = - 1
                            then let max_ts = max (sh_now sh1) clock_ts in (max_ts - 1, UpdateTsBase max_ts sh1)
                            else (min_ts, sh1))
      in (min_ts', TryResizeLockArray sh2))"

end
