(* ===== verification/Cc_Map_Lock.thy ===== *)
theory Cc_Map_Lock
  imports Cc_Shard
begin

text \<open>
  The locking of an entry by a request (\<open>src/cc/cc_map.cpp\<close>): acquiring the key lock under an
  isolation level and a protocol, finishing a request that was blocked and is resumed, and releasing.
  Each of them keeps the key lock, the assignment of lock structures and the table of lock holders of
  the shard together. The cc map contributes its table type and its address.
\<close>

definition with_lock ::
    "nat \<Rightarrow> (NonBlockingLock \<Rightarrow> NonBlockingLock) \<Rightarrow> ('o, 'c) shard \<Rightarrow> ('o, 'c) shard" where
  "with_lock lk f sh = upd_lock lk (\<lambda>k. k\<lparr>key_lock := f (key_lock k)\<rparr>) sh"

definition RecoverTxForLockConfilct ::
    "(nat \<Rightarrow> int) \<Rightarrow> NonBlockingLock \<Rightarrow> LockType \<Rightarrow> nat \<Rightarrow> int \<Rightarrow> ('o, 'c) shard \<Rightarrow> ('o, 'c) shard" where
  "RecoverTxForLockConfilct leader_term lock lock_type ng_id ng_term sh =
     (case lock_type of
        WriteLock \<Rightarrow>
          (let (write_tx, write_type) = WriteTx lock in
           if write_type \<noteq> NoWritelock then CheckRecoverTx leader_term write_tx ng_id ng_term sh
           else fold (\<lambda>t. CheckRecoverTx leader_term t ng_id ng_term) (sorted_list_of_set (read_locks lock)) sh)
      | WriteIntent \<Rightarrow>
          (let (write_tx, write_type) = WriteTx lock in
           if write_type \<noteq> NoWritelock then CheckRecoverTx leader_term write_tx ng_id ng_term sh else sh)
      | ReadLock \<Rightarrow>
          if HasWriteLock lock then CheckRecoverTx leader_term (write_txn lock) ng_id ng_term sh else sh
      | _ \<Rightarrow> sh)"

record acquire_args =
  aq_cce :: nat
  aq_commit_ts :: u64
  aq_page :: "nat option"
  aq_this :: nat
  aq_ccm :: "nat option"
  aq_status :: RecordStatus
  aq_req :: cc_req
  aq_ng :: nat
  aq_ng_term :: int
  aq_tx_term :: int
  aq_lock_type :: LockType
  aq_op :: CcOperation
  aq_iso :: IsolationLevel
  aq_protocol :: CcProtocol
  aq_read_ts :: u64
  aq_table_type :: TableType

text \<open>The part under snapshot isolation, which may decide the request.\<close>

definition snapshot_guard ::
    "(nat \<Rightarrow> int) \<Rightarrow> acquire_args \<Rightarrow> ('o, 'c) shard \<Rightarrow> ((LockType \<times> CcErrorCode) \<times> ('o, 'c) shard) option" where
  "snapshot_guard leader_term A sh =
     (if aq_iso A \<noteq> Snapshot then None
      else if aq_op A = CcOp_ReadForWrite \<and> aq_read_ts A < aq_commit_ts A
      then Some ((NoLock, MVCC_READ_FOR_WRITE_CONFLICT), sh)
      else if aq_op A = CcOp_Read \<or> aq_op A = CcOp_ReadSkIndex
      then (case lock_of sh (aq_cce A) of
              None \<Rightarrow> None
            | Some lk \<Rightarrow>
                let lock = key_lock (locks sh lk) in
                if HasWriteLock lock \<and> wlock_ts lock < aq_read_ts A
                then let sh1 = with_lock lk (InsertBlockingQueue (aq_req A) ReadLock) sh
                     in Some ((NoLock, MVCC_READ_MUST_WAIT_WRITE),
                              CheckRecoverTx leader_term (write_txn lock) (aq_ng A) (aq_ng_term A) sh1)
                else None)
      else None)"

text \<open>
  The part after the lock was asked for: \<open>lk\<close> is the structure whose lock was consulted, if any, and
  \<open>st\<close> the answer.
\<close>

definition acquire_finish ::
    "(nat \<Rightarrow> int) \<Rightarrow> acquire_args \<Rightarrow> LockType \<Rightarrow> nat option \<Rightarrow> LockOpStatus \<Rightarrow> ('o, 'c) shard
     \<Rightarrow> (LockType \<times> CcErrorCode) \<times> ('o, 'c) shard" where
  "acquire_finish leader_term A lock_type lk st sh =
     (let txn = req_txn (aq_req A);
          lock = map_option (\<lambda>a. key_lock (locks sh a)) lk
      in case st of
           Successful \<Rightarrow>
             let sh1 = (if lock_type \<noteq> NoLock
                        then UpsertLockHoldingTx txn (aq_tx_term A) (aq_cce A) (lock_type = WriteLock) (aq_ng A)
                               (aq_table_type A) sh
                        else sh);
                 sh2 = (case lock of
                          None \<Rightarrow> sh1
                        | Some l \<Rightarrow> if HasWriteLock l \<and> write_txn l \<noteq> txn
                                    then CheckRecoverTx leader_term (write_txn l) (aq_ng A) (aq_ng_term A) sh1 else sh1)
             in ((lock_type, NO_ERROR), sh2)
         | Failed \<Rightarrow>
             let l = the lock;
                 sh1 = RecoverTxForLockConfilct leader_term l lock_type (aq_ng A) (aq_ng_term A) sh
             in ((lock_type,
                  if lock_type = WriteLock \<and> snd (WriteTx l) = NoWritelock
                  then ACQUIRE_KEY_LOCK_FAILED_FOR_RW_CONFLICT
                  else ACQUIRE_KEY_LOCK_FAILED_FOR_WW_CONFLICT), sh1)
         | Blocked \<Rightarrow>
             ((lock_type, ACQUIRE_LOCK_BLOCKED),
              RecoverTxForLockConfilct leader_term (the lock) lock_type (aq_ng A) (aq_ng_term A) sh))"

definition AcquireCceKeyLock ::
    "(nat \<Rightarrow> int) \<Rightarrow> acquire_args \<Rightarrow> ('o, 'c) shard \<Rightarrow> (LockType \<times> CcErrorCode) \<times> ('o, 'c) shard" where
  "AcquireCceKeyLock leader_term A sh =
     (case snapshot_guard leader_term A sh of
        Some r \<Rightarrow> r
      | None \<Rightarrow>
          if aq_lock_type A = NoLock then acquire_finish leader_term A NoLock None Successful sh
          else if aq_lock_type A = WriteLock \<or> aq_lock_type A = WriteIntent \<or> aq_status A \<noteq> Deleted
          then let lock_ccm = (case aq_ccm A of None \<Rightarrow> aq_this A | Some m \<Rightarrow> m);
                   (lk, sh1) = GetOrCreateKeyLock (aq_cce A) (Some lock_ccm) (aq_page A) sh;
                   (st, l') = AcquireLock (aq_req A) (aq_protocol A) (aq_lock_type A) (key_lock (locks sh1 lk));
                   sh2 = with_lock lk (\<lambda>_. l') sh1
               in acquire_finish leader_term A (aq_lock_type A) (Some lk) st sh2
          else acquire_finish leader_term A NoLock (lock_of sh (aq_cce A)) Successful sh)"

definition release_on ::
    "(NonBlockingLock \<Rightarrow> cc_env \<Rightarrow> 'r \<times> NonBlockingLock \<times> cc_env) \<Rightarrow> nat \<Rightarrow> ('o, 'c) shard \<Rightarrow> 'r \<times> ('o, 'c) shard" where
  "release_on rel lk sh =
     (let (r, l', E') = rel (key_lock (locks sh lk)) (sh_env sh)
      in (r, (with_lock lk (\<lambda>_. l') sh)\<lparr>sh_env := E'\<rparr>))"

definition LockHandleForResumedRequest ::
    "acquire_args \<Rightarrow> bool \<Rightarrow> ('o, 'c) shard \<Rightarrow> (LockType \<times> CcErrorCode) \<times> ('o, 'c) shard" where
  "LockHandleForResumedRequest A is_covering_keys sh =
     (let txn = req_txn (aq_req A);
          acquired = DeduceLockType (aq_op A) (aq_iso A) (aq_protocol A) is_covering_keys;
          lk = the (lock_of sh (aq_cce A))
      in if acquired = ReadLock \<and> aq_status A = Deleted
         then let sh1 = snd (release_on (ReleaseReadLock txn) lk sh);
                  sh2 = snd (RecycleKeyLock (aq_cce A) sh1)
              in ((NoLock, NO_ERROR), DeleteLockHoldingTx txn (aq_cce A) (aq_ng A) sh2)
         else if acquired = WriteIntent \<and> aq_iso A = Snapshot \<and> aq_read_ts A < aq_commit_ts A
         then let sh1 = snd (release_on (ReleaseWriteIntent txn) lk sh);
                  sh2 = snd (RecycleKeyLock (aq_cce A) sh1)
              in ((NoLock, MVCC_READ_FOR_WRITE_CONFLICT), DeleteLockHoldingTx txn (aq_cce A) (aq_ng A) sh2)
         else ((acquired, NO_ERROR),
               UpsertLockHoldingTx txn (aq_tx_term A) (aq_cce A) (acquired = WriteLock) (aq_ng A) (aq_table_type A) sh))"

definition DowngradeCceKeyWriteLock :: "nat \<Rightarrow> TxNumber \<Rightarrow> ('o, 'c) shard \<Rightarrow> ('o, 'c) shard" where
  "DowngradeCceKeyWriteLock cce tx_number sh =
     (case lock_of sh cce of None \<Rightarrow> sh
      | Some lk \<Rightarrow> snd (release_on (\<lambda>l E. ((), DowngradeWriteLock tx_number l E)) lk sh))"

definition ReleaseCceLock ::
    "nat option \<Rightarrow> nat \<Rightarrow> TxNumber \<Rightarrow> nat \<Rightarrow> LockType \<Rightarrow> bool \<Rightarrow> ('o, 'c) shard \<Rightarrow> ('o, 'c) shard" where
  "ReleaseCceLock lock cce tx_number ng_id lty recycle_lock sh =
     (case lock of None \<Rightarrow> sh
      | Some lk \<Rightarrow>
          let (unlock_type, sh1) =
                (case lty of
                   ReadLock \<Rightarrow> release_on (\<lambda>l E. apfst (\<lambda>b. if b then ReadLock else NoLock) (ReleaseReadLock tx_number l E)) lk sh
                 | ReadIntent \<Rightarrow>
                     release_on (\<lambda>l E. let (b, l') = ReleaseReadIntent tx_number l
                                      in (if b then ReadIntent else NoLock, l', E)) lk sh
                 | WriteLock \<Rightarrow>
                     release_on (\<lambda>l E. apfst (\<lambda>b. if b then WriteLock else NoLock) (ReleaseWriteLock tx_number False l E)) lk sh
                 | _ \<Rightarrow> release_on (lock_ClearTx tx_number) lk sh)
          in if unlock_type \<noteq> NoLock
             then let sh2 = (if unlock_type = WriteLock then with_lock lk (SetWLockTs 0) sh1 else sh1);
                      sh3 = DeleteLockHoldingTx tx_number cce ng_id sh2
                  in if recycle_lock then snd (RecycleKeyLock cce sh3) else sh3
             else sh1)"

end
