(* ===== verification/Shard_Properties.thy ===== *)
theory Shard_Properties
  imports Cc_Shard
begin

text \<open>
  The lock array of a shard: every structure in use belongs to exactly one entry and every entry with
  a lock has one of its own, through growth, recycling and compaction of the array.
\<close>

section \<open>The invariant of the lock array\<close>

definition allocated :: "('o, 'c) shard \<Rightarrow> nat set" where
  "allocated sh = {a. Some a \<in> set (lock_vec sh)}"

definition used_locks :: "('o, 'c) shard \<Rightarrow> nat set" where
  "used_locks sh = {a \<in> allocated sh. in_use (locks sh a)}"

definition array_ok :: "('o, 'c) shard \<Rightarrow> bool" where
  "array_ok sh \<longleftrightarrow> lock_vec sh \<noteq> [] \<and> None \<notin> set (lock_vec sh) \<and> distinct (lock_vec sh) \<and>
     (\<forall>a \<in> allocated sh. a < next_addr sh) \<and> next_lock_idx sh < length (lock_vec sh)"

definition owners_ok :: "('o, 'c) shard \<Rightarrow> bool" where
  "owners_ok sh \<longleftrightarrow>
     (\<forall>e a. lock_of sh e = Some a \<longleftrightarrow> a \<in> used_locks sh \<and> lk_entry (locks sh a) = Some e) \<and>
     (\<forall>a \<in> used_locks sh. lk_entry (locks sh a) \<noteq> None) \<and>
     used_lock_count sh = of_nat (card (used_locks sh))"

definition lock_table_ok :: "('o, 'c) shard \<Rightarrow> bool" where
  "lock_table_ok sh \<longleftrightarrow> array_ok sh \<and> owners_ok sh"

lemma finite_used [simp]: "finite (used_locks sh)"
proof -
  have "used_locks sh \<subseteq> the ` set (lock_vec sh)"
    by (force simp: used_locks_def allocated_def)
  then show ?thesis by (rule finite_subset) simp
qed

lemma vec_lock_allocated:
  assumes "array_ok sh" "i < length (lock_vec sh)"
  shows "vec_lock sh i \<in> allocated sh" "lock_vec sh ! i = Some (vec_lock sh i)"
proof -
  have mem: "lock_vec sh ! i \<in> set (lock_vec sh)" using assms by simp
  then have "lock_vec sh ! i \<noteq> None" using assms(1) unfolding array_ok_def by metis
  then show "lock_vec sh ! i = Some (vec_lock sh i)" by (auto simp: vec_lock_def)
  then show "vec_lock sh i \<in> allocated sh" using mem by (simp add: allocated_def)
qed

section \<open>Allocation\<close>

lemma scan_lock_found:
  "idx < length (lock_vec sh) \<Longrightarrow> cnt \<le> length (lock_vec sh) \<Longrightarrow> scan_lock sh idx cnt = (i, n) \<Longrightarrow>
     i < length (lock_vec sh) \<and> n \<le> length (lock_vec sh) \<and>
     (n < length (lock_vec sh) \<longrightarrow> \<not> in_use (locks sh (vec_lock sh i)))"
proof (induction sh idx cnt rule: scan_lock.induct)
  case (1 sh idx cnt)
  let ?n = "length (lock_vec sh)"
  have pos: "0 < ?n" using 1(2) by linarith
  show ?case
  proof (cases "cnt < ?n \<and> in_use (locks sh (vec_lock sh idx))")
    case True
    then show ?thesis using 1 pos by (auto simp: scan_lock.simps [of sh idx cnt] split: if_splits)
  next
    case False
    then show ?thesis using 1 by (auto simp: scan_lock.simps [of sh idx cnt] split: if_splits)
  qed
qed

text \<open>The scan visits every slot once: it comes back empty-handed only if all are in use.\<close>

lemma scan_lock_full:
  assumes "idx < length (lock_vec sh)" "cnt \<le> length (lock_vec sh)" "scan_lock sh idx cnt = (i, length (lock_vec sh))"
    and "k < length (lock_vec sh) - cnt"
  shows "in_use (locks sh (vec_lock sh ((idx + k) mod length (lock_vec sh))))"
  using assms
proof (induction sh idx cnt arbitrary: k rule: scan_lock.induct)
  case (1 sh idx cnt)
  let ?n = "length (lock_vec sh)"
  let ?next = "if idx + 1 \<ge> ?n then 0 else idx + 1"
  have pos: "0 < ?n" and cnt: "cnt < ?n" using 1(2,5) by linarith+
  have used: "in_use (locks sh (vec_lock sh idx))"
    using 1(4) cnt by (auto simp: scan_lock.simps [of sh idx cnt] split: if_splits)
  have rest: "scan_lock sh ?next (cnt + 1) = (i, ?n)"
    using 1(4) cnt used by (simp add: scan_lock.simps [of sh idx cnt])
  show ?case
  proof (cases k)
    case 0
    then show ?thesis using used 1(2) by simp
  next
    case (Suc j)
    have "(?next + j) mod ?n = (idx + k) mod ?n"
    proof (cases "idx + 1 = ?n")
      case True
      then have "(idx + k) mod ?n = (?n + j) mod ?n" using Suc by (intro arg_cong [of _ _ "\<lambda>x. x mod ?n"]) linarith
      then show ?thesis using True by simp
    qed (use 1(2) Suc in auto)
    then show ?thesis using 1(1) [OF cnt _ _ _ rest, of j] used pos cnt 1(2,5) Suc by (auto split: if_splits)
  qed
qed

lemma grow_locks_ok:
  assumes "array_ok sh"
  shows "array_ok (grow_locks sh)" "used_locks (grow_locks sh) = used_locks sh"
    "\<forall>a \<in> allocated sh. locks (grow_locks sh) a = locks sh a"
    "\<not> in_use (locks (grow_locks sh) (vec_lock (grow_locks sh) (next_lock_idx (grow_locks sh))))"
proof -
  let ?n = "length (lock_vec sh)" and ?fresh = "[next_addr sh..<next_addr sh + length (lock_vec sh)]"
  have g: "lock_vec (grow_locks sh) = lock_vec sh @ map Some ?fresh" "next_lock_idx (grow_locks sh) = ?n"
      "next_addr (grow_locks sh) = next_addr sh + ?n"
      "locks (grow_locks sh) = (\<lambda>a. if a \<in> set ?fresh then kgl_new else locks sh a)"
    by (simp_all add: grow_locks_def Let_def)
  have pos: "0 < ?n" and old: "\<forall>a \<in> allocated sh. a < next_addr sh" using assms by (auto simp: array_ok_def)
  have alloc: "allocated (grow_locks sh) = allocated sh \<union> set ?fresh"
    by (auto simp: allocated_def g)
  show keep: "\<forall>a \<in> allocated sh. locks (grow_locks sh) a = locks sh a"
    using old by (auto simp: g)
  show "used_locks (grow_locks sh) = used_locks sh"
    using old by (auto simp: used_locks_def alloc g kgl_new_def)
  show "array_ok (grow_locks sh)"
    using assms old pos alloc by (auto simp: array_ok_def g distinct_map allocated_def)
  have "lock_vec (grow_locks sh) ! ?n = Some (next_addr sh)" using pos by (simp add: g nth_append)
  then have "vec_lock (grow_locks sh) ?n = next_addr sh" by (simp add: vec_lock_def)
  then show "\<not> in_use (locks (grow_locks sh) (vec_lock (grow_locks sh) (next_lock_idx (grow_locks sh))))"
    using pos by (simp add: g kgl_new_def)
qed

lemma Reset_empty:
  "kgl_IsEmpty (SetUsedStatus now True (kgl_Reset ccm page entry k))"
  "SearchLock t (key_lock (SetUsedStatus now True (kgl_Reset ccm page entry k))) = NoLock"
  by (simp_all add: kgl_IsEmpty_def SetUsedStatus_def kgl_Reset_def lock_IsEmpty_def lock_Reset_def Let_def
      cq_Reset_def cq_Size_def HasBufferedCommandList_def SearchLock_def)

lemma NewLock_ok:
  assumes ok: "array_ok sh" and new: "NewLock ccm page e sh = (lk, sh')"
  shows "array_ok sh'" "lk \<notin> used_locks sh" "used_locks sh' = insert lk (used_locks sh)"
    "used_lock_count sh' = used_lock_count sh + 1" "lock_of sh' = lock_of sh"
    "\<forall>a \<in> used_locks sh. locks sh' a = locks sh a"
    "lk_entry (locks sh' lk) = Some e" "sh_env sh' = sh_env sh" "lock_holding_txs sh' = lock_holding_txs sh"
    "kgl_IsEmpty (locks sh' lk)" "SearchLock t (key_lock (locks sh' lk)) = NoLock" "sh_now sh' = sh_now sh"
proof -
  obtain i n where scan: "scan_lock sh (next_lock_idx sh) 0 = (i, n)" by fastforce
  define sh1 where "sh1 = sh\<lparr>next_lock_idx := i\<rparr>"
  define sh2 where "sh2 = (if n = length (lock_vec sh1) then grow_locks sh1 else sh1)"
  have found: "i < length (lock_vec sh)" "n \<le> length (lock_vec sh)"
      "n < length (lock_vec sh) \<longrightarrow> \<not> in_use (locks sh (vec_lock sh i))"
    using scan_lock_found [OF _ _ scan] ok by (auto simp: array_ok_def)
  have sh1: "array_ok sh1" "used_locks sh1 = used_locks sh" "allocated sh1 = allocated sh" "locks sh1 = locks sh"
      "vec_lock sh1 = vec_lock sh" "lock_vec sh1 = lock_vec sh"
    using ok found by (auto simp: sh1_def array_ok_def used_locks_def allocated_def vec_lock_def fun_eq_iff)
  have sh2: "array_ok sh2" "used_locks sh2 = used_locks sh" "\<forall>a \<in> allocated sh. locks sh2 a = locks sh a"
      "\<not> in_use (locks sh2 (vec_lock sh2 (next_lock_idx sh2)))"
    using grow_locks_ok [OF sh1(1)] sh1 found by (auto simp: sh2_def) (simp add: sh1_def)
  have frame: "lock_of sh2 = lock_of sh" "sh_env sh2 = sh_env sh" "lock_holding_txs sh2 = lock_holding_txs sh"
      "used_lock_count sh2 = used_lock_count sh" "sh_now sh2 = sh_now sh"
    by (simp_all add: sh2_def sh1_def grow_locks_def Let_def)
  have res: "lk = vec_lock sh2 (next_lock_idx sh2)"
      "sh' = (upd_lock lk (SetUsedStatus (sh_now sh2) True \<circ> kgl_Reset ccm page (Some e)) sh2)
         \<lparr>used_lock_count := used_lock_count sh2 + 1,
          next_lock_idx := (if next_lock_idx sh2 + 1 = length (lock_vec sh2) then 0 else next_lock_idx sh2 + 1)\<rparr>"
    using new unfolding NewLock_def scan Let_def prod.case sh1_def [symmetric] sh2_def [symmetric]
    by (auto simp: upd_lock_def)
  have lk: "lk \<in> allocated sh2" "\<not> in_use (locks sh2 lk)"
    using vec_lock_allocated [OF sh2(1)] sh2(1,4) by (auto simp: res(1) array_ok_def)
  then have "lk \<notin> used_locks sh2" by (simp add: used_locks_def)
  then show "lk \<notin> used_locks sh" by (simp add: sh2(2))
  have vec: "lock_vec sh' = lock_vec sh2" "allocated sh' = allocated sh2" "next_addr sh' = next_addr sh2"
    by (simp_all add: res(2) upd_lock_def allocated_def)
  have lks: "locks sh' = (locks sh2)(lk := SetUsedStatus (sh_now sh2) True (kgl_Reset ccm page (Some e) (locks sh2 lk)))"
    by (simp add: res(2) upd_lock_def)
  show "array_ok sh'" using sh2(1) by (auto simp: array_ok_def vec) (auto simp: res(2) upd_lock_def)
  have "used_locks sh' = insert lk (used_locks sh2)"
    using lk by (auto simp: used_locks_def vec lks SetUsedStatus_def)
  then show "used_locks sh' = insert lk (used_locks sh)" by (simp add: sh2(2))
  show "used_lock_count sh' = used_lock_count sh + 1" "lock_of sh' = lock_of sh" "sh_env sh' = sh_env sh"
      "lock_holding_txs sh' = lock_holding_txs sh" "sh_now sh' = sh_now sh"
    by (simp_all add: res(2) upd_lock_def frame)
  show "\<forall>a \<in> used_locks sh. locks sh' a = locks sh a"
    using lk sh2(2,3) by (auto simp: lks used_locks_def)
  show "lk_entry (locks sh' lk) = Some e" by (simp add: lks SetUsedStatus_def kgl_Reset_def)
  show "kgl_IsEmpty (locks sh' lk)" "SearchLock t (key_lock (locks sh' lk)) = NoLock"
    by (simp_all add: lks Reset_empty)
qed

section \<open>Every operation keeps the invariant\<close>

lemma owners_iff:
  "owners_ok sh \<Longrightarrow> lock_of sh e = Some a \<longleftrightarrow> a \<in> used_locks sh \<and> lk_entry (locks sh a) = Some e"
  by (simp add: owners_ok_def)

lemma ownersI:
  assumes "\<And>e a. lock_of sh e = Some a \<longleftrightarrow> a \<in> used_locks sh \<and> lk_entry (locks sh a) = Some e"
    and "\<And>a. a \<in> used_locks sh \<Longrightarrow> lk_entry (locks sh a) \<noteq> None"
    and "used_lock_count sh = of_nat (card (used_locks sh))"
  shows "owners_ok sh"
  using assms by (simp add: owners_ok_def)

lemma owners_some: "owners_ok sh \<Longrightarrow> a \<in> used_locks sh \<Longrightarrow> lk_entry (locks sh a) \<noteq> None"
  by (simp add: owners_ok_def)

lemma owners_count: "owners_ok sh \<Longrightarrow> used_lock_count sh = of_nat (card (used_locks sh))"
  by (simp add: owners_ok_def)

lemma GetOrCreate_ok:
  assumes "lock_table_ok sh" "GetOrCreateKeyLock e ccm page sh = (lk, sh')"
  shows "lock_table_ok sh' \<and> lock_of sh' e = Some lk"
proof (cases "lock_of sh e")
  case (Some a)
  then show ?thesis using assms by (simp add: GetOrCreateKeyLock_def)
next
  case None
  obtain l sh1 where new: "NewLock ccm page e sh = (l, sh1)" by fastforce
  then have res: "lk = l" "sh' = sh1\<lparr>lock_of := (lock_of sh1)(e := Some l)\<rparr>"
    using assms(2) None by (auto simp: GetOrCreateKeyLock_def)
  note N = NewLock_ok [OF _ new]
  have own: "owners_ok sh" and arr: "array_ok sh" using assms(1) by (simp_all add: lock_table_ok_def)
  have arr': "array_ok sh'" and used: "used_locks sh' = insert l (used_locks sh)"
      and cnt: "used_lock_count sh' = used_lock_count sh + 1"
    using N(1,3,4) [OF arr] by (auto simp: res array_ok_def used_locks_def allocated_def)
  have lks: "lock_of sh' = (lock_of sh)(e := Some l)" "locks sh' = locks sh1"
    using N(5) [OF arr] by (simp_all add: res)
  have other: "lk_entry (locks sh a) \<noteq> Some e" if "a \<in> used_locks sh" for a
    using owners_iff [OF own, of e a] None that by simp
  have "owners_ok sh'"
  proof (rule ownersI)
    show "lock_of sh' x = Some a \<longleftrightarrow> a \<in> used_locks sh' \<and> lk_entry (locks sh' a) = Some x" for x a
      using owners_iff [OF own, of x a] other [of a] N(2,6,7) [OF arr]
      by (cases "a = l"; cases "x = e") (simp_all add: lks used, auto)
    show "lk_entry (locks sh' a) \<noteq> None" if "a \<in> used_locks sh'" for a
      using that owners_some [OF own, of a] N(6,7) [OF arr] by (cases "a = l") (simp_all add: lks used)
    show "used_lock_count sh' = of_nat (card (used_locks sh'))"
      using owners_count [OF own] N(2) [OF arr] by (simp add: used cnt)
  qed
  then show ?thesis using arr' by (simp add: lock_table_ok_def res(1) lks)
qed

text \<open>Giving a structure back: the entry forgets it and it counts as unused.\<close>

lemma release_ok:
  assumes "lock_table_ok sh" "lock_of sh e = Some lk"
    and "lock_vec sh' = lock_vec sh" "next_addr sh' = next_addr sh" "next_lock_idx sh' = next_lock_idx sh"
    and "lock_of sh' = (lock_of sh)(e := None)" "used_lock_count sh' = used_lock_count sh - 1"
    and "\<forall>a. a \<noteq> lk \<longrightarrow> locks sh' a = locks sh a" "\<not> in_use (locks sh' lk)"
  shows "lock_table_ok sh'"
proof -
  have own: "owners_ok sh" using assms(1) by (simp add: lock_table_ok_def)
  have used: "used_locks sh' = used_locks sh - {lk}"
    using assms by (auto simp: used_locks_def allocated_def)
  have lk: "lk \<in> used_locks sh" "lk_entry (locks sh lk) = Some e"
    using owners_iff [OF own, of e lk] assms(2) by simp_all
  have same: "a = lk" if "a \<in> used_locks sh" "lk_entry (locks sh a) = Some e" for a
    using owners_iff [OF own, of e a] assms(2) that by simp
  have "owners_ok sh'"
  proof (rule ownersI)
    show "lock_of sh' x = Some a \<longleftrightarrow> a \<in> used_locks sh' \<and> lk_entry (locks sh' a) = Some x" for x a
    proof (cases "a = lk")
      case True
      then show ?thesis using owners_iff [OF own, of x a] assms(6) lk by (auto simp: used)
    next
      case False
      then have "locks sh' a = locks sh a" using assms(8) by blast
      then show ?thesis
        using False owners_iff [OF own, of x a] same [of a] assms(6) by (auto simp: used)
    qed
    show "lk_entry (locks sh' a) \<noteq> None" if "a \<in> used_locks sh'" for a
    proof -
      have "a \<in> used_locks sh" "locks sh' a = locks sh a" using that assms(8) unfolding used by blast+
      then show ?thesis using owners_some [OF own, of a] by simp
    qed
    show "used_lock_count sh' = of_nat (card (used_locks sh'))"
    proof -
      have "card (used_locks sh) = Suc (card (used_locks sh'))"
        unfolding used by (rule card_Suc_Diff1 [OF finite_used lk(1), symmetric])
      then show ?thesis using owners_count [OF own] assms(7) by simp
    qed
  qed
  moreover have "array_ok sh'" using assms(1,3,4,5) by (simp add: lock_table_ok_def array_ok_def allocated_def)
  ultimately show ?thesis by (simp add: lock_table_ok_def)
qed

lemma Recycle_ok: "lock_table_ok sh \<Longrightarrow> lock_table_ok (snd (RecycleKeyLock e sh))"
  by (auto simp: RecycleKeyLock_def DecreaseLockCount_def upd_lock_def SetUsedStatus_def
      split: option.splits intro: release_ok)

lemma Delete_frame [simp]:
  "locks (DeleteLockHoldingTx t e ng sh) = locks sh" "lock_vec (DeleteLockHoldingTx t e ng sh) = lock_vec sh"
  "next_addr (DeleteLockHoldingTx t e ng sh) = next_addr sh" "next_lock_idx (DeleteLockHoldingTx t e ng sh) = next_lock_idx sh"
  "lock_of (DeleteLockHoldingTx t e ng sh) = lock_of sh" "used_lock_count (DeleteLockHoldingTx t e ng sh) = used_lock_count sh"
  "sh_env (DeleteLockHoldingTx t e ng sh) = sh_env sh" "sh_now (DeleteLockHoldingTx t e ng sh) = sh_now sh"
  by (simp_all add: DeleteLockHoldingTx_def Let_def split: option.splits)

lemma fold_Delete_frame [simp]:
  "locks (fold (\<lambda>t. DeleteLockHoldingTx t e ng) ts sh) = locks sh"
  "lock_vec (fold (\<lambda>t. DeleteLockHoldingTx t e ng) ts sh) = lock_vec sh"
  "next_addr (fold (\<lambda>t. DeleteLockHoldingTx t e ng) ts sh) = next_addr sh"
  "next_lock_idx (fold (\<lambda>t. DeleteLockHoldingTx t e ng) ts sh) = next_lock_idx sh"
  "lock_of (fold (\<lambda>t. DeleteLockHoldingTx t e ng) ts sh) = lock_of sh"
  "used_lock_count (fold (\<lambda>t. DeleteLockHoldingTx t e ng) ts sh) = used_lock_count sh"
  by (induction ts arbitrary: sh) simp_all

lemma ClearLocks_ok: "lock_table_ok sh \<Longrightarrow> lock_table_ok (ClearLocks e ng sh)"
proof (cases "lock_of sh e")
  case (Some lk)
  assume ok: "lock_table_ok sh"
  show ?thesis
    by (rule release_ok [OF ok Some])
       (auto simp: ClearLocks_def Some Let_def WriteTx_def AbortAllQueuedRequests_def DecreaseLockCount_def upd_lock_def
         UpdateBufferedCommandCnt_def SetUsedStatus_def kgl_Reset_def)
qed (simp add: ClearLocks_def)

text \<open>Changing the contents of structures in place.\<close>

lemma contents_ok:
  assumes "lock_table_ok sh" "lock_vec sh' = lock_vec sh" "next_addr sh' = next_addr sh"
    "next_lock_idx sh' = next_lock_idx sh" "lock_of sh' = lock_of sh" "used_lock_count sh' = used_lock_count sh"
    "\<forall>a. in_use (locks sh' a) = in_use (locks sh a) \<and> lk_entry (locks sh' a) = lk_entry (locks sh a)"
  shows "lock_table_ok sh'"
proof -
  have "used_locks sh' = used_locks sh" "allocated sh' = allocated sh"
    using assms by (simp_all add: used_locks_def allocated_def)
  then show ?thesis using assms by (simp add: lock_table_ok_def array_ok_def owners_ok_def)
qed

section \<open>Compaction\<close>

definition unsafe :: "('o, 'c) shard \<Rightarrow> nat option \<Rightarrow> bool" where
  "unsafe sh p \<longleftrightarrow> \<not> (case p of None \<Rightarrow> False | Some a \<Rightarrow> SafeToRecycle (sh_now sh) (locks sh a))"

lemma find_recyclable_spec:
  "low \<le> high \<Longrightarrow> find_recyclable sh vec low high = r \<Longrightarrow>
     low \<le> r \<and> r \<le> high \<and> (r < high \<longrightarrow> \<not> unsafe sh (vec ! r))"
proof (induction sh vec low high rule: find_recyclable.induct)
  case (1 sh vec low high)
  then show ?case
    by (cases "low < high \<and> unsafe sh (vec ! low)")
       (auto simp: find_recyclable.simps [of sh vec low high] unsafe_def split: if_splits)
qed

text \<open>What the compaction keeps of the live part of the array.\<close>

definition live_ok :: "('o, 'c) shard \<Rightarrow> nat option list \<Rightarrow> nat option list \<Rightarrow> bool" where
  "live_ok sh orig live \<longleftrightarrow> live \<noteq> [] \<and> None \<notin> set live \<and> distinct live \<and> set live \<subseteq> set orig \<and>
     {p \<in> set orig. unsafe sh p} \<subseteq> set live"

lemma live_drop:
  "live_ok sh orig (t @ [p]) \<Longrightarrow> \<not> unsafe sh p \<Longrightarrow> t \<noteq> [] \<Longrightarrow> live_ok sh orig t"
  by (auto simp: live_ok_def)

lemma live_move:
  assumes "live_ok sh orig (t @ [p])" "i < length t" "\<not> unsafe sh (t ! i)"
  shows "live_ok sh orig (t[i := p])"
proof -
  have t: "distinct t" "p \<notin> set t" "None \<notin> set t" "p \<noteq> None" "set t \<subseteq> set orig" "p \<in> set orig"
      "{q \<in> set orig. unsafe sh q} \<subseteq> insert p (set t)"
    using assms(1) by (auto simp: live_ok_def)
  have "set (t[i := p]) = insert p (set t - {t ! i})"
    using t(1) assms(2) by (simp add: set_update_distinct)
  moreover have "distinct (t[i := p])" using t(1,2) by (auto simp: distinct_list_update)
  ultimately show ?thesis using t assms(2,3) by (auto simp: live_ok_def)
qed

lemma shrink_loop_spec:
  assumes "shrink_loop sh expect vec low high = (vec', high')" "high < length vec" "live_ok sh orig (take (Suc high) vec)"
  shows "live_ok sh orig (take (Suc high') vec') \<and> high' < length vec' \<and> high' \<le> high"
  using assms
proof (induction sh expect vec low high rule: shrink_loop.induct)
  case (1 sh expect vec low high)
  have split: "take (Suc high) vec = take high vec @ [vec ! high]"
    using 1(4) by (simp add: take_Suc_conv_app_nth)
  show ?case
  proof (cases "high \<ge> expect \<and> high > low")
    case False
    then show ?thesis using "1.prems" by (auto simp: shrink_loop.simps [of sh expect vec low high])
  next
    case go: True
    then have ne: "take high vec \<noteq> []" "Suc (high - 1) = high" using 1(4) by auto
    show ?thesis
    proof (cases "unsafe sh (vec ! high)")
      case False
      then have rest: "shrink_loop sh expect vec low (high - 1) = (vec', high')"
        using 1(3) go by (simp add: shrink_loop.simps [of sh expect vec low high] unsafe_def)
      have "live_ok sh orig (take high vec)" using live_drop [OF _ False] 1(5) split ne by simp
      then have "live_ok sh orig (take (Suc high') vec') \<and> high' < length vec' \<and> high' \<le> high - 1"
        using False 1(4) ne by (intro 1(1) [OF go _ rest]) (simp_all add: unsafe_def)
      then show ?thesis by linarith
    next
      case True
      define r where "r = find_recyclable sh vec low high"
      have r: "low \<le> r" "r \<le> high" "r < high \<Longrightarrow> \<not> unsafe sh (vec ! r)"
        using find_recyclable_spec [of low high sh vec r] go by (auto simp: r_def)
      show ?thesis
      proof (cases "r = high")
        case True
        then show ?thesis
          using \<open>unsafe sh (vec ! high)\<close> "1.prems" go
          by (auto simp: shrink_loop.simps [of sh expect vec low high] unsafe_def r_def Let_def)
      next
        case False
        let ?vec = "vec[r := vec ! high, high := None]"
        have rest: "shrink_loop sh expect ?vec (r + 1) (high - 1) = (vec', high')"
          using 1(3) go True False
          by (simp add: shrink_loop.simps [of sh expect vec low high] unsafe_def r_def Let_def)
        have "take high ?vec = (take high vec)[r := vec ! high]"
          using r(2) False by (simp add: take_update_swap list_update_beyond)
        then have "live_ok sh orig (take (Suc (high - 1)) ?vec)"
          using live_move [of sh orig "take high vec" "vec ! high" r] 1(4,5) split r False ne by simp
        moreover have "high - 1 < length ?vec" using 1(4) by simp
        ultimately have "live_ok sh orig (take (Suc high') vec') \<and> high' < length vec' \<and> high' \<le> high - 1"
          using True False by (intro 1(2) [OF go _ r_def _ rest]) (simp_all add: unsafe_def)
        then show ?thesis by linarith
      qed
    qed
  qed
qed

lemma TryResize_ok:
  assumes "lock_table_ok sh"
  shows "lock_table_ok (TryResizeLockArray sh)"
proof (cases "lock_vec (TryResizeLockArray sh) = lock_vec sh \<and> next_lock_idx (TryResizeLockArray sh) = next_lock_idx sh")
  case True
  have "locks (TryResizeLockArray sh) = locks sh" "next_addr (TryResizeLockArray sh) = next_addr sh"
      "lock_of (TryResizeLockArray sh) = lock_of sh" "used_lock_count (TryResizeLockArray sh) = used_lock_count sh"
    by (simp_all add: TryResizeLockArray_def Let_def split: prod.split)
  then show ?thesis using True by (intro contents_ok [OF assms]) simp_all
next
  case False
  let ?n = "length (lock_vec sh)" and ?e = "length (lock_vec sh) div 2 ^ (LOCK_VECTOR_SHRINK_THRESHOLD - 1)"
  obtain vec high where loop: "shrink_loop sh ?e (lock_vec sh) 0 (?n - 1) = (vec, high)" by fastforce
  have arr: "array_ok sh" using assms by (simp add: lock_table_ok_def)
  then have "0 < ?n" by (simp add: array_ok_def)
  then have "take (Suc (?n - 1)) (lock_vec sh) = lock_vec sh" by simp
  then have live: "live_ok sh (lock_vec sh) (take (Suc high) vec)" "high < length vec"
    using shrink_loop_spec [OF loop, of "lock_vec sh"] arr \<open>0 < ?n\<close> by (auto simp: live_ok_def array_ok_def)
  define sh' where "sh' = sh\<lparr>lock_sparse_num := 0, lock_vec := take (Suc high) vec,
     next_lock_idx := (if next_lock_idx sh \<ge> Suc high then 0 else next_lock_idx sh)\<rparr>"
  have res: "TryResizeLockArray sh = sh'"
    using False loop live(2) by (auto simp: TryResizeLockArray_def Let_def sh'_def split: if_splits)
  have "used_locks sh' = used_locks sh"
  proof -
    have "Some a \<in> set (take (Suc high) vec)" if "Some a \<in> set (lock_vec sh)" "in_use (locks sh a)" for a
      using live(1) that by (auto simp: live_ok_def unsafe_def SafeToRecycle_def)
    then show ?thesis using live(1) by (auto simp: used_locks_def allocated_def live_ok_def sh'_def)
  qed
  moreover have "array_ok sh'"
    using arr live by (auto simp: array_ok_def allocated_def live_ok_def sh'_def)
  ultimately show ?thesis
    using assms by (simp add: res lock_table_ok_def owners_ok_def) (simp add: sh'_def)
qed

section \<open>The lock array of a running shard\<close>

datatype shard_op =
    ShAcquire nat "nat option" "nat option"
  | ShKeyLock nat NonBlockingLock
  | ShRecycle nat
  | ShClear nat nat
  | ShTime u64
  | ShResize

primrec shard_exec :: "shard_op \<Rightarrow> ('o, 'c) shard \<Rightarrow> ('o, 'c) shard" where
  "shard_exec (ShAcquire e ccm page) sh = snd (GetOrCreateKeyLock e ccm page sh)"
| "shard_exec (ShKeyLock e l) sh =
     (case lock_of sh e of None \<Rightarrow> sh | Some a \<Rightarrow> upd_lock a (\<lambda>k. k\<lparr>key_lock := l\<rparr>) sh)"
| "shard_exec (ShRecycle e) sh = snd (RecycleKeyLock e sh)"
| "shard_exec (ShClear e ng) sh = ClearLocks e ng sh"
| "shard_exec (ShTime ts) sh = UpdateTsBase ts sh"
| "shard_exec ShResize sh = TryResizeLockArray sh"

definition shard_init :: "('o, 'c) shard" where
  "shard_init = \<lparr>locks = (\<lambda>_. kgl_new), next_addr = LOCK_ARRAY_INIT_SIZE,
     lock_vec = map Some [0..<LOCK_ARRAY_INIT_SIZE], next_lock_idx = 0, used_lock_count = 0, lock_sparse_num = 0,
     lock_of = (\<lambda>_. None), lock_holding_txs = [], sh_now = 0, sh_env = \<lparr>enqueued = [], aborted = []\<rparr>,
     recovered = [], buffered_cmd_cnt = 0\<rparr>"

lemma LOCK_ARRAY_INIT_SIZE_pos: "0 < LOCK_ARRAY_INIT_SIZE"
  by (simp add: LOCK_ARRAY_INIT_SIZE_def)

lemma shard_init_ok: "lock_table_ok shard_init"
  using LOCK_ARRAY_INIT_SIZE_pos
  by (auto simp: lock_table_ok_def array_ok_def owners_ok_def used_locks_def allocated_def shard_init_def
      kgl_new_def distinct_map)

lemma upd_key_lock_ok: "lock_table_ok sh \<Longrightarrow> lock_table_ok (upd_lock a (\<lambda>k. k\<lparr>key_lock := l\<rparr>) sh)"
  by (erule contents_ok) (simp_all add: upd_lock_def)

lemma UpdateTsBase_ok: "lock_table_ok sh \<Longrightarrow> lock_table_ok (UpdateTsBase ts sh)"
  by (simp add: UpdateTsBase_def lock_table_ok_def array_ok_def owners_ok_def used_locks_def allocated_def)

lemma shard_exec_ok: "lock_table_ok sh \<Longrightarrow> lock_table_ok (shard_exec p sh)"
  by (cases p)
     (auto simp: Recycle_ok ClearLocks_ok TryResize_ok UpdateTsBase_ok upd_key_lock_ok split: option.splits
       intro: GetOrCreate_ok [THEN conjunct1, OF _ surjective_pairing])

lemma shard_run_ok: "lock_table_ok sh \<Longrightarrow> lock_table_ok (fold shard_exec ops sh)"
  by (induction ops arbitrary: sh) (simp_all add: shard_exec_ok)

text \<open>
  C29: Lock structures are neither shared nor lost. After any sequence of lock assignments, changes of
  key locks, recyclings, forced clearings, advances of the clock and compactions of the array of a fresh
  shard, the array has no empty slot and no structure twice, no two entries share a structure, the structure of an entry is in
  the array, marked as used and points back to the entry, every structure marked as used belongs to an
  entry, and the counter counts them.
\<close>
theorem lock_structures_owned:
  "let sh = fold shard_exec ops (shard_init :: ('o, 'c) shard)
   in None \<notin> set (lock_vec sh) \<and> distinct (lock_vec sh) \<and>
      (\<forall>e e' a. lock_of sh e = Some a \<and> lock_of sh e' = Some a \<longrightarrow> e = e') \<and>
      (\<forall>e a. lock_of sh e = Some a \<longleftrightarrow>
         Some a \<in> set (lock_vec sh) \<and> in_use (locks sh a) \<and> lk_entry (locks sh a) = Some e) \<and>
      (\<forall>a. Some a \<in> set (lock_vec sh) \<and> in_use (locks sh a) \<longrightarrow> lk_entry (locks sh a) \<noteq> None) \<and>
      used_lock_count sh = of_nat (card {a. Some a \<in> set (lock_vec sh) \<and> in_use (locks sh a)})"
proof -
  define sh :: "('o, 'c) shard" where "sh = fold shard_exec ops shard_init"
  have "lock_table_ok sh" unfolding sh_def by (rule shard_run_ok [OF shard_init_ok])
  then have ok: "array_ok sh" "owners_ok sh" by (simp_all add: lock_table_ok_def)
  have u: "a \<in> used_locks sh \<longleftrightarrow> Some a \<in> set (lock_vec sh) \<and> in_use (locks sh a)" for a
    by (simp add: used_locks_def allocated_def)
  have us: "used_locks sh = {a. Some a \<in> set (lock_vec sh) \<and> in_use (locks sh a)}" using u by blast
  have own: "lock_of sh e = Some a \<longleftrightarrow>
      Some a \<in> set (lock_vec sh) \<and> in_use (locks sh a) \<and> lk_entry (locks sh a) = Some e" for e a
    using owners_iff [OF ok(2), of e a] u by blast
  show ?thesis
    unfolding Let_def sh_def [symmetric]
    using ok(1) own owners_some [OF ok(2)] owners_count [OF ok(2)] unfolding us array_ok_def by auto
qed

theorem lock_structures_owned_witness:
  "let sh = fold shard_exec [ShAcquire 4 None None, ShAcquire 5 None None] (shard_init :: (nat, nat) shard)
   in lock_of sh 5 \<noteq> None \<and> lock_of sh 4 \<noteq> lock_of sh 5"
proof -
  define sh1 where "sh1 = fold shard_exec [ShAcquire 4 None None] (shard_init :: (nat, nat) shard)"
  define sh where "sh = fold shard_exec [ShAcquire 4 None None, ShAcquire 5 None None] (shard_init :: (nat, nat) shard)"
  have "lock_table_ok sh1" unfolding sh1_def by (rule shard_run_ok [OF shard_init_ok])
  then have "lock_of (snd (GetOrCreateKeyLock 5 None None sh1)) 5 \<noteq> None"
    using GetOrCreate_ok [of sh1 5 None None, OF _ surjective_pairing] by simp
  then have "lock_of sh 5 \<noteq> None" by (simp add: sh_def sh1_def)
  moreover have "lock_of sh e = Some a \<Longrightarrow> lock_of sh e' = Some a \<Longrightarrow> e = e'" for e e' a
    using lock_structures_owned [where ?'o = nat and ?'c = nat and ops = "[ShAcquire 4 None None, ShAcquire 5 None None]"]
    unfolding Let_def sh_def [symmetric] by (elim conjE) simp
  then have "lock_of sh 4 \<noteq> lock_of sh 5" if "lock_of sh 5 \<noteq> None"
    using that by (metis numeral_eq_iff num.distinct(3,5) option.exhaust num.inject)
  ultimately show ?thesis unfolding Let_def sh_def [symmetric] by simp
qed

text \<open>
  C30: The lock array grows only when it is full: if some structure of the array is unused, assigning a
  lock reuses a structure, wherever the scan starts, and the array keeps its size.
\<close>
theorem NewLock_reuses:
  assumes "array_ok sh" "a \<in> allocated sh" "\<not> in_use (locks sh a)"
  shows "lock_vec (snd (NewLock ccm page e sh)) = lock_vec sh"
proof -
  let ?n = "length (lock_vec sh)"
  obtain i n where scan: "scan_lock sh (next_lock_idx sh) 0 = (i, n)" by fastforce
  obtain j where j: "j < ?n" "lock_vec sh ! j = Some a"
    using assms(2) by (auto simp: allocated_def in_set_conv_nth)
  have idx: "next_lock_idx sh < ?n" using assms(1) by (simp add: array_ok_def)
  have "n \<noteq> ?n"
  proof
    assume "n = ?n"
    then have "in_use (locks sh (vec_lock sh ((next_lock_idx sh + k) mod ?n)))" if "k < ?n" for k
      using scan_lock_full [OF idx _ _, of 0 i k] scan that by simp
    moreover define k where "k = (if next_lock_idx sh \<le> j then j - next_lock_idx sh else ?n - next_lock_idx sh + j)"
    have "k < ?n" "(next_lock_idx sh + k) mod ?n = j" using idx j by (auto simp: k_def)
    ultimately have "in_use (locks sh (vec_lock sh j))" by metis
    then show False using j assms(3) by (simp add: vec_lock_def)
  qed
  then show ?thesis by (simp add: NewLock_def scan Let_def upd_lock_def)
qed

theorem NewLock_reuses_witness:
  "length (lock_vec (snd (NewLock None None 7 (shard_init :: (nat, nat) shard)))) = LOCK_ARRAY_INIT_SIZE"
proof -
  have "array_ok (shard_init :: (nat, nat) shard)" 
    by (rule shard_init_ok [unfolded lock_table_ok_def, THEN conjunct1])
  moreover have "0 \<in> allocated (shard_init :: (nat, nat) shard)" "\<not> in_use (locks (shard_init :: (nat, nat) shard) 0)"
    using LOCK_ARRAY_INIT_SIZE_pos by (simp_all add: allocated_def shard_init_def kgl_new_def)
  ultimately show ?thesis
    using NewLock_reuses [of "shard_init :: (nat, nat) shard" 0 None None 7] by (simp add: shard_init_def)
qed

end
