(* ===== verification/Lock_Holders.thy ===== *)
theory Lock_Holders
  imports Cc_Map_Lock Shard_Properties Lock_Refinement
begin

text \<open>
  Every lock of a transaction can be found. The shard's table of lock holders lists the entries on
  which a transaction holds a lock, and recovery, \<open>ClearTx\<close> and the checkpoint timestamp rely on it.
  The invariant here: the holder of a key lock is listed, or its request was just woken and is still in
  the shard's queue. The function \<open>site\<close> gives the entry at which a request waits; a request that
  waits again has a new identity.
\<close>

section \<open>Holders and the effect of waking\<close>

definition holdset :: "NonBlockingLock \<Rightarrow> TxNumber set" where
  "holdset l = fst ` holders_of l"

definition one_kind :: "TxNumber \<Rightarrow> NonBlockingLock \<Rightarrow> bool" where
  "one_kind t l \<longleftrightarrow> (\<forall>h k. (t, h) \<in> holders_of l \<and> (t, k) \<in> holders_of l \<longrightarrow> h = k)"

definition wakes_to ::
    "TxNumber set \<Rightarrow> NonBlockingLock \<Rightarrow> cc_env \<Rightarrow> NonBlockingLock \<Rightarrow> cc_env \<Rightarrow> bool" where
  "wakes_to H l E l' E' \<longleftrightarrow> lock_inv l' \<and>
     (\<exists>ps. cq_list (blocking_queue l) = ps @ cq_list (blocking_queue l') \<and>
        enqueued E' = enqueued E @ map lqe_req ps \<and> holdset l' \<subseteq> H \<union> lqe_txn ` set ps)"

lemma wakes_to_refl: "lock_inv l \<Longrightarrow> wakes_to (holdset l) l E l E"
  by (simp add: wakes_to_def)

lemma wakes_to_mono: "wakes_to H l E l' E' \<Longrightarrow> H \<subseteq> H' \<Longrightarrow> wakes_to H' l E l' E'"
  unfolding wakes_to_def by blast

lemma serve_wakes:
  "\<exists>ps. es = ps @ waiting (fst (serve es s E)) \<and> enqueued (snd (serve es s E)) = enqueued E @ map lqe_req ps \<and>
     fst ` holders (fst (serve es s E)) \<subseteq> fst ` holders s \<union> lqe_txn ` set ps"
proof (induction es arbitrary: s E)
  case (Cons e es)
  show ?case
  proof (cases "grantable s (lqe_txn e) (lk_type e)")
    case True
    have sub: "fst ` holders (grant (lqe_txn e) (lk_type e) s) \<subseteq> insert (lqe_txn e) (fst ` holders s)"
      by (auto simp: grant_def)
    let ?s = "grant (lqe_txn e) (lk_type e) s" and ?E = "ccs_Enqueue (lqe_req e) E"
    have step: "serve (e # es) s E = serve es ?s ?E" using True by simp
    obtain ps where "es = ps @ waiting (fst (serve es ?s ?E))"
        "enqueued (snd (serve es ?s ?E)) = enqueued ?E @ map lqe_req ps"
        "fst ` holders (fst (serve es ?s ?E)) \<subseteq> fst ` holders ?s \<union> lqe_txn ` set ps"
      using Cons [of ?s ?E] by blast
    moreover from this(3) sub
    have "fst ` holders (fst (serve es ?s ?E)) \<subseteq> insert (lqe_txn e) (fst ` holders s) \<union> lqe_txn ` set ps" by blast
    ultimately have "e # es = (e # ps) @ waiting (fst (serve (e # es) s E)) \<and>
        enqueued (snd (serve (e # es) s E)) = enqueued E @ map lqe_req (e # ps) \<and>
        fst ` holders (fst (serve (e # es) s E)) \<subseteq> fst ` holders s \<union> lqe_txn ` set (e # ps)"
      unfolding step by (simp add: ccs_Enqueue_def)
    then show ?thesis by blast
  qed simp
qed simp

lemma TryPop_wakes:
  assumes "lock_inv l" "TryPopBlockingQueue l E = (l', E')"
  shows "wakes_to (holdset l) l E l' E'"
  using TryPop_abs [OF assms] serve_wakes [of "waiting (lock_abs l)" "lock_abs l" E]
  by (simp add: wakes_to_def holdset_def)

lemma holdset_remove: "one_kind t l \<Longrightarrow> (t, h) \<in> holders_of l \<Longrightarrow> fst ` (holders_of l - {(t, h)}) \<subseteq> holdset l - {t}"
  by (auto simp: one_kind_def holdset_def image_iff)

lemma wakes_to_from:
  assumes "lock_inv l1" "cq_list (blocking_queue l1) = cq_list (blocking_queue l)" "TryPopBlockingQueue l1 E = (l', E')"
    and "holdset l1 \<subseteq> H"
  shows "wakes_to H l E l' E'"
proof -
  obtain ps where "lock_inv l'" "cq_list (blocking_queue l1) = ps @ cq_list (blocking_queue l')"
      "enqueued E' = enqueued E @ map lqe_req ps" "holdset l' \<subseteq> holdset l1 \<union> lqe_txn ` set ps"
    using TryPop_wakes [OF assms(1,3)] unfolding wakes_to_def by blast
  moreover from this(4) assms(4) have "holdset l' \<subseteq> H \<union> lqe_txn ` set ps" by blast
  ultimately show ?thesis using assms(2) unfolding wakes_to_def by auto
qed

text \<open>A release by \<open>t\<close>: the lock of \<open>t\<close> is gone if it had one kind of lock.\<close>

definition remaining :: "TxNumber \<Rightarrow> bool \<Rightarrow> NonBlockingLock \<Rightarrow> TxNumber set" where
  "remaining t released l = (if released \<and> one_kind t l then holdset l - {t} else holdset l)"

lemma remaining_sub: "remaining t b l \<subseteq> holdset l"
  by (auto simp: remaining_def)

lemma remaining_after:
  assumes "(t, h) \<in> holders_of l" "holders_of l1 = holders_of l - {(t, h)}"
  shows "holdset l1 \<subseteq> remaining t True l"
proof (cases "one_kind t l")
  case True
  then show ?thesis using holdset_remove [OF True assms(1)] assms(2) by (simp add: remaining_def holdset_def)
qed (use assms(2) in \<open>auto simp: remaining_def holdset_def\<close>)

lemma remaining_False [simp]: "remaining t False l = holdset l"
  by (simp add: remaining_def)

lemma ReleaseReadLock_wakes:
  assumes "lock_inv l" "ReleaseReadLock t l E = (b, l', E')"
  shows "wakes_to (remaining t b l) l E l' E'" "b \<longleftrightarrow> t \<in> read_locks l"
proof -
  show "b \<longleftrightarrow> t \<in> read_locks l" using assms(2) by (auto simp: ReleaseReadLock_def split: if_splits)
  show "wakes_to (remaining t b l) l E l' E'"
  proof (cases "t \<in> read_locks l")
    case True
    then have b: "b" "TryPopBlockingQueue (l\<lparr>read_locks := read_locks l - {t}\<rparr>) E = (l', E')"
      using assms(2) by (auto simp: ReleaseReadLock_def split: if_splits)
    show ?thesis
      by (rule wakes_to_from [OF _ _ b(2)])
         (use assms(1) True b(1) remaining_after [of t ReadLock l, OF _ holders_of_updates(2)] in simp_all)
  qed (use assms in \<open>auto simp: ReleaseReadLock_def wakes_to_refl split: if_splits\<close>)
qed

lemma ReleaseWriteLock_wakes:
  assumes "lock_inv l" "ReleaseWriteLock t False l E = (b, l', E')"
  shows "wakes_to (remaining t b l) l E l' E'"
proof (cases "write_lk_type l = WLT_WriteLock \<and> write_txn l = t")
  case True
  then have b: "b" "TryPopBlockingQueue (l\<lparr>write_lk_type := NoWritelock, write_txn := 0\<rparr>) E = (l', E')"
    using assms(2) by (auto simp: ReleaseWriteLock_def)
  show ?thesis
    by (rule wakes_to_from [OF _ _ b(2)])
       (use assms(1) True b(1) remaining_after [of t WriteLock l, OF _ holders_of_updates(5)] in simp_all)
qed (use assms in \<open>auto simp: ReleaseWriteLock_def wakes_to_refl\<close>)

lemma ReleaseWriteIntent_wakes:
  assumes "lock_inv l" "ReleaseWriteIntent t l E = (b, l', E')"
  shows "wakes_to (remaining t b l) l E l' E'" "b \<longleftrightarrow> (t, WriteIntent) \<in> holders_of l"
proof -
  show "b \<longleftrightarrow> (t, WriteIntent) \<in> holders_of l" using assms(2) by (auto simp: ReleaseWriteIntent_def split: if_splits)
  show "wakes_to (remaining t b l) l E l' E'"
  proof (cases "write_lk_type l = WLT_WriteIntent \<and> write_txn l = t")
    case True
    then have b: "b" "TryPopBlockingQueue (l\<lparr>write_lk_type := NoWritelock, write_txn := 0\<rparr>) E = (l', E')"
      using assms(2) by (auto simp: ReleaseWriteIntent_def)
    show ?thesis
      by (rule wakes_to_from [OF _ _ b(2)])
         (use assms(1) True b(1) remaining_after [of t WriteIntent l, OF _ holders_of_updates(6)] in simp_all)
  qed (use assms in \<open>auto simp: ReleaseWriteIntent_def wakes_to_refl\<close>)
qed

lemma ReleaseReadIntent_wakes:
  assumes "lock_inv l" "ReleaseReadIntent t l = (b, l')"
  shows "wakes_to (remaining t b l) l E l' E"
proof (cases "t \<in> read_intentions l")
  case True
  then have "b" "l' = l\<lparr>read_intentions := read_intentions l - {t}\<rparr>"
    using assms(2) by (auto simp: ReleaseReadIntent_def split: if_splits)
  then show ?thesis
    using assms(1) True remaining_after [of t ReadIntent l, OF _ holders_of_updates(3)] by (simp add: wakes_to_def)
qed (use assms in \<open>auto simp: ReleaseReadIntent_def wakes_to_refl split: if_splits\<close>)

lemma Downgrade_wakes:
  assumes "lock_inv l" "DowngradeWriteLock t l E = (l', E')"
  shows "wakes_to (holdset l) l E l' E'"
proof (cases "write_lk_type l = WLT_WriteLock \<and> write_txn l = t")
  case True
  then have "TryPopBlockingQueue (l\<lparr>write_lk_type := WLT_WriteIntent\<rparr>) E = (l', E')"
    using assms(2) by (auto simp: DowngradeWriteLock_def)
  moreover have "t \<in> holdset l"
    unfolding holdset_def by (rule image_eqI [of _ _ "(t, WriteLock)"]) (use True in simp_all)
  then have "holdset (l\<lparr>write_lk_type := WLT_WriteIntent\<rparr>) \<subseteq> holdset l"
    using holders_of_updates(7) [of l t] True by (auto simp: holdset_def)
  ultimately show ?thesis using assms(1) by (intro wakes_to_from) simp_all
qed (use assms in \<open>auto simp: DowngradeWriteLock_def wakes_to_refl\<close>)

lemma ClearTx_wakes:
  assumes inv: "lock_inv l" and clear: "lock_ClearTx t l E = (lt, l', E')"
  shows "wakes_to (remaining t True l) l E l' E'"
proof -
  have absent: "wakes_to (remaining t True l) l E l E" if "t \<notin> holdset l"
    using wakes_to_refl [OF inv] that by (simp add: remaining_def)
  consider "t \<in> read_locks l" | "t \<notin> read_locks l" "t \<in> read_intentions l"
    | "t \<notin> read_locks l" "t \<notin> read_intentions l" "write_lk_type l = WLT_WriteLock" "write_txn l = t"
    | "t \<notin> read_locks l" "t \<notin> read_intentions l" "write_lk_type l = WLT_WriteIntent" "write_txn l = t"
    | "t \<notin> read_locks l" "t \<notin> read_intentions l" "write_lk_type l = NoWritelock \<or> write_txn l \<noteq> t"
    by (cases "write_lk_type l") auto
  then show ?thesis
  proof cases
    case 1
    obtain b l1 E1 where rel: "ReleaseReadLock t l E = (b, l1, E1)" by (metis prod_cases3)
    then show ?thesis
      using ReleaseReadLock_wakes [OF inv rel] 1 clear by (auto simp: lock_ClearTx_def)
  next
    case 2
    obtain b l1 where rel: "ReleaseReadIntent t l = (b, l1)" by fastforce
    then have "b" using 2 by (auto simp: ReleaseReadIntent_def split: if_splits)
    moreover have "\<not> fst (ReleaseReadLock t l E)" "snd (ReleaseReadLock t l E) = (l, E)"
      using 2 by (auto simp: ReleaseReadLock_def)
    ultimately show ?thesis
      using ReleaseReadIntent_wakes [OF inv rel, of E] 2 clear rel by (auto simp: lock_ClearTx_def split: prod.splits)
  next
    case 3
    then have "TryPopBlockingQueue (l\<lparr>write_lk_type := NoWritelock, write_txn := 0\<rparr>) E = (l', E')"
      using clear by (auto simp: lock_ClearTx_def ReleaseReadLock_def ReleaseReadIntent_def Let_def split: if_splits)
    then show ?thesis
      by (rule wakes_to_from [rotated 2])
         (use inv 3 remaining_after [of t WriteLock l, OF _ holders_of_updates(5)] in simp_all)
  next
    case 4
    then have "TryPopBlockingQueue (l\<lparr>write_lk_type := NoWritelock, write_txn := 0\<rparr>) E = (l', E')"
      using clear by (auto simp: lock_ClearTx_def ReleaseReadLock_def ReleaseReadIntent_def Let_def split: if_splits)
    then show ?thesis
      by (rule wakes_to_from [rotated 2])
         (use inv 4 remaining_after [of t WriteIntent l, OF _ holders_of_updates(6)] in simp_all)
  next
    case 5
    then have "l' = l" "E' = E"
      using clear by (auto simp: lock_ClearTx_def ReleaseReadLock_def ReleaseReadIntent_def Let_def split: if_splits)
    moreover have "t \<notin> holdset l"
      using 5 by (auto simp: holdset_def holders_of_def split: WriteLockType.splits)
    ultimately show ?thesis using absent by simp
  qed
qed

lemma AcquireLock_holdset:
  assumes "lock_inv l" "AcquireLock r p lt l = (st, l')"
  shows "lock_inv l'" "holdset l' \<subseteq> (if st = Successful then insert (req_txn r) (holdset l) else holdset l)"
    "set (cq_list (blocking_queue l')) \<subseteq> insert \<lparr>lqe_req = r, lk_type = lt\<rparr> (set (cq_list (blocking_queue l)))"
proof -
  have spec: "lock_inv l'" "spec_acquire r p lt (lock_abs l) = (st, lock_abs l')"
    using AcquireLock_abs [OF assms] by simp_all
  then show "lock_inv l'" by simp
  have h: "holders_of l' = holders (snd (spec_acquire r p lt (lock_abs l)))"
      "cq_list (blocking_queue l') = waiting (snd (spec_acquire r p lt (lock_abs l)))"
      "st = fst (spec_acquire r p lt (lock_abs l))"
    using spec(2) by simp_all
  show "holdset l' \<subseteq> (if st = Successful then insert (req_txn r) (holdset l) else holdset l)"
    unfolding holdset_def h by (auto simp: spec_acquire_def grant_def)
  show "set (cq_list (blocking_queue l')) \<subseteq> insert \<lparr>lqe_req = r, lk_type = lt\<rparr> (set (cq_list (blocking_queue l)))"
    unfolding h by (auto simp: spec_acquire_def grant_def)
qed

section \<open>The invariant\<close>

definition registered :: "('o, 'c) shard \<Rightarrow> TxNumber \<Rightarrow> nat \<Rightarrow> bool" where
  "registered sh t e \<longleftrightarrow> (\<exists>ng info. map_of (ng_txs ng sh) t = Some info \<and> e \<in> set (cce_list info))"

definition woken_at :: "(nat \<Rightarrow> nat) \<Rightarrow> ('o, 'c) shard \<Rightarrow> TxNumber \<Rightarrow> nat \<Rightarrow> bool" where
  "woken_at site sh t e \<longleftrightarrow> (\<exists>r \<in> set (enqueued (sh_env sh)). req_txn r = t \<and> site (req_id r) = e)"

definition key_lock_of :: "('o, 'c) shard \<Rightarrow> nat \<Rightarrow> NonBlockingLock" where
  "key_lock_of sh a = key_lock (locks sh a)"

text \<open>\<open>X\<close> are holders that are exempt while an operation is under way.\<close>

definition entry_ok :: "(nat \<Rightarrow> nat) \<Rightarrow> (TxNumber \<times> nat) set \<Rightarrow> ('o, 'c) shard \<Rightarrow> nat \<Rightarrow> NonBlockingLock \<Rightarrow> bool" where
  "entry_ok site X sh e l \<longleftrightarrow>
     (\<forall>q \<in> set (cq_list (blocking_queue l)). site (req_id (lqe_req q)) = e) \<and>
     (\<forall>t \<in> holdset l. registered sh t e \<or> woken_at site sh t e \<or> (t, e) \<in> X)"

definition reg_inv :: "(nat \<Rightarrow> nat) \<Rightarrow> (TxNumber \<times> nat) set \<Rightarrow> ('o, 'c) shard \<Rightarrow> bool" where
  "reg_inv site X sh \<longleftrightarrow> lock_table_ok sh \<and> (\<forall>a. lock_inv (key_lock_of sh a)) \<and>
     (\<forall>e a. lock_of sh e = Some a \<longrightarrow> entry_ok site X sh e (key_lock_of sh a))"

definition settled :: "(nat \<Rightarrow> nat) \<Rightarrow> TxNumber \<Rightarrow> nat \<Rightarrow> ('o, 'c) shard \<Rightarrow> bool" where
  "settled site t e sh \<longleftrightarrow>
     (\<forall>a. lock_of sh e = Some a \<longrightarrow> t \<in> holdset (key_lock_of sh a) \<longrightarrow> woken_at site sh t e)"

lemma reg_inv_settled: "reg_inv site (insert (t, e) X) sh \<Longrightarrow> settled site t e sh \<Longrightarrow> reg_inv site X sh"
  by (force simp: reg_inv_def entry_ok_def settled_def)

lemma reg_inv_mono: "reg_inv site X sh \<Longrightarrow> X \<subseteq> Y \<Longrightarrow> reg_inv site Y sh"
  unfolding reg_inv_def entry_ok_def by blast

lemma lock_of_unique:
  assumes "lock_table_ok sh" "lock_of sh e = Some a" "lock_of sh e' = Some a"
  shows "e = e'"
  using assms owners_iff [of sh e a] owners_iff [of sh e' a] by (simp add: lock_table_ok_def)

text \<open>Operations that leave the locks alone.\<close>

lemma reg_inv_table:
  assumes inv: "reg_inv site X sh" and ok: "lock_table_ok sh'"
    and same: "lock_of sh' = lock_of sh" "key_lock_of sh' = key_lock_of sh" "sh_env sh' = sh_env sh"
    and reg: "\<And>t e. registered sh t e \<Longrightarrow> (t, e) \<notin> Y \<Longrightarrow> registered sh' t e" and sub: "X \<subseteq> Y \<union> {(t, e). registered sh' t e}"
  shows "reg_inv site Y sh'"
proof -
  have woken: "woken_at site sh' t e = woken_at site sh t e" for t e using same(3) by (simp add: woken_at_def)
  have known: "registered sh' t e \<or> woken_at site sh' t e \<or> (t, e) \<in> Y"
    if "registered sh t e \<or> woken_at site sh t e \<or> (t, e) \<in> X" for t e
    using that reg [of t e] sub woken [of t e] by auto
  have "entry_ok site Y sh' e l" if "entry_ok site X sh e l" for e l
    using that known [of _ e] by (simp add: entry_ok_def)
  then show ?thesis using inv ok same(1,2) by (simp add: reg_inv_def)
qed

text \<open>Operations on the lock of one entry.\<close>

lemma reg_inv_local:
  assumes inv: "reg_inv site X sh" and e: "lock_of sh e = Some lk" and ok: "lock_table_ok sh'"
    and same: "\<forall>e'. e' \<noteq> e \<longrightarrow> lock_of sh' e' = lock_of sh e'" "\<forall>a. a \<noteq> lk \<longrightarrow> key_lock_of sh' a = key_lock_of sh a"
      "lock_of sh' e = None \<or> lock_of sh' e = Some lk"
    and new: "lock_inv (key_lock_of sh' lk)" "lock_of sh' e = Some lk \<Longrightarrow> entry_ok site X sh' e (key_lock_of sh' lk)"
    and reg: "\<And>t e'. e' \<noteq> e \<Longrightarrow> registered sh t e' \<Longrightarrow> registered sh' t e'"
      "\<And>t e'. e' \<noteq> e \<Longrightarrow> woken_at site sh t e' \<Longrightarrow> woken_at site sh' t e'"
  shows "reg_inv site X sh'"
proof -
  have "entry_ok site X sh' e' (key_lock_of sh' a)" if a: "lock_of sh' e' = Some a" for e' a
  proof (cases "e' = e")
    case True
    then show ?thesis using a same(3) new(2) by auto
  next
    case False
    then have sh: "lock_of sh e' = Some a" using a same(1) by simp
    then have "a \<noteq> lk" using False lock_of_unique [OF _ e, of e'] inv by (auto simp: reg_inv_def)
    then have "entry_ok site X sh e' (key_lock_of sh' a)" using inv sh same(2) by (simp add: reg_inv_def)
    then show ?thesis using reg False unfolding entry_ok_def by blast
  qed
  moreover have "lock_inv (key_lock_of sh' a)" for a
    using new(1) same(2) inv by (cases "a = lk") (simp_all add: reg_inv_def)
  ultimately show ?thesis using ok by (simp add: reg_inv_def)
qed

section \<open>The table of lock holders\<close>

lemma map_of_update_simp [simp]: "map_of (AList.update k v al) k' = (if k' = k then Some v else map_of al k')"
  by (simp add: update_conv')

lemma map_of_delete_simp [simp]: "map_of (AList.delete k al) k' = (if k' = k then None else map_of al k')"
  by (simp add: delete_conv')

lemma Upsert_frame [simp]:
  "locks (UpsertLockHoldingTx t tm e w ng tt sh) = locks sh" "lock_vec (UpsertLockHoldingTx t tm e w ng tt sh) = lock_vec sh"
  "next_addr (UpsertLockHoldingTx t tm e w ng tt sh) = next_addr sh"
  "next_lock_idx (UpsertLockHoldingTx t tm e w ng tt sh) = next_lock_idx sh"
  "lock_of (UpsertLockHoldingTx t tm e w ng tt sh) = lock_of sh"
  "used_lock_count (UpsertLockHoldingTx t tm e w ng tt sh) = used_lock_count sh"
  "sh_env (UpsertLockHoldingTx t tm e w ng tt sh) = sh_env sh" "sh_now (UpsertLockHoldingTx t tm e w ng tt sh) = sh_now sh"
  by (simp_all add: UpsertLockHoldingTx_def Let_def)

lemma Recover_frame [simp]:
  "locks (CheckRecoverTx f t ng tm sh) = locks sh" "lock_vec (CheckRecoverTx f t ng tm sh) = lock_vec sh"
  "next_addr (CheckRecoverTx f t ng tm sh) = next_addr sh" "next_lock_idx (CheckRecoverTx f t ng tm sh) = next_lock_idx sh"
  "lock_of (CheckRecoverTx f t ng tm sh) = lock_of sh" "used_lock_count (CheckRecoverTx f t ng tm sh) = used_lock_count sh"
  "sh_env (CheckRecoverTx f t ng tm sh) = sh_env sh"
  by (simp_all add: CheckRecoverTx_def Let_def split: option.splits prod.splits)

lemma registered_Upsert: "registered sh u e' \<or> u = t \<and> e' = e \<Longrightarrow> registered (UpsertLockHoldingTx t tm e w ng tt sh) u e'"
proof -
  let ?sh = "UpsertLockHoldingTx t tm e w ng tt sh"
  have ng: "ng_txs ng' ?sh = (if ng' = ng then lock_txs else ng_txs ng' sh)"
    if "lock_txs = ng_txs ng ?sh" for ng' lock_txs
    using that by (simp add: ng_txs_def UpsertLockHoldingTx_def Let_def)
  define old where "old = (case map_of (ng_txs ng sh) t of None \<Rightarrow> TxLockInfo_new tm | Some i \<Rightarrow> i)"
  define info1 where "info1 = old\<lparr>cce_list := List.insert e (cce_list old), last_recover_ts := sh_now sh, tli_table_type := tt\<rparr>"
  define info where "info = (if w then info1\<lparr>tli_wlock_ts := sh_now sh\<rparr> else info1)"
  have "ng_txs ng ?sh = AList.update t info (ng_txs ng sh)"
    by (simp add: ng_txs_def UpsertLockHoldingTx_def Let_def old_def info_def info1_def)
  then have info: "map_of (ng_txs ng ?sh) = (map_of (ng_txs ng sh))(t \<mapsto> info)"
      "set (cce_list info) = insert e (set (cce_list old))"
    by (simp_all add: update_conv' info_def info1_def)
  assume "registered sh u e' \<or> u = t \<and> e' = e"
  then show ?thesis
  proof
    assume "u = t \<and> e' = e"
    then show ?thesis using info unfolding registered_def by (intro exI [of _ ng] exI [of _ info]) simp
  next
    assume "registered sh u e'"
    then obtain ng' i where i: "map_of (ng_txs ng' sh) u = Some i" "e' \<in> set (cce_list i)" by (auto simp: registered_def)
    show ?thesis
    proof (cases "ng' = ng \<and> u = t")
      case True
      then show ?thesis using i info unfolding registered_def old_def
        by (intro exI [of _ ng] exI [of _ info]) simp
    next
      case False
      then have "map_of (ng_txs ng' ?sh) u = Some i" using i(1) info(1) ng [OF refl, of ng'] by auto
      then show ?thesis using i(2) unfolding registered_def by blast
    qed
  qed
qed

lemma registered_Delete: "registered sh u e' \<Longrightarrow> (u, e') \<noteq> (t, e) \<Longrightarrow> registered (DeleteLockHoldingTx t e ng sh) u e'"
proof -
  assume "registered sh u e'" and neq: "(u, e') \<noteq> (t, e)"
  then obtain ng' i where i: "map_of (ng_txs ng' sh) u = Some i" "e' \<in> set (cce_list i)" by (auto simp: registered_def)
  let ?sh = "DeleteLockHoldingTx t e ng sh"
  show ?thesis
  proof (cases "ng' = ng \<and> u = t")
    case False
    then have "map_of (ng_txs ng' ?sh) u = Some i"
      using i(1) by (auto simp: DeleteLockHoldingTx_def ng_txs_def Let_def split: option.splits)
    then show ?thesis using i(2) unfolding registered_def by blast
  next
    case True
    then have e': "e' \<in> set (remove1 e (cce_list i))" using i(2) neq by simp
    then have "map_of (ng_txs ng ?sh) t = Some (i\<lparr>cce_list := remove1 e (cce_list i)\<rparr>)"
      using i(1) True by (auto simp: DeleteLockHoldingTx_def ng_txs_def Let_def split: option.splits)
    then show ?thesis using True e' unfolding registered_def by force
  qed
qed

lemma check_recover_list: "check_recover f t info ng tm sh = (info', calls) \<Longrightarrow> cce_list info' = cce_list info"
  by (auto simp: check_recover_def split: if_splits)

lemma registered_Recover: "registered sh u e' \<Longrightarrow> registered (CheckRecoverTx f t ng tm sh) u e'"
proof -
  assume "registered sh u e'"
  then obtain ng' i where i: "map_of (ng_txs ng' sh) u = Some i" "e' \<in> set (cce_list i)" by (auto simp: registered_def)
  have "\<exists>j. map_of (ng_txs ng' (CheckRecoverTx f t ng tm sh)) u = Some j \<and> cce_list j = cce_list i"
    using i(1) by (auto simp: CheckRecoverTx_def ng_txs_def dest: check_recover_list split: option.splits prod.splits)
  then show ?thesis using i(2) unfolding registered_def by metis
qed

section \<open>The parts of an operation\<close>

lemma table_ok_frame:
  assumes "lock_table_ok sh" "locks sh' = locks sh" "lock_vec sh' = lock_vec sh" "next_addr sh' = next_addr sh"
    "next_lock_idx sh' = next_lock_idx sh" "lock_of sh' = lock_of sh" "used_lock_count sh' = used_lock_count sh"
  shows "lock_table_ok sh'"
  by (rule contents_ok [OF assms(1,3,4,5,6,7)]) (simp add: assms(2))

lemma inv_Upsert:
  assumes "reg_inv site (insert (t, e) X) sh"
  shows "reg_inv site X (UpsertLockHoldingTx t tm e w ng tt sh)"
proof (rule reg_inv_table [OF assms])
  show "lock_table_ok (UpsertLockHoldingTx t tm e w ng tt sh)"
    by (rule table_ok_frame [of sh]) (use assms in \<open>simp_all add: reg_inv_def\<close>)
qed (auto simp: key_lock_of_def fun_eq_iff registered_Upsert)

lemma inv_Delete:
  assumes "reg_inv site X sh"
  shows "reg_inv site (insert (t, e) X) (DeleteLockHoldingTx t e ng sh)"
proof (rule reg_inv_table [OF assms])
  show "lock_table_ok (DeleteLockHoldingTx t e ng sh)"
    by (rule table_ok_frame [of sh]) (use assms in \<open>simp_all add: reg_inv_def\<close>)
qed (auto simp: key_lock_of_def fun_eq_iff registered_Delete)

lemma inv_Recover:
  assumes "reg_inv site X sh"
  shows "reg_inv site X (CheckRecoverTx f t ng tm sh)"
proof (rule reg_inv_table [OF assms])
  show "lock_table_ok (CheckRecoverTx f t ng tm sh)"
    by (rule table_ok_frame [of sh]) (use assms in \<open>simp_all add: reg_inv_def\<close>)
qed (auto simp: key_lock_of_def fun_eq_iff registered_Recover)

lemma inv_fold_Recover:
  "reg_inv site X sh \<Longrightarrow> reg_inv site X (fold (\<lambda>t. CheckRecoverTx f t ng tm) ts sh)"
  by (induction ts arbitrary: sh) (simp_all add: inv_Recover)

lemma inv_RecoverConflict:
  "reg_inv site X sh \<Longrightarrow> reg_inv site X (RecoverTxForLockConfilct f l lt ng tm sh)"
  by (cases lt) (simp_all add: RecoverTxForLockConfilct_def inv_Recover inv_fold_Recover split: prod.split)

lemma settled_Delete: "settled site t e sh \<Longrightarrow> settled site t e (DeleteLockHoldingTx t e ng sh)"
  by (simp add: settled_def key_lock_of_def woken_at_def)

text \<open>After \<open>t\<close> has given up its lock on \<open>e\<close>, it may be dropped from the table.\<close>

lemma inv_Delete_settled:
  assumes "reg_inv site (insert (t, e) X) sh" "settled site t e sh"
  shows "reg_inv site X (DeleteLockHoldingTx t e ng sh)"
proof (rule reg_inv_settled)
  show "reg_inv site (insert (t, e) X) (DeleteLockHoldingTx t e ng sh)"
    using inv_Delete [OF assms(1), of t e ng] by simp
qed (rule settled_Delete [OF assms(2)])

lemma with_lock_frame [simp]:
  "lock_vec (with_lock lk f sh) = lock_vec sh" "next_addr (with_lock lk f sh) = next_addr sh"
  "next_lock_idx (with_lock lk f sh) = next_lock_idx sh" "lock_of (with_lock lk f sh) = lock_of sh"
  "used_lock_count (with_lock lk f sh) = used_lock_count sh" "sh_env (with_lock lk f sh) = sh_env sh"
  "lock_holding_txs (with_lock lk f sh) = lock_holding_txs sh"
  "key_lock_of (with_lock lk f sh) a = (if a = lk then f (key_lock_of sh lk) else key_lock_of sh a)"
  by (simp_all add: with_lock_def upd_lock_def key_lock_of_def)

lemma with_lock_table_ok: "lock_table_ok sh \<Longrightarrow> lock_table_ok (with_lock lk f sh)"
  unfolding with_lock_def by (erule contents_ok) (simp_all add: upd_lock_def)

lemma registered_same: "lock_holding_txs sh' = lock_holding_txs sh \<Longrightarrow> registered sh' t e = registered sh t e"
  by (simp add: registered_def ng_txs_def)

lemma known_with_lock [simp]:
  "registered (with_lock lk f sh) t e = registered sh t e" "woken_at site (with_lock lk f sh) t e = woken_at site sh t e"
  by (rule registered_same, simp) (simp add: woken_at_def)

lemma inv_with_lock:
  assumes inv: "reg_inv site X sh" and e: "lock_of sh e = Some lk"
    and f: "lock_inv (f (key_lock_of sh lk))" "holdset (f (key_lock_of sh lk)) \<subseteq> holdset (key_lock_of sh lk) \<union> {t. (t, e) \<in> X}"
      "\<forall>q \<in> set (cq_list (blocking_queue (f (key_lock_of sh lk)))). site (req_id (lqe_req q)) = e"
  shows "reg_inv site X (with_lock lk f sh)"
proof (rule reg_inv_local [OF inv e])
  have "entry_ok site X sh e (key_lock_of sh lk)" using inv e by (simp add: reg_inv_def)
  then show "entry_ok site X (with_lock lk f sh) e (key_lock_of (with_lock lk f sh) lk)"
    using f(2,3) by (auto simp: entry_ok_def)
  show "lock_table_ok (with_lock lk f sh)" using inv by (simp add: reg_inv_def with_lock_table_ok)
qed (use e f(1) in simp_all)

lemma inv_release_on:
  assumes inv: "reg_inv site X sh" and e: "lock_of sh e = Some lk"
    and rel: "rel (key_lock_of sh lk) (sh_env sh) = (r, l', E')"
    and wakes: "wakes_to H (key_lock_of sh lk) (sh_env sh) l' E'" and H: "H \<subseteq> holdset (key_lock_of sh lk)"
  shows "reg_inv site X (snd (release_on rel lk sh))"
    and "t \<notin> H \<Longrightarrow> settled site t e (snd (release_on rel lk sh))"
    and "fst (release_on rel lk sh) = r"
proof -
  define sh' where "sh' = snd (release_on rel lk sh)"
  have sh': "sh' = (with_lock lk (\<lambda>_. l') sh)\<lparr>sh_env := E'\<rparr>"
    using rel by (simp add: sh'_def release_on_def key_lock_of_def)
  show "fst (release_on rel lk sh) = r" using rel by (simp add: release_on_def key_lock_of_def)
  obtain ps where ps: "lock_inv l'" "cq_list (blocking_queue (key_lock_of sh lk)) = ps @ cq_list (blocking_queue l')"
      "enqueued E' = enqueued (sh_env sh) @ map lqe_req ps" "holdset l' \<subseteq> H \<union> lqe_txn ` set ps"
    using wakes unfolding wakes_to_def by blast
  have key: "key_lock_of sh' a = (if a = lk then l' else key_lock_of sh a)" for a
    using with_lock_frame(8) [of lk "\<lambda>_. l'" sh a] by (simp add: sh' key_lock_of_def)
  have old: "entry_ok site X sh e (key_lock_of sh lk)" using inv e by (simp add: reg_inv_def)
  have site: "\<forall>q \<in> set ps. site (req_id (lqe_req q)) = e" using old ps(2) by (simp add: entry_ok_def)
  have woken: "woken_at site sh' u e" if "u \<in> lqe_txn ` set ps" for u
    using that site ps(3) by (auto simp: woken_at_def sh')
  have more: "woken_at site sh u e' \<Longrightarrow> woken_at site sh' u e'" for u e'
    using ps(3) by (auto simp: woken_at_def sh')
  have reg: "registered sh' u e' = registered sh u e'" for u e' by (rule registered_same) (simp add: sh')
  have "registered sh' u e \<or> woken_at site sh' u e \<or> (u, e) \<in> X" if "u \<in> holdset l'" for u
  proof -
    have "u \<in> holdset (key_lock_of sh lk) \<or> u \<in> lqe_txn ` set ps" using that ps(4) H by blast
    then show ?thesis
      using old more [of u e] woken [of u] reg [of u e] unfolding entry_ok_def by blast
  qed
  then have new: "entry_ok site X sh' e l'" using old ps(2) by (simp add: entry_ok_def)
  show "reg_inv site X (snd (release_on rel lk sh))"
    unfolding sh'_def [symmetric]
  proof (rule reg_inv_local [OF inv e])
    have "lock_table_ok (with_lock lk (\<lambda>_. l') sh)" using inv by (simp add: reg_inv_def with_lock_table_ok)
    then show "lock_table_ok sh'" by (rule table_ok_frame) (simp_all add: sh')
  qed (use key e new ps(1) reg more in \<open>simp_all add: sh'\<close>)
  assume "t \<notin> H"
  then have "t \<in> holdset l' \<Longrightarrow> woken_at site sh' t e" using ps(4) woken [of t] by blast
  then show "settled site t e (snd (release_on rel lk sh))"
    using e key unfolding sh'_def [symmetric] by (auto simp: settled_def sh')
qed

lemma lock_of_release_on [simp]: "lock_of (snd (release_on rel lk sh)) = lock_of sh"
  by (simp add: release_on_def split: prod.split)

lemma inv_Recycle:
  assumes inv: "reg_inv site X sh"
  shows "reg_inv site X (snd (RecycleKeyLock e sh))" "settled site t e' sh \<Longrightarrow> settled site t e' (snd (RecycleKeyLock e sh))"
proof -
  have key: "key_lock_of (snd (RecycleKeyLock e sh)) = key_lock_of sh"
    by (auto simp: RecycleKeyLock_def key_lock_of_def upd_lock_def DecreaseLockCount_def SetUsedStatus_def fun_eq_iff split: option.splits)
  have frame: "lock_of (snd (RecycleKeyLock e sh)) = lock_of sh \<or> lock_of (snd (RecycleKeyLock e sh)) = (lock_of sh)(e := None)"
      "sh_env (snd (RecycleKeyLock e sh)) = sh_env sh" "lock_holding_txs (snd (RecycleKeyLock e sh)) = lock_holding_txs sh"
    by (auto simp: RecycleKeyLock_def upd_lock_def DecreaseLockCount_def split: option.splits)
  have sub: "lock_of (snd (RecycleKeyLock e sh)) e' = Some a \<Longrightarrow> lock_of sh e' = Some a" for e' a
    using frame(1) by (auto split: if_splits)
  show "settled site t e' sh \<Longrightarrow> settled site t e' (snd (RecycleKeyLock e sh))"
    using sub frame(2) key by (simp add: settled_def woken_at_def)
  show "reg_inv site X (snd (RecycleKeyLock e sh))"
    unfolding reg_inv_def
  proof (intro conjI allI impI)
    show "lock_table_ok (snd (RecycleKeyLock e sh))" using inv by (simp add: reg_inv_def Recycle_ok)
    show "lock_inv (key_lock_of (snd (RecycleKeyLock e sh)) a)" for a using inv key by (simp add: reg_inv_def)
    fix e' a assume "lock_of (snd (RecycleKeyLock e sh)) e' = Some a"
    then have "entry_ok site X sh e' (key_lock_of sh a)" using inv sub by (simp add: reg_inv_def)
    then show "entry_ok site X (snd (RecycleKeyLock e sh)) e' (key_lock_of (snd (RecycleKeyLock e sh)) a)"
      using registered_same [OF frame(3)] frame(2) key by (simp add: entry_ok_def woken_at_def)
  qed
qed

end
