(* ===== verification/Holder_Steps.thy ===== *)
theory Holder_Steps
  imports Lock_Holders
begin

text \<open>
  The invariant of \<open>Lock_Holders\<close> under the locking operations of a cc map, the shard's \<open>ClearTx\<close>, the
  forced clearing of an entry and the maintenance of the lock array, one lemma per operation. Giving up a
  lock keeps it when the transaction has one kind of lock on the entry.
\<close>

section \<open>Assigning a lock structure\<close>

lemma Reset_key_lock:
  "key_lock (SetUsedStatus now True (kgl_Reset ccm page entry k)) = lock_Reset (key_lock k)"
  by (simp add: SetUsedStatus_def kgl_Reset_def Let_def)

lemma lock_Reset_laws:
  assumes "lock_inv l"
  shows "lock_inv (lock_Reset l)" "holdset (lock_Reset l) = {}" "cq_list (blocking_queue (lock_Reset l)) = []"
proof -
  have "lock_inv (lock_Reset l) \<and> lock_abs (lock_Reset l) = \<lparr>holders = {}, fast_readers = 0, waiting = []\<rparr>"
    using exec_refines_all [OF assms, of Op_Reset] by simp
  then show "lock_inv (lock_Reset l)" "holdset (lock_Reset l) = {}" "cq_list (blocking_queue (lock_Reset l)) = []"
    by (simp_all add: lock_abs_def holdset_def)
qed

lemma kgl_new_lock: "lock_inv (key_lock kgl_new)"
  by (simp add: kgl_new_def lock_inv_def lock_new_def cq_new_laws)

lemma NewLock_locks:
  assumes inv: "\<forall>a. lock_inv (key_lock_of sh a)" and new: "NewLock ccm page e sh = (lk, sh')"
  shows "lock_inv (key_lock_of sh' a)" "holdset (key_lock_of sh' lk) = {}"
    "cq_list (blocking_queue (key_lock_of sh' lk)) = []"
proof -
  obtain i n where scan: "scan_lock sh (next_lock_idx sh) 0 = (i, n)" by fastforce
  define sh1 where "sh1 = sh\<lparr>next_lock_idx := i\<rparr>"
  define sh2 where "sh2 = (if n = length (lock_vec sh1) then grow_locks sh1 else sh1)"
  have inv2: "lock_inv (key_lock (locks sh2 b))" for b
    using inv by (simp add: sh2_def sh1_def grow_locks_def Let_def key_lock_of_def kgl_new_lock)
  have "key_lock_of sh' b = (if b = lk then lock_Reset (key_lock (locks sh2 lk)) else key_lock (locks sh2 b))" for b
    using new by (auto simp: NewLock_def scan Let_def sh1_def sh2_def upd_lock_def key_lock_of_def Reset_key_lock)
  then show "lock_inv (key_lock_of sh' a)" "holdset (key_lock_of sh' lk) = {}"
    "cq_list (blocking_queue (key_lock_of sh' lk)) = []"
    using inv2 lock_Reset_laws by simp_all
qed

lemma inv_GetOrCreate:
  assumes inv: "reg_inv site X sh" and get: "GetOrCreateKeyLock e ccm page sh = (lk, sh')"
  shows "reg_inv site X sh'" "lock_of sh' e = Some lk"
proof -
  have ok: "lock_table_ok sh" "\<forall>a. lock_inv (key_lock_of sh a)" using inv by (simp_all add: reg_inv_def)
  show "lock_of sh' e = Some lk" using GetOrCreate_ok [OF ok(1) get] by simp
  show "reg_inv site X sh'"
  proof (cases "lock_of sh e")
    case (Some a)
    then show ?thesis using inv get by (simp add: GetOrCreateKeyLock_def)
  next
    case None
    obtain sh1 where new: "NewLock ccm page e sh = (lk, sh1)" and sh': "sh' = sh1\<lparr>lock_of := (lock_of sh1)(e := Some lk)\<rparr>"
      using get None by (auto simp: GetOrCreateKeyLock_def split: prod.splits)
    have arr: "array_ok sh" "owners_ok sh" using ok(1) by (simp_all add: lock_table_ok_def)
    note N = NewLock_ok [OF arr(1) new]
    have key: "key_lock_of sh' = key_lock_of sh1" by (simp add: sh' key_lock_of_def fun_eq_iff)
    have reg: "registered sh' t e' = registered sh t e'" for t e' by (rule registered_same) (simp add: sh' N)
    have woken: "woken_at site sh' t e' = woken_at site sh t e'" for t e' by (simp add: woken_at_def sh' N)
    have "entry_ok site X sh' e' (key_lock_of sh' a)" if a: "lock_of sh' e' = Some a" for e' a
    proof (cases "e' = e")
      case True
      then show ?thesis using a NewLock_locks(2,3) [OF ok(2) new] unfolding key by (simp add: sh' entry_ok_def)
    next
      case False
      then have old: "lock_of sh e' = Some a" using a by (simp add: sh' N)
      then have "a \<in> used_locks sh" using owners_iff [OF arr(2)] by simp
      then have "key_lock_of sh' a = key_lock_of sh a" unfolding key using N(6) by (simp add: key_lock_of_def)
      then show ?thesis using inv old reg woken by (simp add: reg_inv_def entry_ok_def)
    qed
    then show ?thesis
      using GetOrCreate_ok [OF ok(1) get] NewLock_locks(1) [OF ok(2) new] key by (simp add: reg_inv_def)
  qed
qed

section \<open>Acquiring\<close>

lemma InsertBlockingQueue_laws:
  assumes "lock_inv l"
  shows "lock_inv (InsertBlockingQueue r lt l)" "holdset (InsertBlockingQueue r lt l) = holdset l"
    "cq_list (blocking_queue (InsertBlockingQueue r lt l)) = \<lparr>lqe_req = r, lk_type = lt\<rparr> # cq_list (blocking_queue l)"
proof -
  have "lock_inv (InsertBlockingQueue r lt l) \<and>
      lock_abs (InsertBlockingQueue r lt l) = (lock_abs l)\<lparr>waiting := \<lparr>lqe_req = r, lk_type = lt\<rparr> # waiting (lock_abs l)\<rparr>"
    using exec_refines_all [OF assms, of "Op_Insert r lt"] by simp
  then show "lock_inv (InsertBlockingQueue r lt l)" "holdset (InsertBlockingQueue r lt l) = holdset l"
    "cq_list (blocking_queue (InsertBlockingQueue r lt l)) = \<lparr>lqe_req = r, lk_type = lt\<rparr> # cq_list (blocking_queue l)"
    by (simp_all add: lock_abs_def holdset_def)
qed

lemma inv_queue_site:
  "reg_inv site X sh \<Longrightarrow> lock_of sh e = Some lk \<Longrightarrow>
     q \<in> set (cq_list (blocking_queue (key_lock_of sh lk))) \<Longrightarrow> site (req_id (lqe_req q)) = e"
  by (simp add: reg_inv_def entry_ok_def)

lemma inv_snapshot_guard:
  assumes "reg_inv site {} sh" "site (req_id (aq_req A)) = aq_cce A" "snapshot_guard f A sh = Some (r, sh')"
  shows "reg_inv site {} sh'"
proof (cases "sh' = sh")
  case False
  then obtain lk where lk: "lock_of sh (aq_cce A) = Some lk" and
      sh': "sh' = CheckRecoverTx f (write_txn (key_lock (locks sh lk))) (aq_ng A) (aq_ng_term A)
                   (with_lock lk (InsertBlockingQueue (aq_req A) ReadLock) sh)"
    using assms(3) by (auto simp: snapshot_guard_def Let_def split: if_splits option.splits)
  have inv: "lock_inv (key_lock_of sh lk)" using assms(1) by (simp add: reg_inv_def)
  show ?thesis unfolding sh'
    by (intro inv_Recover inv_with_lock [OF assms(1) lk])
       (use assms(2) InsertBlockingQueue_laws [OF inv] inv_queue_site [OF assms(1) lk] in auto)
qed (use assms(1) in simp)

lemma inv_acquire_finish:
  assumes "reg_inv site (if st = Successful \<and> lt \<noteq> NoLock then {(req_txn (aq_req A), aq_cce A)} else {}) sh"
  shows "reg_inv site {} (snd (acquire_finish f A lt lk st sh))"
proof (cases st)
  case Successful
  have "reg_inv site {} (if lt \<noteq> NoLock
      then UpsertLockHoldingTx (req_txn (aq_req A)) (aq_tx_term A) (aq_cce A) (lt = WriteLock) (aq_ng A) (aq_table_type A) sh else sh)"
    using assms Successful by (cases "lt = NoLock") (simp_all add: inv_Upsert)
  then show ?thesis using Successful by (auto simp: acquire_finish_def Let_def inv_Recover split: option.split)
qed (use assms in \<open>simp_all add: acquire_finish_def Let_def inv_RecoverConflict\<close>)

lemma inv_Acquire:
  assumes inv: "reg_inv site {} sh" and site: "site (req_id (aq_req A)) = aq_cce A"
  shows "reg_inv site {} (snd (AcquireCceKeyLock f A sh))"
proof (cases "snapshot_guard f A sh")
  case (Some r)
  then show ?thesis using inv_snapshot_guard [OF inv site, of f "fst r" "snd r"] by (simp add: AcquireCceKeyLock_def)
next
  case None
  let ?t = "req_txn (aq_req A)" and ?e = "aq_cce A" and ?lt = "aq_lock_type A"
  show ?thesis
  proof (cases "?lt \<noteq> NoLock \<and> (?lt = WriteLock \<or> ?lt = WriteIntent \<or> aq_status A \<noteq> Deleted)")
    case False
    then show ?thesis using None inv by (auto simp: AcquireCceKeyLock_def inv_acquire_finish)
  next
    case True
    define ccm where "ccm = (case aq_ccm A of None \<Rightarrow> aq_this A | Some m \<Rightarrow> m)"
    obtain lk sh1 where get: "GetOrCreateKeyLock ?e (Some ccm) (aq_page A) sh = (lk, sh1)" by fastforce
    obtain st l' where acq: "AcquireLock (aq_req A) (aq_protocol A) ?lt (key_lock (locks sh1 lk)) = (st, l')" by fastforce
    note sh1 = inv_GetOrCreate [OF inv get]
    have l: "lock_inv (key_lock_of sh1 lk)" using sh1(1) by (simp add: reg_inv_def)
    note L = AcquireLock_holdset [OF l acq [folded key_lock_of_def]]
    let ?X = "if st = Successful \<and> ?lt \<noteq> NoLock then {(?t, ?e)} else {}"
    have "reg_inv site ?X (with_lock lk (\<lambda>_. l') sh1)"
    proof (rule inv_with_lock [OF reg_inv_mono [OF sh1(1)] sh1(2)])
      show "holdset l' \<subseteq> holdset (key_lock_of sh1 lk) \<union> {t. (t, ?e) \<in> ?X}" using L(2) True by auto
      show "\<forall>q \<in> set (cq_list (blocking_queue l')). site (req_id (lqe_req q)) = ?e"
        using L(3) site inv_queue_site [OF sh1] by fastforce
    qed (use L(1) in simp_all)
    then have "reg_inv site {} (snd (acquire_finish f A ?lt (Some lk) st (with_lock lk (\<lambda>_. l') sh1)))"
      by (rule inv_acquire_finish)
    then show ?thesis using None True get acq by (auto simp: AcquireCceKeyLock_def ccm_def)
  qed
qed

section \<open>Releasing\<close>

lemma remaining_one_kind: "one_kind t l \<Longrightarrow> t \<notin> remaining t True l"
  by (simp add: remaining_def)

lemma inv_release_op:
  assumes "reg_inv site X sh" "lock_of sh e = Some lk"
    and "rel (key_lock_of sh lk) (sh_env sh) = (r, l', E')"
    and "wakes_to (remaining t b (key_lock_of sh lk)) (key_lock_of sh lk) (sh_env sh) l' E'"
  shows "reg_inv site X (snd (release_on rel lk sh))" "fst (release_on rel lk sh) = r"
    "b \<Longrightarrow> one_kind t (key_lock_of sh lk) \<Longrightarrow> settled site t e (snd (release_on rel lk sh))"
proof -
  note R = inv_release_on [where rel = rel, OF assms remaining_sub]
  show "reg_inv site X (snd (release_on rel lk sh))" "fst (release_on rel lk sh) = r" by (rule R)+
  show "b \<Longrightarrow> one_kind t (key_lock_of sh lk) \<Longrightarrow> settled site t e (snd (release_on rel lk sh))"
    using R(2) [of t] remaining_one_kind by simp
qed

lemma inv_lock: "reg_inv site X sh \<Longrightarrow> lock_inv (key_lock_of sh a)"
  by (simp add: reg_inv_def)

lemma SetWLockTs_laws [simp]:
  "holdset (SetWLockTs ts l) = holdset l" "lock_inv (SetWLockTs ts l) = lock_inv l"
  "blocking_queue (SetWLockTs ts l) = blocking_queue l"
  by (simp_all add: SetWLockTs_def holdset_def holders_of_def lock_inv_def split: WriteLockType.split)

lemma inv_SetWLockTs:
  assumes "reg_inv site X sh" "lock_of sh e = Some lk"
  shows "reg_inv site X (with_lock lk (SetWLockTs ts) sh)"
    "settled site t e' sh \<Longrightarrow> settled site t e' (with_lock lk (SetWLockTs ts) sh)"
proof -
  show "reg_inv site X (with_lock lk (SetWLockTs ts) sh)"
    by (rule inv_with_lock [OF assms]) (use inv_lock [OF assms(1)] inv_queue_site [OF assms] in auto)
  show "settled site t e' sh \<Longrightarrow> settled site t e' (with_lock lk (SetWLockTs ts) sh)"
    by (simp add: settled_def)
qed

lemma inv_release_finish:
  assumes inv: "reg_inv site (insert (t, e) X) sh" and settled: "settled site t e sh" and e: "lock_of sh e = Some lk"
  shows "reg_inv site X (let sh2 = (if w then with_lock lk (SetWLockTs 0) sh else sh);
      sh3 = DeleteLockHoldingTx t e ng sh2 in if recycle then snd (RecycleKeyLock e sh3) else sh3)"
proof -
  define sh2 where "sh2 = (if w then with_lock lk (SetWLockTs 0) sh else sh)"
  have "reg_inv site (insert (t, e) X) sh2" "settled site t e sh2"
    using inv settled inv_SetWLockTs [OF inv e] by (simp_all add: sh2_def)
  then have "reg_inv site X (DeleteLockHoldingTx t e ng sh2)" by (rule inv_Delete_settled)
  then show ?thesis unfolding sh2_def [symmetric] by (simp add: Let_def inv_Recycle(1))
qed

lemma inv_unlock:
  assumes inv: "reg_inv site X sh" and e: "lock_of sh e = Some lk" and kind: "one_kind t (key_lock_of sh lk)"
    and un: "(case lty of
                ReadLock \<Rightarrow> release_on (\<lambda>l E. apfst (\<lambda>b. if b then ReadLock else NoLock) (ReleaseReadLock t l E)) lk sh
              | ReadIntent \<Rightarrow> release_on (\<lambda>l E. let (b, l') = ReleaseReadIntent t l in (if b then ReadIntent else NoLock, l', E)) lk sh
              | WriteLock \<Rightarrow> release_on (\<lambda>l E. apfst (\<lambda>b. if b then WriteLock else NoLock) (ReleaseWriteLock t False l E)) lk sh
              | _ \<Rightarrow> release_on (lock_ClearTx t) lk sh) = (unlock_type, sh1)"
  shows "reg_inv site X sh1 \<and> (unlock_type \<noteq> NoLock \<longrightarrow> settled site t e sh1) \<and> lock_of sh1 e = Some lk"
proof -
  let ?l = "key_lock_of sh lk" and ?E = "sh_env sh"
  have l: "lock_inv ?l" using inv by (rule inv_lock)
  have main: "reg_inv site X sh1 \<and> (unlock_type \<noteq> NoLock \<longrightarrow> settled site t e sh1) \<and> lock_of sh1 e = Some lk"
    if on: "release_on rel lk sh = (unlock_type, sh1)" and rel: "rel ?l ?E = (r, l', E')"
      and wakes: "wakes_to (remaining t b ?l) ?l ?E l' E'" and r: "r \<noteq> NoLock \<longrightarrow> b" for rel r l' E' b
    using inv_release_op [where rel = rel, OF inv e rel wakes] kind r on e lock_of_release_on [of rel lk sh] by auto
  have clear: ?thesis if "release_on (lock_ClearTx t) lk sh = (unlock_type, sh1)"
  proof -
    obtain r l' E' where rel: "lock_ClearTx t ?l ?E = (r, l', E')" by (metis prod_cases3)
    show ?thesis by (rule main [OF that rel ClearTx_wakes [OF l rel]]) simp
  qed
  show ?thesis
  proof (cases lty)
    case ReadLock
    obtain b l' E' where rel: "ReleaseReadLock t ?l ?E = (b, l', E')" by (metis prod_cases3)
    show ?thesis
      by (rule main [OF un [unfolded ReadLock LockType.case] _ ReleaseReadLock_wakes(1) [OF l rel], of "if b then ReadLock else NoLock"])
         (simp_all add: rel)
  next
    case ReadIntent
    obtain b l' where rel: "ReleaseReadIntent t ?l = (b, l')" by fastforce
    show ?thesis
      by (rule main [OF un [unfolded ReadIntent LockType.case] _ ReleaseReadIntent_wakes [OF l rel], of "if b then ReadIntent else NoLock"])
         (simp_all add: rel)
  next
    case WriteLock
    obtain b l' E' where rel: "ReleaseWriteLock t False ?l ?E = (b, l', E')" by (metis prod_cases3)
    show ?thesis
      by (rule main [OF un [unfolded WriteLock LockType.case] _ ReleaseWriteLock_wakes [OF l rel], of "if b then WriteLock else NoLock"])
         (simp_all add: rel)
  qed (use un clear in simp_all)
qed

lemma inv_Release:
  assumes inv: "reg_inv site {} sh" and e: "lock_of sh e = Some lk" and kind: "one_kind t (key_lock_of sh lk)"
  shows "reg_inv site {} (ReleaseCceLock (lock_of sh e) e t ng lty recycle sh)"
proof -
  obtain unlock_type sh1 where un: "(case lty of
                ReadLock \<Rightarrow> release_on (\<lambda>l E. apfst (\<lambda>b. if b then ReadLock else NoLock) (ReleaseReadLock t l E)) lk sh
              | ReadIntent \<Rightarrow> release_on (\<lambda>l E. let (b, l') = ReleaseReadIntent t l in (if b then ReadIntent else NoLock, l', E)) lk sh
              | WriteLock \<Rightarrow> release_on (\<lambda>l E. apfst (\<lambda>b. if b then WriteLock else NoLock) (ReleaseWriteLock t False l E)) lk sh
              | _ \<Rightarrow> release_on (lock_ClearTx t) lk sh) = (unlock_type, sh1)"
    by fastforce
  note U = inv_unlock [OF inv e kind un]
  have "reg_inv site {} (if unlock_type \<noteq> NoLock then
      (let sh2 = (if unlock_type = WriteLock then with_lock lk (SetWLockTs 0) sh1 else sh1);
           sh3 = DeleteLockHoldingTx t e ng sh2 in if recycle then snd (RecycleKeyLock e sh3) else sh3) else sh1)"
  proof (cases "unlock_type = NoLock")
    case False
    have "reg_inv site (insert (t, e) {}) sh1" by (rule reg_inv_mono [of _ "{}"]) (use U in auto)
    then show ?thesis
      using inv_release_finish [of site t e "{}" sh1 lk] False U by simp
  qed (use U in simp)
  then show ?thesis unfolding ReleaseCceLock_def e option.case un by simp
qed

lemma inv_Downgrade:
  assumes inv: "reg_inv site X sh"
  shows "reg_inv site X (DowngradeCceKeyWriteLock e t sh)"
proof (cases "lock_of sh e")
  case (Some lk)
  obtain l' E' where down: "DowngradeWriteLock t (key_lock_of sh lk) (sh_env sh) = (l', E')" by fastforce
  show ?thesis
    using inv_release_on(1) [where rel = "\<lambda>l E. ((), DowngradeWriteLock t l E)",
        OF inv Some _ Downgrade_wakes [OF inv_lock [OF inv] down] subset_refl] down
    by (simp add: DowngradeCceKeyWriteLock_def Some)
qed (use inv in \<open>simp add: DowngradeCceKeyWriteLock_def\<close>)

section \<open>Resuming\<close>

text \<open>The shard takes a woken request off its queue and runs it.\<close>

definition take_request :: "cc_req \<Rightarrow> ('o, 'c) shard \<Rightarrow> ('o, 'c) shard" where
  "take_request r sh = sh\<lparr>sh_env := (sh_env sh)\<lparr>enqueued := remove1 r (enqueued (sh_env sh))\<rparr>\<rparr>"

lemma inv_take_request:
  assumes "reg_inv site {} sh"
  shows "reg_inv site {(req_txn r, site (req_id r))} (take_request r sh)"
proof -
  have reg: "registered (take_request r sh) t e = registered sh t e" for t e
    by (rule registered_same) (simp add: take_request_def)
  have woken: "woken_at site sh t e \<Longrightarrow> woken_at site (take_request r sh) t e \<or> (t, e) = (req_txn r, site (req_id r))" for t e
  proof -
    assume "woken_at site sh t e"
    then obtain q where q: "q \<in> set (enqueued (sh_env sh))" "req_txn q = t" "site (req_id q) = e"
      by (auto simp: woken_at_def)
    show ?thesis
    proof (cases "q = r")
      case False
      then have "q \<in> set (remove1 r (enqueued (sh_env sh)))" using q(1) by simp
      then show ?thesis using q unfolding woken_at_def take_request_def by force
    qed (use q in simp)
  qed
  have key: "key_lock_of (take_request r sh) = key_lock_of sh" by (simp add: key_lock_of_def take_request_def fun_eq_iff)
  have "lock_table_ok (take_request r sh)"
    by (rule table_ok_frame [of sh]) (use assms in \<open>simp_all add: reg_inv_def take_request_def\<close>)
  moreover have "entry_ok site {(req_txn r, site (req_id r))} (take_request r sh) e l" if "entry_ok site {} sh e l" for e l
    using that reg woken unfolding entry_ok_def by blast
  ultimately show ?thesis using assms unfolding reg_inv_def key by (simp add: take_request_def)
qed

lemma inv_resume_release:
  assumes inv: "reg_inv site {(t, e)} sh" and e: "lock_of sh e = Some lk"
    and rel: "rel (key_lock_of sh lk) (sh_env sh) = (b, l', E')"
    and wakes: "wakes_to (remaining t b (key_lock_of sh lk)) (key_lock_of sh lk) (sh_env sh) l' E'"
    and kinds: "\<forall>k. (t, k) \<in> holders_of (key_lock_of sh lk) \<longrightarrow> k = h"
    and b: "b \<longleftrightarrow> (t, h) \<in> holders_of (key_lock_of sh lk)"
  shows "reg_inv site {} (DeleteLockHoldingTx t e ng (snd (RecycleKeyLock e (snd (release_on rel lk sh)))))"
    and "reg_inv site {} (snd (release_on rel lk sh))"
proof -
  let ?l = "key_lock_of sh lk"
  have kind: "one_kind t ?l" using kinds unfolding one_kind_def by blast
  have t: "t \<notin> remaining t b ?l"
  proof (cases b)
    case False
    then show ?thesis using kinds b by (auto simp: remaining_def holdset_def)
  qed (use kind in \<open>simp add: remaining_def\<close>)
  note R = inv_release_on [where rel = rel, OF inv e rel wakes remaining_sub]
  have s: "settled site t e (snd (release_on rel lk sh))" using R(2) [OF t] .
  show "reg_inv site {} (snd (release_on rel lk sh))" by (rule reg_inv_settled [OF R(1) s])
  show "reg_inv site {} (DeleteLockHoldingTx t e ng (snd (RecycleKeyLock e (snd (release_on rel lk sh)))))"
    by (rule inv_Delete_settled) (use inv_Recycle [OF R(1)] s in simp_all)
qed

lemma inv_Resume:
  assumes inv: "reg_inv site {(req_txn (aq_req A), aq_cce A)} sh" and e: "lock_of sh (aq_cce A) = Some lk"
    and kinds: "\<forall>k. (req_txn (aq_req A), k) \<in> holders_of (key_lock_of sh lk) \<longrightarrow>
      k = DeduceLockType (aq_op A) (aq_iso A) (aq_protocol A) cov \<or>
      DeduceLockType (aq_op A) (aq_iso A) (aq_protocol A) cov = WriteLock"
  shows "reg_inv site {} (snd (LockHandleForResumedRequest A cov sh))"
proof -
  let ?t = "req_txn (aq_req A)" and ?e = "aq_cce A" and ?l = "key_lock_of sh lk"
  let ?k = "DeduceLockType (aq_op A) (aq_iso A) (aq_protocol A) cov"
  have l: "lock_inv ?l" using inv by (rule inv_lock)
  show ?thesis
  proof (cases "?k = ReadLock \<and> aq_status A = Deleted")
    case True
    obtain b l' E' where rel: "ReleaseReadLock ?t ?l (sh_env sh) = (b, l', E')" by (metis prod_cases3)
    have "reg_inv site {} (DeleteLockHoldingTx ?t ?e (aq_ng A) (snd (RecycleKeyLock ?e (snd (release_on (ReleaseReadLock ?t) lk sh)))))"
      by (rule inv_resume_release(1) [where rel = "ReleaseReadLock ?t", OF inv e rel, of ReadLock])
         (use ReleaseReadLock_wakes [OF l rel] kinds True in simp_all)
    then show ?thesis using True e by (simp add: LockHandleForResumedRequest_def Let_def)
  next
    case notread: False
    show ?thesis
    proof (cases "?k = WriteIntent \<and> aq_iso A = Snapshot \<and> aq_read_ts A < aq_commit_ts A")
      case True
      obtain b l' E' where rel: "ReleaseWriteIntent ?t ?l (sh_env sh) = (b, l', E')" by (metis prod_cases3)
      have "reg_inv site {} (DeleteLockHoldingTx ?t ?e (aq_ng A) (snd (RecycleKeyLock ?e (snd (release_on (ReleaseWriteIntent ?t) lk sh)))))"
        by (rule inv_resume_release(1) [where rel = "ReleaseWriteIntent ?t", OF inv e rel, of WriteIntent])
           (use ReleaseWriteIntent_wakes [OF l rel] kinds [unfolded conjunct1 [OF True]] in \<open>simp_all del: holders_of_iff\<close>)
      then show ?thesis
        unfolding LockHandleForResumedRequest_def Let_def if_not_P [OF notread] if_P [OF True] by (simp add: e)
    next
      case False
      show ?thesis
        unfolding LockHandleForResumedRequest_def Let_def if_not_P [OF notread] if_not_P [OF False]
        using inv by (simp add: inv_Upsert)
    qed
  qed
qed

lemma inv_Resume_snapshot:
  assumes inv: "reg_inv site {(t, e)} sh" and e: "lock_of sh e = Some lk"
    and kinds: "\<forall>k. (t, k) \<in> holders_of (key_lock_of sh lk) \<longrightarrow> k = ReadLock"
  shows "reg_inv site {} (snd (release_on (ReleaseReadLock t) lk sh))"
proof -
  obtain b l' E' where rel: "ReleaseReadLock t (key_lock_of sh lk) (sh_env sh) = (b, l', E')" by (metis prod_cases3)
  show ?thesis
    by (rule inv_resume_release(2) [where rel = "ReleaseReadLock t", OF inv e rel, of ReadLock])
       (use ReleaseReadLock_wakes [OF inv_lock [OF inv] rel] kinds in simp_all)
qed

section \<open>Aborted requests and fast readers\<close>

lemma reg_inv_env:
  assumes "reg_inv site X sh" "enqueued E = enqueued (sh_env sh)"
  shows "reg_inv site X (sh\<lparr>sh_env := E\<rparr>)"
proof -
  have "lock_table_ok (sh\<lparr>sh_env := E\<rparr>)" by (rule table_ok_frame [of sh]) (use assms(1) in \<open>simp_all add: reg_inv_def\<close>)
  moreover have "registered (sh\<lparr>sh_env := E\<rparr>) t e = registered sh t e" for t e by (rule registered_same) simp
  ultimately show ?thesis
    using assms by (simp add: reg_inv_def entry_ok_def woken_at_def key_lock_of_def)
qed

lemma AbortQueueRequest_laws:
  assumes "lock_inv l" "AbortQueueRequest t err l E = (l', E')"
  shows "lock_inv l'" "lock_abs l' = (lock_abs l)\<lparr>waiting := filter (\<lambda>q. lqe_txn q \<noteq> t) (cq_list (blocking_queue l))\<rparr>"
    "enqueued E' = enqueued E" "holdset l' = holdset l"
proof -
  have ex: "lock_inv l' \<and> lock_abs l' = (lock_abs l)\<lparr>waiting := filter (\<lambda>q. lqe_txn q \<noteq> t) (cq_list (blocking_queue l))\<rparr> \<and>
      E' = abort_entries err (filter (\<lambda>q. lqe_txn q = t) (cq_list (blocking_queue l))) E"
    using exec_refines_all [OF assms(1), of "Op_AbortQueued t err" E] assms(2) by auto
  then show "lock_inv l'" "lock_abs l' = (lock_abs l)\<lparr>waiting := filter (\<lambda>q. lqe_txn q \<noteq> t) (cq_list (blocking_queue l))\<rparr>"
    "enqueued E' = enqueued E" by (simp_all add: abort_entries_def)
  have "holders (lock_abs l') = holders (lock_abs l)" using ex by simp
  then show "holdset l' = holdset l" by (simp add: holdset_def)
qed

lemma inv_Abort:
  assumes inv: "reg_inv site X sh" and e: "lock_of sh e = Some lk"
  shows "reg_inv site X (snd (release_on (\<lambda>l E. ((), AbortQueueRequest t err l E)) lk sh))"
proof -
  let ?l = "key_lock_of sh lk"
  obtain l' E' where ab: "AbortQueueRequest t err ?l (sh_env sh) = (l', E')" by fastforce
  note L = AbortQueueRequest_laws [OF inv_lock [OF inv] ab]
  have "waiting (lock_abs l') = filter (\<lambda>q. lqe_txn q \<noteq> t) (cq_list (blocking_queue ?l))" unfolding L(2) by simp
  then have q: "set (cq_list (blocking_queue l')) \<subseteq> set (cq_list (blocking_queue ?l))" by auto
  have "reg_inv site X (with_lock lk (\<lambda>_. l') sh)"
    by (rule inv_with_lock [OF inv e]) (use L q inv_queue_site [OF inv e] in auto)
  then have "reg_inv site X ((with_lock lk (\<lambda>_. l') sh)\<lparr>sh_env := E'\<rparr>)" by (rule reg_inv_env) (simp add: L(3))
  then show ?thesis using ab by (simp add: release_on_def key_lock_of_def)
qed

lemma AcquireReadLockFast_laws [simp]:
  "lock_inv (snd (AcquireReadLockFast t l)) = lock_inv l" "holders_of (snd (AcquireReadLockFast t l)) = holders_of l"
  "blocking_queue (snd (AcquireReadLockFast t l)) = blocking_queue l"
  by (simp_all add: AcquireReadLockFast_def holders_of_updates)

lemma inv_ReadFast:
  assumes "reg_inv site X sh" "lock_of sh e = Some lk"
  shows "reg_inv site X (with_lock lk (\<lambda>l. snd (AcquireReadLockFast t l)) sh)"
  by (rule inv_with_lock [OF assms]) (use inv_lock [OF assms(1)] inv_queue_site [OF assms] in \<open>auto simp: holdset_def\<close>)

lemma inv_ReleaseFast:
  assumes inv: "reg_inv site X sh" and e: "lock_of sh e = Some lk"
  shows "reg_inv site X (snd (release_on ReleaseReadLockFast lk sh))"
proof -
  let ?l = "key_lock_of sh lk"
  obtain b l' E' where rel: "ReleaseReadLockFast ?l (sh_env sh) = (b, l', E')" by (metis prod_cases3)
  then have pop: "TryPopBlockingQueue (?l\<lparr>read_cnt := read_cnt ?l - 1\<rparr>) (sh_env sh) = (l', E')"
    by (simp add: ReleaseReadLockFast_def)
  have "wakes_to (holdset ?l) ?l (sh_env sh) l' E'"
    by (rule wakes_to_from [OF _ _ pop]) (use inv_lock [OF inv] in \<open>simp_all add: holdset_def holders_of_updates\<close>)
  then show ?thesis by (rule inv_release_on(1) [where rel = ReleaseReadLockFast, OF inv e rel]) simp
qed

section \<open>Clearing a transaction\<close>

text \<open>
  \<open>ClearTx\<close> drops one kind of lock per entry. \<open>clearable\<close> says that the transaction has no two
  kinds of lock on an entry, or only locks whose request is still to be resumed.
\<close>

definition clearable :: "(nat \<Rightarrow> nat) \<Rightarrow> TxNumber \<Rightarrow> nat \<Rightarrow> ('o, 'c) shard \<Rightarrow> bool" where
  "clearable site t e sh \<longleftrightarrow>
     (\<forall>a. lock_of sh e = Some a \<longrightarrow> one_kind t (key_lock_of sh a)) \<or> settled site t e sh"

lemma settled_clearable: "settled site t e sh \<Longrightarrow> clearable site t e sh"
  by (simp add: clearable_def)

text \<open>An operation on the entry \<open>e\<close> that only adds woken requests says nothing about other entries.\<close>

lemma other_entry:
  assumes inv: "reg_inv site X sh" and e: "lock_of sh e = Some lk" and neq: "e' \<noteq> e"
    and same: "lock_of sh' e' = lock_of sh e'" "\<forall>a. a \<noteq> lk \<longrightarrow> key_lock_of sh' a = key_lock_of sh a"
    and woken: "woken_at site sh t e' \<Longrightarrow> woken_at site sh' t e'"
  shows "settled site t e' sh \<Longrightarrow> settled site t e' sh'" "clearable site t e' sh \<Longrightarrow> clearable site t e' sh'"
proof -
  have key: "key_lock_of sh' a = key_lock_of sh a" if "lock_of sh e' = Some a" for a
    using that e neq lock_of_unique [of sh e a e'] inv same(2) by (cases "a = lk") (auto simp: reg_inv_def)
  show s: "settled site t e' sh \<Longrightarrow> settled site t e' sh'"
    using key same(1) woken by (simp add: settled_def)
  show "clearable site t e' sh \<Longrightarrow> clearable site t e' sh'"
    using s key same(1) by (auto simp: clearable_def)
qed

lemma clear_entry_none: "lock_of sh e = None \<Longrightarrow> clear_entry keep t tt e sh = sh"
  by (simp add: clear_entry_def)

lemma key_lock_ClearTx [simp]: "key_lock (kgl_ClearTx k) = key_lock k"
  by (simp add: kgl_ClearTx_def)

lemma clear_entry_steps:
  assumes e: "lock_of sh e = Some lk"
  obtains sh2 where "clear_entry keep t tt e sh = (if keep \<and> tt = Catalog then sh2 else snd (RecycleKeyLock e sh2))"
    "key_lock_of sh2 = key_lock_of (snd (release_on (lock_ClearTx t) lk sh))" "lock_of sh2 = lock_of sh"
    "sh_env sh2 = sh_env (snd (release_on (lock_ClearTx t) lk sh))" "lock_holding_txs sh2 = lock_holding_txs sh"
    "lock_table_ok sh \<Longrightarrow> lock_table_ok sh2"
proof -
  obtain lt l' E' where c: "lock_ClearTx t (key_lock (locks sh lk)) (sh_env sh) = (lt, l', E')" by (metis prod_cases3)
  define sh1 where "sh1 = (upd_lock lk (\<lambda>k. k\<lparr>key_lock := l'\<rparr>) sh)\<lparr>sh_env := E'\<rparr>"
  define sh2 where "sh2 = (if lt = WriteLock then upd_lock lk kgl_ClearTx sh1 else sh1)"
  have r: "snd (release_on (lock_ClearTx t) lk sh) = sh1"
    by (simp add: release_on_def c sh1_def with_lock_def)
  have "clear_entry keep t tt e sh = (if keep \<and> tt = Catalog then sh2 else snd (RecycleKeyLock e sh2))"
    by (simp add: clear_entry_def e c Let_def sh1_def sh2_def)
  moreover have "key_lock_of sh2 = key_lock_of (snd (release_on (lock_ClearTx t) lk sh))"
    unfolding r by (simp add: sh2_def key_lock_of_def upd_lock_def fun_eq_iff)
  moreover have "lock_of sh2 = lock_of sh" "sh_env sh2 = sh_env (snd (release_on (lock_ClearTx t) lk sh))"
      "lock_holding_txs sh2 = lock_holding_txs sh"
    unfolding r by (simp_all add: sh2_def sh1_def upd_lock_def)
  moreover have "lock_table_ok sh2" if "lock_table_ok sh"
    by (rule contents_ok [OF that]) (simp_all add: sh2_def sh1_def upd_lock_def kgl_ClearTx_def)
  ultimately show thesis by (rule that)
qed

lemma inv_same_locks:
  assumes "reg_inv site X sh" "lock_table_ok sh'" "key_lock_of sh' = key_lock_of sh" "lock_of sh' = lock_of sh"
    "sh_env sh' = sh_env sh" "lock_holding_txs sh' = lock_holding_txs sh"
  shows "reg_inv site X sh'"
  by (rule reg_inv_table [OF assms(1,2,4,3,5)]) (use registered_same [OF assms(6)] in auto)

lemma settled_same:
  assumes "key_lock_of sh' = key_lock_of sh" "lock_of sh' = lock_of sh" "sh_env sh' = sh_env sh"
  shows "settled site t e sh' = settled site t e sh" "clearable site t e sh' = clearable site t e sh"
  using assms by (simp_all add: settled_def clearable_def woken_at_def)

lemma clearable_Recycle:
  assumes "reg_inv site X sh" "clearable site t e' sh"
  shows "clearable site t e' (snd (RecycleKeyLock e sh))"
proof (cases "settled site t e' sh")
  case True
  then show ?thesis using inv_Recycle(2) [OF assms(1)] settled_clearable by blast
next
  case False
  have "lock_of sh e' = Some a" "key_lock_of (snd (RecycleKeyLock e sh)) a = key_lock_of sh a"
    if "lock_of (snd (RecycleKeyLock e sh)) e' = Some a" for a
    using that by (auto simp: RecycleKeyLock_def key_lock_of_def upd_lock_def DecreaseLockCount_def SetUsedStatus_def
        split: option.splits if_splits)
  then show ?thesis using assms(2) False by (simp add: clearable_def)
qed

lemma woken_release_on:
  assumes "rel (key_lock_of sh lk) (sh_env sh) = (r, l', E')" "wakes_to H (key_lock_of sh lk) (sh_env sh) l' E'"
    and "woken_at site sh u e'"
  shows "woken_at site (snd (release_on rel lk sh)) u e'"
proof -
  have "set (enqueued (sh_env sh)) \<subseteq> set (enqueued E')" using assms(2) by (auto simp: wakes_to_def)
  then show ?thesis using assms(1,3) by (auto simp: woken_at_def release_on_def key_lock_of_def)
qed

lemma key_lock_release_on: "a \<noteq> lk \<Longrightarrow> key_lock_of (snd (release_on rel lk sh)) a = key_lock_of sh a"
  by (simp add: release_on_def key_lock_of_def with_lock_def upd_lock_def split: prod.split)

lemma inv_clear_entry:
  assumes inv: "reg_inv site X sh" and clear: "\<forall>e'. clearable site t e' sh"
  shows "reg_inv site X (clear_entry keep t tt e sh) \<and> settled site t e (clear_entry keep t tt e sh) \<and>
    (\<forall>e'. clearable site t e' (clear_entry keep t tt e sh)) \<and>
    (\<forall>e'. settled site t e' sh \<longrightarrow> settled site t e' (clear_entry keep t tt e sh)) \<and>
    lock_holding_txs (clear_entry keep t tt e sh) = lock_holding_txs sh"
proof (cases "lock_of sh e")
  case None
  then show ?thesis using inv clear by (simp add: clear_entry_none settled_def)
next
  case (Some lk)
  let ?l = "key_lock_of sh lk" and ?sh1 = "snd (release_on (lock_ClearTx t) lk sh)"
  obtain r l' E' where rel: "lock_ClearTx t ?l (sh_env sh) = (r, l', E')" by (metis prod_cases3)
  note wakes = ClearTx_wakes [OF inv_lock [OF inv] rel]
  note R = inv_release_on [where rel = "lock_ClearTx t", OF inv Some rel wakes remaining_sub]
  note W = woken_release_on [where rel = "lock_ClearTx t", OF rel wakes, of site]
  have s1: "settled site t e ?sh1"
  proof (cases "one_kind t ?l \<or> t \<notin> holdset ?l")
    case True
    then have "t \<notin> remaining t True ?l" by (auto simp: remaining_def)
    then show ?thesis by (rule R(2))
  next
    case False
    then have "settled site t e sh" using clear [THEN spec, of e] Some by (simp add: clearable_def)
    then have "woken_at site sh t e" using False Some by (simp add: settled_def)
    then show ?thesis using W by (simp add: settled_def)
  qed
  note O = other_entry [OF inv Some, where sh' = ?sh1 and t = t]
  have others: "settled site t e' sh \<longrightarrow> settled site t e' ?sh1" "clearable site t e' ?sh1" for e'
    using s1 O W [of t e'] clear key_lock_release_on [of _ lk "lock_ClearTx t" sh] settled_clearable [OF s1]
    by (cases "e' = e"; simp)+
  obtain sh2 where sh2: "clear_entry keep t tt e sh = (if keep \<and> tt = Catalog then sh2 else snd (RecycleKeyLock e sh2))"
    "key_lock_of sh2 = key_lock_of ?sh1" "lock_of sh2 = lock_of sh"
    "sh_env sh2 = sh_env ?sh1" "lock_holding_txs sh2 = lock_holding_txs sh" "lock_table_ok sh \<Longrightarrow> lock_table_ok sh2"
    using clear_entry_steps [OF Some] by blast
  have same: "settled site t e' sh2 = settled site t e' ?sh1" "clearable site t e' sh2 = clearable site t e' ?sh1" for e'
    by (rule settled_same; simp add: sh2)+
  have inv2: "reg_inv site X sh2"
    by (rule inv_same_locks [OF R(1)]) (use sh2 inv in \<open>simp_all add: reg_inv_def release_on_def split: prod.splits\<close>)
  have txs: "lock_holding_txs (snd (RecycleKeyLock e sh2)) = lock_holding_txs sh2"
    by (auto simp: RecycleKeyLock_def upd_lock_def DecreaseLockCount_def split: option.split)
  show ?thesis
    using inv2 s1 others same inv_Recycle [OF inv2] clearable_Recycle [OF inv2] txs sh2(1,5) by auto
qed

lemma inv_fold_clear_entry:
  assumes "reg_inv site X sh" "\<forall>e'. clearable site t e' sh"
  shows "let sh' = fold (clear_entry keep t tt) es sh in
    reg_inv site X sh' \<and> (\<forall>e \<in> set es. settled site t e sh') \<and> (\<forall>e'. clearable site t e' sh') \<and>
    (\<forall>e'. settled site t e' sh \<longrightarrow> settled site t e' sh') \<and> lock_holding_txs sh' = lock_holding_txs sh"
  using assms
proof (induction es arbitrary: sh)
  case (Cons e es)
  note C = inv_clear_entry [OF Cons.prems, of keep tt e]
  show ?case using Cons.IH [of "clear_entry keep t tt e sh"] C by (simp add: Let_def)
qed simp

lemma reg_inv_settle_all:
  assumes "reg_inv site Y sh" "\<And>t e. (t, e) \<in> Y \<Longrightarrow> settled site t e sh"
  shows "reg_inv site {} sh"
  unfolding reg_inv_def
proof (intro conjI allI impI)
  show "lock_table_ok sh" "lock_inv (key_lock_of sh a)" for a using assms(1) by (simp_all add: reg_inv_def)
  fix e a assume a: "lock_of sh e = Some a"
  then have "entry_ok site Y sh e (key_lock_of sh a)" using assms(1) by (simp add: reg_inv_def)
  then show "entry_ok site {} sh e (key_lock_of sh a)"
    using assms(2) [of _ e] a by (auto simp: entry_ok_def settled_def)
qed

lemma ng_txs_clear_ng:
  assumes "reg_inv site {} sh" "\<forall>e'. clearable site t e' sh"
  shows "ng_txs ng' (clear_ng keep t ng sh) = (if ng' = ng then AList.delete t (ng_txs ng sh) else ng_txs ng' sh)"
proof (cases "map_of (ng_txs ng sh) t")
  case None
  then have "AList.delete t (ng_txs ng sh) = ng_txs ng sh" by (simp add: delete_id map_of_eq_None_iff)
  then show ?thesis unfolding clear_ng_def None option.case by simp
next
  case (Some info)
  have "lock_holding_txs (fold (clear_entry keep t (tli_table_type info)) (cce_list info) sh) = lock_holding_txs sh"
    using inv_fold_clear_entry [OF assms] by (simp add: Let_def)
  then show ?thesis unfolding clear_ng_def Some option.case by (simp add: Let_def ng_txs_def)
qed

lemma inv_clear_ng:
  assumes inv: "reg_inv site {} sh" and clear: "\<forall>e'. clearable site t e' sh"
  shows "reg_inv site {} (clear_ng keep t ng sh) \<and> (\<forall>e'. clearable site t e' (clear_ng keep t ng sh))"
proof (cases "map_of (ng_txs ng sh) t")
  case None
  then show ?thesis using assms unfolding clear_ng_def None option.case by simp
next
  case (Some info)
  define sh1 where "sh1 = fold (clear_entry keep t (tli_table_type info)) (cce_list info) sh"
  define sh' where "sh' = sh1\<lparr>lock_holding_txs := AList.update ng (AList.delete t (ng_txs ng sh1)) (lock_holding_txs sh1)\<rparr>"
  have res: "clear_ng keep t ng sh = sh'" unfolding clear_ng_def Some option.case by (simp add: Let_def sh1_def sh'_def)
  have F: "reg_inv site {} sh1" "\<forall>e \<in> set (cce_list info). settled site t e sh1" "\<forall>e'. clearable site t e' sh1"
      "lock_holding_txs sh1 = lock_holding_txs sh"
    using inv_fold_clear_entry [OF assms, of keep "tli_table_type info" "cce_list info"] by (simp_all add: Let_def sh1_def)
  have key: "key_lock_of sh' = key_lock_of sh1" by (simp add: sh'_def key_lock_of_def fun_eq_iff)
  have same: "settled site t e sh' = settled site t e sh1" "clearable site t e sh' = clearable site t e sh1" for e
    by (rule settled_same [OF key]; simp add: sh'_def)+
  have txs: "ng_txs ng' sh' = (if ng' = ng then AList.delete t (ng_txs ng sh1) else ng_txs ng' sh1)" for ng'
    by (simp add: sh'_def ng_txs_def)
  have info: "map_of (ng_txs ng sh1) t = Some info" using Some F(4) by (simp add: ng_txs_def)
  let ?Y = "{t} \<times> set (cce_list info)"
  have "reg_inv site ?Y sh'"
  proof (rule reg_inv_table [OF F(1)])
    show "lock_table_ok sh'" by (rule table_ok_frame [of sh1]) (use F(1) in \<open>simp_all add: reg_inv_def sh'_def\<close>)
    fix u e assume "registered sh1 u e" and out: "(u, e) \<notin> ?Y"
    then obtain ng' i where i: "map_of (ng_txs ng' sh1) u = Some i" "e \<in> set (cce_list i)" by (auto simp: registered_def)
    then have "map_of (ng_txs ng' sh') u = Some i" using txs [of ng'] out info by auto
    then show "registered sh' u e" using i(2) unfolding registered_def by blast
  qed (simp_all add: sh'_def key_lock_of_def fun_eq_iff)
  then have "reg_inv site {} sh'" by (rule reg_inv_settle_all) (use F(2) same in auto)
  then show ?thesis unfolding res using F(3) same by simp
qed

lemma inv_shard_ClearTx:
  assumes inv: "reg_inv site {} sh" and clear: "\<forall>e'. clearable site t e' sh"
  shows "reg_inv site {} (shard_ClearTx keep t sh)" "settled site t e (shard_ClearTx keep t sh)"
proof -
  have fold: "reg_inv site {} (fold (clear_ng keep t) ngs s) \<and>
      (\<forall>ng. map_of (ng_txs ng (fold (clear_ng keep t) ngs s)) t = (if ng \<in> set ngs then None else map_of (ng_txs ng s) t))"
    if "reg_inv site {} s" "\<forall>e'. clearable site t e' s" for ngs s
    using that
  proof (induction ngs arbitrary: s)
    case (Cons ng ngs)
    note C = inv_clear_ng [OF Cons.prems, of keep ng]
    have "map_of (ng_txs ng' (clear_ng keep t ng s)) t = (if ng' = ng then None else map_of (ng_txs ng' s) t)" for ng'
      using ng_txs_clear_ng [OF Cons.prems, of ng' keep ng] by simp
    then show ?case using Cons.IH [of "clear_ng keep t ng s"] C by simp
  qed simp
  let ?sh = "shard_ClearTx keep t sh"
  have F: "reg_inv site {} ?sh" and none: "map_of (ng_txs ng ?sh) t = None" for ng
  proof -
    show "reg_inv site {} ?sh" using fold [OF assms] by (simp add: shard_ClearTx_def)
    have "map_of (ng_txs ng sh) t = None" if "ng \<notin> set (map fst (lock_holding_txs sh))"
      using that by (simp add: ng_txs_def map_of_eq_None_iff [THEN iffD2])
    then show "map_of (ng_txs ng ?sh) t = None" using fold [OF assms] by (simp add: shard_ClearTx_def)
  qed
  show "reg_inv site {} ?sh" by (rule F)
  show "settled site t e ?sh"
    unfolding settled_def
  proof (intro allI impI)
    fix a assume a: "lock_of ?sh e = Some a" "t \<in> holdset (key_lock_of ?sh a)"
    then have "registered ?sh t e \<or> woken_at site ?sh t e" using F by (auto simp: reg_inv_def entry_ok_def)
    then show "woken_at site ?sh t e" using none by (simp add: registered_def)
  qed
qed

section \<open>Forced clearing and maintenance\<close>

lemma registered_fold_Delete:
  "registered sh u e' \<Longrightarrow> e' \<noteq> e \<Longrightarrow> registered (fold (\<lambda>t. DeleteLockHoldingTx t e ng) ts sh) u e'"
  by (induction ts arbitrary: sh) (simp_all add: registered_Delete)

lemma sh_env_fold_Delete: "sh_env (fold (\<lambda>t. DeleteLockHoldingTx t e ng) ts sh) = sh_env sh"
  by (induction ts arbitrary: sh) simp_all

lemma ClearLocks_effect:
  assumes lk: "lock_of sh e = Some lk" and l: "lock_inv (key_lock_of sh lk)"
  obtains l' where "lock_inv l'" "holdset l' = {}" "cq_list (blocking_queue l') = []"
    "lock_of (ClearLocks e ng sh) = (lock_of sh)(e := None)"
    "key_lock_of (ClearLocks e ng sh) = (key_lock_of sh)(lk := l')"
    "enqueued (sh_env (ClearLocks e ng sh)) = enqueued (sh_env sh)"
    "\<And>t e'. e' \<noteq> e \<Longrightarrow> registered sh t e' \<Longrightarrow> registered (ClearLocks e ng sh) t e'"
proof -
  define k where "k = key_lock (locks sh lk)"
  define sh3 where "sh3 = fold (\<lambda>t. DeleteLockHoldingTx t e ng) (sorted_list_of_set (read_intentions k))
     (fold (\<lambda>t. DeleteLockHoldingTx t e ng) (sorted_list_of_set (read_locks k))
       (if write_lk_type k \<noteq> NoWritelock then DeleteLockHoldingTx (write_txn k) e ng sh else sh))"
  have frame: "locks sh3 = locks sh" "lock_of sh3 = lock_of sh" "sh_env sh3 = sh_env sh"
    by (simp_all add: sh3_def sh_env_fold_Delete)
  obtain l' E' where ab: "AbortAllQueuedRequests REQUESTED_NODE_NOT_LEADER k (sh_env sh) = (l', E')" by fastforce
  have l': "lock_inv l'" "enqueued E' = enqueued (sh_env sh)"
    using ab exec_refines_all [of k "Op_AbortAll REQUESTED_NODE_NOT_LEADER" "sh_env sh"] l
    by (auto simp: k_def key_lock_of_def abort_entries_def)
  have C: "lock_of (ClearLocks e ng sh) = (lock_of sh)(e := None)" "lock_holding_txs (ClearLocks e ng sh) = lock_holding_txs sh3"
      "enqueued (sh_env (ClearLocks e ng sh)) = enqueued (sh_env sh)"
      "key_lock_of (ClearLocks e ng sh) = (key_lock_of sh)(lk := lock_Reset l')"
    using ab l'(2) frame unfolding ClearLocks_def lk option.case k_def [symmetric]
    by (simp_all add: Let_def WriteTx_def sh3_def [symmetric] UpdateBufferedCommandCnt_def upd_lock_def DecreaseLockCount_def
        SetUsedStatus_def kgl_Reset_def key_lock_of_def fun_eq_iff split: prod.splits)
  have reg: "registered (ClearLocks e ng sh) t e'" if "e' \<noteq> e" "registered sh t e'" for t e'
    unfolding registered_same [OF C(2)] sh3_def using that by (auto intro: registered_fold_Delete registered_Delete)
  show thesis by (rule that [of "lock_Reset l'"]) (simp_all add: lock_Reset_laws l'(1) C reg)
qed

lemma inv_ClearLocks:
  assumes inv: "reg_inv site {} sh"
  shows "reg_inv site {} (ClearLocks e ng sh)"
proof (cases "lock_of sh e")
  case None
  then show ?thesis using inv by (simp add: ClearLocks_def)
next
  case (Some lk)
  obtain l' where C: "lock_inv l'" "lock_of (ClearLocks e ng sh) = (lock_of sh)(e := None)"
    "key_lock_of (ClearLocks e ng sh) = (key_lock_of sh)(lk := l')"
    "enqueued (sh_env (ClearLocks e ng sh)) = enqueued (sh_env sh)"
    "\<And>t e'. e' \<noteq> e \<Longrightarrow> registered sh t e' \<Longrightarrow> registered (ClearLocks e ng sh) t e'"
    using ClearLocks_effect [OF Some inv_lock [OF inv], where ng = ng] by metis
  show ?thesis
  proof (rule reg_inv_local [OF inv Some])
    show "lock_table_ok (ClearLocks e ng sh)" using inv by (simp add: ClearLocks_ok reg_inv_def)
  qed (use C in \<open>simp_all add: woken_at_def\<close>)
qed

lemma inv_Resize:
  assumes "reg_inv site X sh"
  shows "reg_inv site X (TryResizeLockArray sh)"
proof (rule inv_same_locks [OF assms])
  show "lock_table_ok (TryResizeLockArray sh)" using assms by (simp add: reg_inv_def TryResize_ok)
qed (simp_all add: TryResizeLockArray_def Let_def key_lock_of_def fun_eq_iff split: prod.split)

lemma inv_time:
  assumes "reg_inv site X sh"
  shows "reg_inv site X (UpdateTsBase ts sh)"
proof (rule inv_same_locks [OF assms])
  show "lock_table_ok (UpdateTsBase ts sh)"
    by (rule table_ok_frame [of sh]) (use assms in \<open>simp_all add: reg_inv_def UpdateTsBase_def\<close>)
qed (simp_all add: UpdateTsBase_def key_lock_of_def fun_eq_iff)

end
