(* ===== verification/Lock_Discipline.thy ===== *)
theory Lock_Discipline
  imports Holder_Steps
begin

text \<open>
  What clients owe to the locks of a shard: while a request of a transaction waits at an entry, or was woken
  there and is still to be resumed, the transaction sends no other request that locks the entry, and a
  snapshot reader does not wait for its own write lock. The locks themselves do not check it. Under this rule
  a transaction has one kind of lock per entry, and a woken request finds the lock it waited for.
  The function \<open>want\<close> gives the kind of lock for which a request waits.
\<close>

section \<open>One lock\<close>

text \<open>The lock \<open>k\<close> is what a request for \<open>lt\<close> was given, perhaps downgraded since.\<close>

definition granted :: "LockType \<Rightarrow> LockType \<Rightarrow> bool" where
  "granted lt k \<longleftrightarrow> k = lt \<or> lt = WriteLock \<and> k = WriteIntent"

definition queued_ok :: "(nat \<Rightarrow> LockType) \<Rightarrow> cc_req set \<Rightarrow> abstract_lock \<Rightarrow> LockQueueEntry \<Rightarrow> bool" where
  "queued_ok want W s q \<longleftrightarrow> want (req_id (lqe_req q)) = lk_type q \<and> lk_type q \<in> {ReadLock, WriteIntent, WriteLock} \<and>
     lqe_txn q \<notin> req_txn ` W \<and>
     (lk_type q = ReadLock \<longrightarrow> (\<forall>k. (lqe_txn q, k) \<in> holders s \<longrightarrow> k = ReadIntent \<or> k = ReadLock))"

text \<open>\<open>W\<close> are the requests that were woken at the lock and are still to be resumed.\<close>

definition in_order :: "(nat \<Rightarrow> LockType) \<Rightarrow> cc_req set \<Rightarrow> abstract_lock \<Rightarrow> bool" where
  "in_order want W s \<longleftrightarrow> (\<forall>t h k. (t, h) \<in> holders s \<and> (t, k) \<in> holders s \<longrightarrow> h = k) \<and>
     distinct (map lqe_txn (waiting s)) \<and> (\<forall>q \<in> set (waiting s). queued_ok want W s q) \<and>
     (\<forall>r \<in> W. \<forall>k. (req_txn r, k) \<in> holders s \<longrightarrow> granted (want (req_id r)) k)"

lemma in_order_mono:
  assumes "in_order want W s" "W' \<subseteq> W" "holders s' \<subseteq> holders s" "waiting s' = waiting s"
  shows "in_order want W' s'"
  unfolding in_order_def assms(4)
proof (intro conjI)
  show "\<forall>t h k. (t, h) \<in> holders s' \<and> (t, k) \<in> holders s' \<longrightarrow> h = k"
    using assms(1,3) unfolding in_order_def by blast
  show "distinct (map lqe_txn (waiting s))" using assms(1) by (simp add: in_order_def)
  show "\<forall>q \<in> set (waiting s). queued_ok want W' s' q"
    using assms(1-3) unfolding in_order_def queued_ok_def by blast
  show "\<forall>r \<in> W'. \<forall>k. (req_txn r, k) \<in> holders s' \<longrightarrow> granted (want (req_id r)) k"
    using assms(1-3) unfolding in_order_def by blast
qed

lemma in_order_empty: "in_order want W \<lparr>holders = {}, fast_readers = n, waiting = []\<rparr>"
  by (simp add: in_order_def)

text \<open>Only the locks of \<open>t\<close> change, and \<open>t\<close> neither waits nor was woken, save by \<open>W'\<close>.\<close>

lemma in_order_change:
  assumes ord: "in_order want W s" and others: "\<And>u k. u \<noteq> t \<Longrightarrow> (u, k) \<in> holders s' \<longleftrightarrow> (u, k) \<in> holders s"
    and one: "\<And>k. (t, k) \<in> holders s' \<Longrightarrow> k = lt" and W: "t \<notin> req_txn ` W" "\<And>r. r \<in> W' \<Longrightarrow> req_txn r = t \<and> granted (want (req_id r)) lt"
    and queue: "set (waiting s') \<subseteq> set (waiting s)" "distinct (map lqe_txn (waiting s'))" "t \<notin> lqe_txn ` set (waiting s')"
  shows "in_order want (W \<union> W') s'"
  unfolding in_order_def
proof (intro conjI ballI allI impI)
  fix u h k assume "(u, h) \<in> holders s' \<and> (u, k) \<in> holders s'"
  then show "h = k" using ord others [of u] one [of h] one [of k] by (cases "u = t") (auto simp: in_order_def)
next
  fix q assume q: "q \<in> set (waiting s')"
  then have "queued_ok want W s q" "lqe_txn q \<noteq> t" using ord queue by (auto simp: in_order_def)
  moreover have "lqe_txn q \<notin> req_txn ` W'" using W(2) calculation(2) by auto
  ultimately show "queued_ok want (W \<union> W') s' q" using others [of "lqe_txn q"] by (auto simp: queued_ok_def)
next
  fix r k assume r: "r \<in> W \<union> W'" "(req_txn r, k) \<in> holders s'"
  show "granted (want (req_id r)) k"
  proof (cases "req_txn r = t")
    case True
    then show ?thesis using r W one by auto
  next
    case False
    then have "r \<in> W" "(req_txn r, k) \<in> holders s" using r W(2) others by auto
    then show ?thesis using ord by (simp add: in_order_def)
  qed
qed (rule queue(2))

lemma in_order_serve:
  assumes "in_order want W (s\<lparr>waiting := es\<rparr>)"
  shows "\<exists>ps. es = ps @ waiting (fst (serve es s E)) \<and> enqueued (snd (serve es s E)) = enqueued E @ map lqe_req ps \<and>
    in_order want (W \<union> lqe_req ` set ps) (fst (serve es s E))"
  using assms
proof (induction es arbitrary: s E W)
  case (Cons e es)
  let ?t = "lqe_txn e" and ?lt = "lk_type e"
  show ?case
  proof (cases "grantable s ?t ?lt")
    case False
    then show ?thesis using Cons.prems by simp
  next
    case True
    let ?s = "grant ?t ?lt s" and ?E = "ccs_Enqueue (lqe_req e) E"
    have e: "queued_ok want W (s\<lparr>waiting := e # es\<rparr>) e" using Cons.prems by (simp add: in_order_def)
    have g: "granted (want (req_id (lqe_req e))) ?lt" using e by (simp add: queued_ok_def granted_def)
    have "in_order want (W \<union> {lqe_req e}) (?s\<lparr>waiting := es\<rparr>)"
    proof (rule in_order_change [OF Cons.prems, of ?t])
      show "(u, k) \<in> holders (?s\<lparr>waiting := es\<rparr>) \<longleftrightarrow> (u, k) \<in> holders (s\<lparr>waiting := e # es\<rparr>)" if "u \<noteq> ?t" for u k
        using that by (auto simp: grant_def)
      show "k = ?lt" if "(?t, k) \<in> holders (?s\<lparr>waiting := es\<rparr>)" for k
        using that e by (auto simp: grant_def queued_ok_def split: if_splits)
    qed (use e g Cons.prems in \<open>auto simp: queued_ok_def in_order_def\<close>)
    from Cons.IH [OF this, of ?E] obtain ps where
      ps: "es = ps @ waiting (fst (serve es ?s ?E))" "enqueued (snd (serve es ?s ?E)) = enqueued ?E @ map lqe_req ps"
        "in_order want ((W \<union> {lqe_req e}) \<union> lqe_req ` set ps) (fst (serve es ?s ?E))" by blast
    have step: "serve (e # es) s E = serve es ?s ?E" using True by simp
    show ?thesis
      unfolding step by (rule exI [of _ "e # ps"]) (use ps in \<open>simp add: ccs_Enqueue_def Un_assoc insert_commute\<close>)
  qed
qed simp

lemma in_order_wake:
  assumes "in_order want W s"
  shows "\<exists>ps. set ps \<subseteq> set (waiting s) \<and> enqueued (snd (wake s E)) = enqueued E @ map lqe_req ps \<and>
    in_order want (W \<union> lqe_req ` set ps) (fst (wake s E))"
proof -
  have "s\<lparr>waiting := waiting s\<rparr> = s" by simp
  then obtain ps where ps: "waiting s = ps @ waiting (fst (serve (waiting s) s E))"
      "enqueued (snd (serve (waiting s) s E)) = enqueued E @ map lqe_req ps"
      "in_order want (W \<union> lqe_req ` set ps) (fst (serve (waiting s) s E))"
    using in_order_serve [where s = s and es = "waiting s" and E = E] assms by metis
  have "set ps \<subseteq> set (waiting s)" by (subst ps(1)) simp
  then show ?thesis using ps(2,3) unfolding wake_def by blast
qed

fun gives_up :: "lock_op \<Rightarrow> bool" where
  "gives_up (Op_ReleaseRead t) = True"
| "gives_up (Op_ReleaseWrite t) = True"
| "gives_up (Op_ReleaseWriteIntent t) = True"
| "gives_up (Op_ReleaseReadIntent t) = True"
| "gives_up (Op_Downgrade t) = True"
| "gives_up (Op_ClearTx t) = True"
| "gives_up Op_ReleaseReadFast = True"
| "gives_up _ = False"

lemma in_order_unhold: "in_order want W s \<Longrightarrow> in_order want W (unhold t lt s)"
  by (erule in_order_mono) (auto simp: unhold_def)

lemma in_order_downgrade:
  assumes ord: "in_order want W s" and t: "(t, WriteLock) \<in> holders s"
  shows "in_order want W (s\<lparr>holders := insert (t, WriteIntent) (holders s - {(t, WriteLock)})\<rparr>)"
proof -
  have one: "(t, k) \<in> holders s \<Longrightarrow> k = WriteLock" for k using ord t unfolding in_order_def by blast
  have woken: "want (req_id r) = WriteLock" if "r \<in> W" "req_txn r = t" for r
  proof -
    have "granted (want (req_id r)) WriteLock" using ord t that unfolding in_order_def by blast
    then show ?thesis by (auto simp: granted_def)
  qed
  have "lk_type q \<noteq> ReadLock" if "q \<in> set (waiting s)" "lqe_txn q = t" for q
    using ord t that by (fastforce simp: in_order_def queued_ok_def)
  then have queue: "queued_ok want W (s\<lparr>holders := insert (t, WriteIntent) (holders s - {(t, WriteLock)})\<rparr>) q"
    if "q \<in> set (waiting s)" for q
    using ord that by (auto simp: in_order_def queued_ok_def)
  show ?thesis
    unfolding in_order_def
  proof (intro conjI ballI allI impI)
    fix u h k
    assume "(u, h) \<in> holders (s\<lparr>holders := insert (t, WriteIntent) (holders s - {(t, WriteLock)})\<rparr>) \<and>
      (u, k) \<in> holders (s\<lparr>holders := insert (t, WriteIntent) (holders s - {(t, WriteLock)})\<rparr>)"
    then show "h = k" using ord one [of h] one [of k] by (cases "u = t") (auto simp: in_order_def)
  next
    fix r k assume "r \<in> W" "(req_txn r, k) \<in> holders (s\<lparr>holders := insert (t, WriteIntent) (holders s - {(t, WriteLock)})\<rparr>)"
    then show "granted (want (req_id r)) k" using ord woken [of r] by (auto simp: in_order_def granted_def)
  qed (use ord queue in \<open>auto simp: in_order_def\<close>)
qed

text \<open>Giving up a lock and waking the queue keeps the order; the woken requests come from the queue.\<close>

lemma in_order_gives_up:
  assumes ord: "in_order want W s" and op: "gives_up p" and ex: "spec_exec p s E = (res, s', E')"
  shows "\<exists>ps. set ps \<subseteq> set (waiting s) \<and> enqueued E' = enqueued E @ map lqe_req ps \<and>
    in_order want (W \<union> lqe_req ` set ps) s'"
proof -
  have same: ?thesis if "in_order want W s'" "E' = E" using that by (intro exI [of _ "[]"]) simp
  have woken: ?thesis if "in_order want W s1" "waiting s1 = waiting s" "wake s1 E = (s', E')" for s1
    using in_order_wake [OF that(1), of E] that(2,3) by simp
  have rel: ?thesis if "spec_release t lt s E = (b, s', E')" for t lt b
    using that same ord woken [OF in_order_unhold [OF ord]] by (auto simp: spec_release_def unhold_def split: if_splits)
  have clear: ?thesis if "spec_clear t s E = (lt, s', E')" for t lt
  proof (cases "\<exists>k. wake (unhold t k s) E = (s', E')")
    case True
    then show ?thesis using woken [OF in_order_unhold [OF ord]] by (auto simp: unhold_def)
  next
    case False
    then have "E' = E \<and> (s' = s \<or> s' = unhold t ReadIntent s)" using that by (auto simp: spec_clear_def split: if_splits)
    then show ?thesis using same ord in_order_unhold by blast
  qed
  show ?thesis
  proof (cases p)
    case Op_ReleaseReadFast
    have "in_order want W (s\<lparr>fast_readers := fast_readers s - 1\<rparr>)" by (rule in_order_mono [OF ord]) simp_all
    then show ?thesis using Op_ReleaseReadFast ex woken [of "s\<lparr>fast_readers := fast_readers s - 1\<rparr>"] by simp
  next
    case (Op_ReleaseReadIntent t)
    then have "s' = unhold t ReadIntent s" "E' = E" using ex by simp_all
    then show ?thesis using same in_order_unhold [OF ord] by simp
  next
    case (Op_Downgrade t)
    then show ?thesis using ex same ord woken [OF in_order_downgrade [OF ord, of t]] by (auto split: if_splits)
  next
    case (Op_ClearTx t)
    then show ?thesis using ex clear [of t] by (cases "spec_clear t s E") auto
  next
    case (Op_ReleaseRead t)
    then show ?thesis using ex rel [of t ReadLock] by (cases "spec_release t ReadLock s E") auto
  next
    case (Op_ReleaseWrite t)
    then show ?thesis using ex rel [of t WriteLock] by (cases "spec_release t WriteLock s E") auto
  next
    case (Op_ReleaseWriteIntent t)
    then show ?thesis using ex rel [of t WriteIntent] by (cases "spec_release t WriteIntent s E") auto
  qed (use op in simp_all)
qed

text \<open>A request of a transaction that neither waits nor was woken.\<close>

lemma in_order_enqueue:
  assumes ord: "in_order want W s" and t: "req_txn r \<notin> req_txn ` W" "req_txn r \<notin> lqe_txn ` set (waiting s)"
    and lt: "want (req_id r) = lt" "lt \<in> {ReadLock, WriteIntent, WriteLock}"
    and read: "\<And>k. lt = ReadLock \<Longrightarrow> (req_txn r, k) \<in> holders s \<Longrightarrow> k = ReadIntent \<or> k = ReadLock"
    and q: "set q = insert \<lparr>lqe_req = r, lk_type = lt\<rparr> (set (waiting s))" "distinct (map lqe_txn q)"
  shows "in_order want W (s\<lparr>waiting := q\<rparr>)"
  using ord t lt read q by (auto simp: in_order_def queued_ok_def)

lemma in_order_acquire:
  assumes ord: "in_order want W s" and t: "req_txn r \<notin> req_txn ` W" "req_txn r \<notin> lqe_txn ` set (waiting s)"
    and lt: "want (req_id r) = lt" and none: "(req_txn r, NoLock) \<notin> holders s"
    and acq: "spec_acquire r p lt s = (st, s')"
  shows "in_order want W s'"
proof (cases "covered (req_txn r) lt s \<or> s' = s")
  case True
  then show ?thesis using acq ord by (auto simp: spec_acquire_def)
next
  case False
  note cov = False
  let ?t = "req_txn r"
  show ?thesis
  proof (cases "s' = s\<lparr>waiting := waiting s @ [\<lparr>lqe_req = r, lk_type = lt\<rparr>]\<rparr>")
    case True
    have "lt \<in> {ReadLock, WriteIntent, WriteLock}"
    proof (cases lt)
      case ReadIntent
      then have "s' = s\<lparr>holders := insert (?t, ReadIntent) (holders s)\<rparr>" using cov acq by (simp add: spec_acquire_def)
      then have "waiting s' = waiting s" by simp
      then show ?thesis using True by simp
    qed (use cov in \<open>simp_all add: covered_def\<close>)
    moreover have "k = ReadIntent \<or> k = ReadLock" if "lt = ReadLock" "(?t, k) \<in> holders s" for k
      using cov that none by (cases k) (auto simp: covered_def)
    ultimately show ?thesis unfolding True
      by (rule in_order_enqueue [OF ord t lt]) (use ord t in \<open>auto simp: in_order_def\<close>)
  next
    case False
    have s': "lt = ReadIntent \<and> s' = s\<lparr>holders := insert (?t, ReadIntent) (holders s)\<rparr> \<or>
        lt \<noteq> ReadIntent \<and> lt \<noteq> NoLock \<and> s' = grant ?t lt s"
      using acq cov False by (auto simp: spec_acquire_def covered_def split: if_splits)
    have w: "waiting s' = waiting s" using s' by (auto simp: grant_waiting)
    have "in_order want (W \<union> {}) s'"
    proof (rule in_order_change [OF ord, of ?t _ lt])
      show "(u, k) \<in> holders s' \<longleftrightarrow> (u, k) \<in> holders s" if "u \<noteq> ?t" for u k
        using s' that by (cases lt) (auto simp: grant_def)
      show "k = lt" if k: "(?t, k) \<in> holders s'" for k
        using s' k cov none by (cases lt; cases k; auto simp: grant_def covered_def)
    qed (use w t ord in \<open>auto simp: in_order_def\<close>)
    then show ?thesis by simp
  qed
qed

section \<open>The locks of a shard\<close>

definition woken_reqs :: "(nat \<Rightarrow> nat) \<Rightarrow> ('o, 'c) shard \<Rightarrow> nat \<Rightarrow> cc_req set" where
  "woken_reqs site sh e = {r \<in> set (enqueued (sh_env sh)). site (req_id r) = e}"

definition orderly :: "(nat \<Rightarrow> nat) \<Rightarrow> (nat \<Rightarrow> LockType) \<Rightarrow> ('o, 'c) shard \<Rightarrow> bool" where
  "orderly site want sh \<longleftrightarrow>
     (\<forall>e a. lock_of sh e = Some a \<longrightarrow> in_order want (woken_reqs site sh e) (lock_abs (key_lock_of sh a)))"

lemma orderly_one_kind: "orderly site want sh \<Longrightarrow> lock_of sh e = Some a \<Longrightarrow> one_kind t (key_lock_of sh a)"
  by (auto simp: orderly_def in_order_def one_kind_def)

lemma orderly_woken:
  assumes "orderly site want sh" "lock_of sh e = Some a" "r \<in> set (enqueued (sh_env sh))" "site (req_id r) = e"
    and "(req_txn r, k) \<in> holders_of (key_lock_of sh a)"
  shows "granted (want (req_id r)) k"
  using assms by (simp add: orderly_def in_order_def woken_reqs_def)

text \<open>Operations that only drop lock structures from entries or requests from the shard's queue.\<close>

lemma orderly_frame:
  assumes ord: "orderly site want sh"
    and same: "\<And>e a. lock_of sh' e = Some a \<Longrightarrow> lock_of sh e = Some a \<and> lock_abs (key_lock_of sh' a) = lock_abs (key_lock_of sh a)"
    and env: "set (enqueued (sh_env sh')) \<subseteq> set (enqueued (sh_env sh))"
  shows "orderly site want sh'"
  unfolding orderly_def
proof (intro allI impI)
  fix e a assume "lock_of sh' e = Some a"
  then have a: "lock_of sh e = Some a" "lock_abs (key_lock_of sh' a) = lock_abs (key_lock_of sh a)" using same by blast+
  then have "in_order want (woken_reqs site sh e) (lock_abs (key_lock_of sh a))" using ord by (simp add: orderly_def)
  then show "in_order want (woken_reqs site sh' e) (lock_abs (key_lock_of sh' a))"
    by (rule in_order_mono) (use a env in \<open>auto simp: woken_reqs_def\<close>)
qed

text \<open>An operation on the lock of one entry.\<close>

lemma orderly_local:
  assumes ord: "orderly site want sh" and ok: "lock_table_ok sh" and e: "lock_of sh e = Some lk"
    and same: "lock_of sh' = lock_of sh" "\<And>a. a \<noteq> lk \<Longrightarrow> key_lock_of sh' a = key_lock_of sh a"
    and others: "\<And>e'. e' \<noteq> e \<Longrightarrow> woken_reqs site sh' e' = woken_reqs site sh e'"
    and new: "in_order want (woken_reqs site sh' e) (lock_abs (key_lock_of sh' lk))"
  shows "orderly site want sh'"
  unfolding orderly_def
proof (intro allI impI)
  fix e' a assume a: "lock_of sh' e' = Some a"
  show "in_order want (woken_reqs site sh' e') (lock_abs (key_lock_of sh' a))"
  proof (cases "e' = e")
    case True
    then show ?thesis using a new e same(1) by simp
  next
    case False
    then have "a \<noteq> lk" using a e same(1) lock_of_unique [OF ok, of e lk e'] by auto
    then show ?thesis using ord a False others same by (simp add: orderly_def)
  qed
qed

lemma orderly_release_on:
  assumes ord: "orderly site want sh" and inv: "reg_inv site X sh" and e: "lock_of sh e = Some lk"
    and rel: "rel (key_lock_of sh lk) (sh_env sh) = (r, l', E')"
    and op: "gives_up p" "spec_exec p (lock_abs (key_lock_of sh lk)) (sh_env sh) = (res, lock_abs l', E')"
  shows "orderly site want (snd (release_on rel lk sh))"
proof -
  define sh' where "sh' = snd (release_on rel lk sh)"
  have sh': "sh' = (with_lock lk (\<lambda>_. l') sh)\<lparr>sh_env := E'\<rparr>" using rel by (simp add: sh'_def release_on_def key_lock_of_def)
  have key: "key_lock_of sh' a = (if a = lk then l' else key_lock_of sh a)" for a
    using with_lock_frame(8) [of lk "\<lambda>_. l'" sh a] by (simp add: sh' key_lock_of_def)
  have "in_order want (woken_reqs site sh e) (lock_abs (key_lock_of sh lk))" using ord e by (simp add: orderly_def)
  from in_order_gives_up [OF this op] obtain ps where
    ps: "set ps \<subseteq> set (cq_list (blocking_queue (key_lock_of sh lk)))" "enqueued E' = enqueued (sh_env sh) @ map lqe_req ps"
      "in_order want (woken_reqs site sh e \<union> lqe_req ` set ps) (lock_abs l')" by auto
  have site: "site (req_id (lqe_req q)) = e" if "q \<in> set ps" for q
    using that ps(1) inv e by (auto simp: reg_inv_def entry_ok_def)
  have woken: "woken_reqs site sh' e' = (if e' = e then woken_reqs site sh e \<union> lqe_req ` set ps else woken_reqs site sh e')" for e'
    using site ps(2) by (auto simp: woken_reqs_def sh')
  have ok: "lock_table_ok sh" using inv by (simp add: reg_inv_def)
  have "orderly site want sh'"
    by (rule orderly_local [OF ord ok e]) (use ps(3) key woken in \<open>simp_all add: sh'\<close>)
  then show ?thesis by (simp add: sh'_def)
qed

lemma orderly_table:
  assumes "orderly site want sh" "lock_of sh' = lock_of sh" "key_lock_of sh' = key_lock_of sh" "sh_env sh' = sh_env sh"
  shows "orderly site want sh'"
  by (rule orderly_frame [OF assms(1)]) (simp_all add: assms)

lemma orderly_Upsert: "orderly site want sh \<Longrightarrow> orderly site want (UpsertLockHoldingTx t tm e w ng tt sh)"
  by (erule orderly_table) (simp_all add: key_lock_of_def fun_eq_iff)

lemma orderly_Delete: "orderly site want sh \<Longrightarrow> orderly site want (DeleteLockHoldingTx t e ng sh)"
  by (erule orderly_table) (simp_all add: key_lock_of_def fun_eq_iff)

lemma orderly_Recover: "orderly site want sh \<Longrightarrow> orderly site want (CheckRecoverTx f t ng tm sh)"
  by (erule orderly_table) (simp_all add: key_lock_of_def fun_eq_iff)

lemma orderly_RecoverConflict: "orderly site want sh \<Longrightarrow> orderly site want (RecoverTxForLockConfilct f l lt ng tm sh)"
proof -
  have fold: "orderly site want s \<Longrightarrow> orderly site want (fold (\<lambda>t. CheckRecoverTx f t ng tm) ts s)" for ts and s :: "('a, 'b) shard"
    by (induction ts arbitrary: s) (simp_all add: orderly_Recover)
  show "orderly site want sh \<Longrightarrow> orderly site want (RecoverTxForLockConfilct f l lt ng tm sh)"
    by (cases lt) (simp_all add: RecoverTxForLockConfilct_def orderly_Recover fold split: prod.split)
qed

lemma orderly_Recycle: "orderly site want sh \<Longrightarrow> orderly site want (snd (RecycleKeyLock e sh))"
  by (erule orderly_frame)
     (auto simp: RecycleKeyLock_def key_lock_of_def upd_lock_def DecreaseLockCount_def SetUsedStatus_def split: option.splits if_splits)

lemma lock_abs_SetWLockTs [simp]: "lock_abs (SetWLockTs ts l) = lock_abs l"
  by (simp add: lock_abs_def SetWLockTs_def holders_of_def split: WriteLockType.split)

lemma orderly_SetWLockTs: "orderly site want sh \<Longrightarrow> orderly site want (with_lock lk (SetWLockTs ts) sh)"
  by (erule orderly_frame) simp_all

lemma orderly_take_request: "orderly site want sh \<Longrightarrow> orderly site want (take_request r sh)"
  by (erule orderly_frame) (auto simp: take_request_def key_lock_of_def dest: set_mp [OF set_remove1_subset])

section \<open>The operations\<close>

lemma release_specs:
  assumes "lock_inv l"
  shows "ReleaseReadLock t l E = (b, l', E') \<Longrightarrow> spec_exec (Op_ReleaseRead t) (lock_abs l) E = (R_Bool b, lock_abs l', E')"
    and "ReleaseWriteLock t False l E = (b, l', E') \<Longrightarrow> spec_exec (Op_ReleaseWrite t) (lock_abs l) E = (R_Bool b, lock_abs l', E')"
    and "ReleaseWriteIntent t l E = (b, l', E') \<Longrightarrow> spec_exec (Op_ReleaseWriteIntent t) (lock_abs l) E = (R_Bool b, lock_abs l', E')"
    and "ReleaseReadIntent t l = (b, l') \<Longrightarrow> spec_exec (Op_ReleaseReadIntent t) (lock_abs l) E = (R_Bool b, lock_abs l', E)"
    and "DowngradeWriteLock t l E = (l', E') \<Longrightarrow> spec_exec (Op_Downgrade t) (lock_abs l) E = (R_Unit, lock_abs l', E')"
    and "lock_ClearTx t l E = (lt, l', E') \<Longrightarrow> spec_exec (Op_ClearTx t) (lock_abs l) E = (R_Type lt, lock_abs l', E')"
  using exec_refines_all [OF assms, of "Op_ReleaseRead t" E] exec_refines_all [OF assms, of "Op_ReleaseWrite t" E]
    exec_refines_all [OF assms, of "Op_ReleaseWriteIntent t" E] exec_refines_all [OF assms, of "Op_ReleaseReadIntent t" E]
    exec_refines_all [OF assms, of "Op_Downgrade t" E] exec_refines_all [OF assms, of "Op_ClearTx t" E]
  by (simp_all del: spec_exec.simps)

lemma orderly_ReleaseReadLock:
  assumes "orderly site want sh" "reg_inv site X sh" "lock_of sh e = Some lk"
  shows "orderly site want (snd (release_on (ReleaseReadLock t) lk sh))"
proof -
  obtain b l' E' where rel: "ReleaseReadLock t (key_lock_of sh lk) (sh_env sh) = (b, l', E')" by (metis prod_cases3)
  show ?thesis
    by (rule orderly_release_on [where rel = "ReleaseReadLock t", OF assms rel _ release_specs(1) [OF inv_lock [OF assms(2)] rel]]) simp
qed

lemma orderly_ReleaseWriteIntent:
  assumes "orderly site want sh" "reg_inv site X sh" "lock_of sh e = Some lk"
  shows "orderly site want (snd (release_on (ReleaseWriteIntent t) lk sh))"
proof -
  obtain b l' E' where rel: "ReleaseWriteIntent t (key_lock_of sh lk) (sh_env sh) = (b, l', E')" by (metis prod_cases3)
  show ?thesis
    by (rule orderly_release_on [where rel = "ReleaseWriteIntent t", OF assms rel _ release_specs(3) [OF inv_lock [OF assms(2)] rel]]) simp
qed

lemma orderly_lock_ClearTx:
  assumes "orderly site want sh" "reg_inv site X sh" "lock_of sh e = Some lk"
  shows "orderly site want (snd (release_on (lock_ClearTx t) lk sh))"
proof -
  obtain r l' E' where rel: "lock_ClearTx t (key_lock_of sh lk) (sh_env sh) = (r, l', E')" by (metis prod_cases3)
  show ?thesis
    by (rule orderly_release_on [where rel = "lock_ClearTx t", OF assms rel _ release_specs(6) [OF inv_lock [OF assms(2)] rel]]) simp
qed

lemma orderly_Downgrade:
  assumes ord: "orderly site want sh" and inv: "reg_inv site X sh"
  shows "orderly site want (DowngradeCceKeyWriteLock e t sh)"
proof (cases "lock_of sh e")
  case (Some lk)
  obtain l' E' where down: "DowngradeWriteLock t (key_lock_of sh lk) (sh_env sh) = (l', E')" by fastforce
  have "orderly site want (snd (release_on (\<lambda>l E. ((), DowngradeWriteLock t l E)) lk sh))"
    by (rule orderly_release_on [OF ord inv Some _ _ release_specs(5) [OF inv_lock [OF inv] down], of _ "()"]) (simp_all add: down)
  then show ?thesis by (simp add: DowngradeCceKeyWriteLock_def Some)
qed (use ord in \<open>simp add: DowngradeCceKeyWriteLock_def\<close>)

lemma orderly_Release:
  assumes ord: "orderly site want sh" and inv: "reg_inv site X sh"
  shows "orderly site want (ReleaseCceLock (lock_of sh e) e t ng lty recycle sh)"
proof (cases "lock_of sh e")
  case None
  then show ?thesis using ord by (simp add: ReleaseCceLock_def)
next
  case (Some lk)
  let ?l = "key_lock_of sh lk" and ?E = "sh_env sh"
  have l: "lock_inv ?l" using inv by (rule inv_lock)
  define un where "un = (case lty of
                ReadLock \<Rightarrow> release_on (\<lambda>l E. apfst (\<lambda>b. if b then ReadLock else NoLock) (ReleaseReadLock t l E)) lk sh
              | ReadIntent \<Rightarrow> release_on (\<lambda>l E. let (b, l') = ReleaseReadIntent t l in (if b then ReadIntent else NoLock, l', E)) lk sh
              | WriteLock \<Rightarrow> release_on (\<lambda>l E. apfst (\<lambda>b. if b then WriteLock else NoLock) (ReleaseWriteLock t False l E)) lk sh
              | _ \<Rightarrow> release_on (lock_ClearTx t) lk sh)"
  have un: "orderly site want (snd un)"
  proof (cases lty)
    case ReadLock
    obtain b l' E' where rel: "ReleaseReadLock t ?l ?E = (b, l', E')" by (metis prod_cases3)
    show ?thesis unfolding un_def ReadLock LockType.case
      by (rule orderly_release_on [OF ord inv Some _ _ release_specs(1) [OF l rel], of _ "if b then ReadLock else NoLock"])
         (simp_all add: rel)
  next
    case ReadIntent
    obtain b l' where rel: "ReleaseReadIntent t ?l = (b, l')" by fastforce
    show ?thesis unfolding un_def ReadIntent LockType.case
      by (rule orderly_release_on [OF ord inv Some _ _ release_specs(4) [OF l rel], of _ "if b then ReadIntent else NoLock"])
         (simp_all add: rel)
  next
    case WriteLock
    obtain b l' E' where rel: "ReleaseWriteLock t False ?l ?E = (b, l', E')" by (metis prod_cases3)
    show ?thesis unfolding un_def WriteLock LockType.case
      by (rule orderly_release_on [OF ord inv Some _ _ release_specs(2) [OF l rel], of _ "if b then WriteLock else NoLock"])
         (simp_all add: rel)
  qed (use orderly_lock_ClearTx [OF ord inv Some] in \<open>simp_all add: un_def\<close>)
  let ?sh2 = "if fst un = WriteLock then with_lock lk (SetWLockTs 0) (snd un) else snd un"
  have "ReleaseCceLock (lock_of sh e) e t ng lty recycle sh = (if fst un \<noteq> NoLock then
      (if recycle then snd (RecycleKeyLock e (DeleteLockHoldingTx t e ng ?sh2)) else DeleteLockHoldingTx t e ng ?sh2) else snd un)"
    unfolding ReleaseCceLock_def Some option.case un_def [symmetric] by (simp add: Let_def split_beta)
  then show ?thesis using un by (simp add: orderly_Delete orderly_Recycle orderly_SetWLockTs)
qed

lemma orderly_Resume:
  assumes ord: "orderly site want sh" and inv: "reg_inv site X sh" and e: "lock_of sh (aq_cce A) = Some lk"
  shows "orderly site want (snd (LockHandleForResumedRequest A cov sh))"
  using orderly_ReleaseReadLock [OF ord inv e] orderly_ReleaseWriteIntent [OF ord inv e] ord
  by (simp add: LockHandleForResumedRequest_def Let_def e orderly_Upsert orderly_Delete orderly_Recycle)

lemma lock_abs_empty:
  "holdset l = {} \<Longrightarrow> cq_list (blocking_queue l) = [] \<Longrightarrow> in_order want W (lock_abs l)"
  by (simp add: in_order_def holdset_def)

lemma orderly_GetOrCreate:
  assumes ord: "orderly site want sh" and inv: "reg_inv site X sh" and get: "GetOrCreateKeyLock e ccm page sh = (lk, sh')"
  shows "orderly site want sh'" "woken_reqs site sh' = woken_reqs site sh"
    "lock_of sh e = None \<Longrightarrow> cq_list (blocking_queue (key_lock_of sh' lk)) = [] \<and> holdset (key_lock_of sh' lk) = {}"
    "lock_of sh e = Some a \<Longrightarrow> lk = a \<and> sh' = sh"
proof -
  show "lock_of sh e = Some a \<Longrightarrow> lk = a \<and> sh' = sh" using get by (simp add: GetOrCreateKeyLock_def)
  have new_lock: "orderly site want sh' \<and> woken_reqs site sh' = woken_reqs site sh \<and>
      cq_list (blocking_queue (key_lock_of sh' lk)) = [] \<and> holdset (key_lock_of sh' lk) = {}" if none: "lock_of sh e = None"
  proof -
    obtain sh1 where new: "NewLock ccm page e sh = (lk, sh1)" and sh': "sh' = sh1\<lparr>lock_of := (lock_of sh1)(e := Some lk)\<rparr>"
      using get none by (auto simp: GetOrCreateKeyLock_def split: prod.splits)
    have ok: "array_ok sh" "owners_ok sh" "\<forall>a. lock_inv (key_lock_of sh a)" using inv by (simp_all add: reg_inv_def lock_table_ok_def)
    note N = NewLock_ok [OF ok(1) new]
    have key: "key_lock_of sh' = key_lock_of sh1" by (simp add: sh' key_lock_of_def fun_eq_iff)
    have woken: "woken_reqs site sh' = woken_reqs site sh" by (simp add: woken_reqs_def sh' N fun_eq_iff)
    have fresh: "holdset (key_lock_of sh' lk) = {}" "cq_list (blocking_queue (key_lock_of sh' lk)) = []"
      unfolding key using NewLock_locks(2,3) [OF ok(3) new] by simp_all
    have "in_order want (woken_reqs site sh' e') (lock_abs (key_lock_of sh' a))" if a: "lock_of sh' e' = Some a" for e' a
    proof (cases "e' = e")
      case True
      then show ?thesis using a lock_abs_empty [OF fresh] by (simp add: sh')
    next
      case False
      then have old: "lock_of sh e' = Some a" using a by (simp add: sh' N)
      then have "a \<in> used_locks sh" using owners_iff [OF ok(2)] by simp
      then have "key_lock_of sh' a = key_lock_of sh a" unfolding key using N(6) by (simp add: key_lock_of_def)
      then show ?thesis using ord old woken by (simp add: orderly_def)
    qed
    then show ?thesis using woken fresh by (simp add: orderly_def)
  qed
  show "orderly site want sh'" "woken_reqs site sh' = woken_reqs site sh"
    using new_lock ord get by (cases "lock_of sh e"; simp add: GetOrCreateKeyLock_def)+
  show "lock_of sh e = None \<Longrightarrow> cq_list (blocking_queue (key_lock_of sh' lk)) = [] \<and> holdset (key_lock_of sh' lk) = {}"
    using new_lock by simp
qed

text \<open>
  The rule for clients: no other request of the transaction waits at the entry or was woken there, and a
  snapshot reader does not hold the write lock of the entry.
\<close>

definition one_request :: "(nat \<Rightarrow> nat) \<Rightarrow> acquire_args \<Rightarrow> ('o, 'c) shard \<Rightarrow> bool" where
  "one_request site A sh \<longleftrightarrow>
     (\<forall>r \<in> set (enqueued (sh_env sh)). req_txn r = req_txn (aq_req A) \<longrightarrow> site (req_id r) \<noteq> aq_cce A) \<and>
     (case lock_of sh (aq_cce A) of
        None \<Rightarrow> True
      | Some lk \<Rightarrow>
          \<not> FindQueueRequest (req_txn (aq_req A)) (key_lock (locks sh lk)) \<and>
          (aq_iso A = Snapshot \<and> (aq_op A = CcOp_Read \<or> aq_op A = CcOp_ReadSkIndex) \<longrightarrow>
             \<not> HasWriteLock_of (key_lock (locks sh lk)) (req_txn (aq_req A))))"

text \<open>The kind of lock for which a request waits, if it has to.\<close>

definition waits_for :: "(nat \<Rightarrow> int) \<Rightarrow> acquire_args \<Rightarrow> ('o, 'c) shard \<Rightarrow> LockType" where
  "waits_for f A sh = (case snapshot_guard f A sh of None \<Rightarrow> aq_lock_type A | Some r \<Rightarrow> ReadLock)"

lemma one_request_D:
  assumes "one_request site A sh"
  shows "req_txn (aq_req A) \<notin> req_txn ` woken_reqs site sh (aq_cce A)"
    and "lock_of sh (aq_cce A) = Some lk \<Longrightarrow>
      req_txn (aq_req A) \<notin> lqe_txn ` set (cq_list (blocking_queue (key_lock_of sh lk)))"
  using assms FindQueueRequest_iff [of "req_txn (aq_req A)" "key_lock_of sh lk"]
  by (auto simp: one_request_def woken_reqs_def key_lock_of_def)

lemma orderly_with_lock:
  assumes "orderly site want sh" "reg_inv site X sh" "lock_of sh e = Some lk"
    and "in_order want (woken_reqs site sh e) (lock_abs (f (key_lock_of sh lk)))"
  shows "orderly site want (with_lock lk f sh)"
  by (rule orderly_local [OF assms(1) _ assms(3)]) (use assms(2,4) in \<open>simp_all add: reg_inv_def woken_reqs_def\<close>)

lemma orderly_Abort:
  assumes ord: "orderly site want sh" and inv: "reg_inv site X sh" and e: "lock_of sh e = Some lk"
  shows "orderly site want (snd (release_on (\<lambda>l E. ((), AbortQueueRequest t err l E)) lk sh))"
proof -
  let ?l = "key_lock_of sh lk"
  obtain l' E' where ab: "AbortQueueRequest t err ?l (sh_env sh) = (l', E')" by fastforce
  note L = AbortQueueRequest_laws [OF inv_lock [OF inv] ab]
  define sh' where "sh' = (with_lock lk (\<lambda>_. l') sh)\<lparr>sh_env := E'\<rparr>"
  have key: "key_lock_of sh' a = (if a = lk then l' else key_lock_of sh a)" for a
    using with_lock_frame(8) [of lk "\<lambda>_. l'" sh a] by (simp add: sh'_def key_lock_of_def)
  have woken: "woken_reqs site sh' = woken_reqs site sh" by (simp add: woken_reqs_def sh'_def L(3) fun_eq_iff)
  have "in_order want (woken_reqs site sh e) (lock_abs ?l)" using ord e by (simp add: orderly_def)
  then have "in_order want (woken_reqs site sh e) (lock_abs l')"
    unfolding L(2) by (auto simp: in_order_def queued_ok_def distinct_map_filter)
  moreover have "lock_of sh' = lock_of sh" by (simp add: sh'_def)
  ultimately have "orderly site want sh'"
    by (intro orderly_local [OF ord _ e]) (use inv in \<open>simp_all add: key woken reg_inv_def\<close>)
  then show ?thesis using ab by (simp add: release_on_def key_lock_of_def sh'_def)
qed

lemma orderly_ReadFast:
  assumes "orderly site want sh" "reg_inv site X sh" "lock_of sh e = Some lk"
  shows "orderly site want (with_lock lk (\<lambda>l. snd (AcquireReadLockFast t l)) sh)"
proof (rule orderly_with_lock [OF assms])
  have "in_order want (woken_reqs site sh e) (lock_abs (key_lock_of sh lk))" using assms(1,3) by (simp add: orderly_def)
  then show "in_order want (woken_reqs site sh e) (lock_abs (snd (AcquireReadLockFast t (key_lock_of sh lk))))"
    by (rule in_order_mono) simp_all
qed

lemma orderly_ReleaseFast:
  assumes "orderly site want sh" "reg_inv site X sh" "lock_of sh e = Some lk"
  shows "orderly site want (snd (release_on ReleaseReadLockFast lk sh))"
proof -
  let ?l = "key_lock_of sh lk"
  obtain b l' E' where rel: "ReleaseReadLockFast ?l (sh_env sh) = (b, l', E')" by (metis prod_cases3)
  have "spec_exec Op_ReleaseReadFast (lock_abs ?l) (sh_env sh) = (R_Bool b, lock_abs l', E')"
    using exec_refines_all [OF inv_lock [OF assms(2)], of Op_ReleaseReadFast lk "sh_env sh"] rel by (simp del: spec_exec.simps)
  then show ?thesis
    by (rule orderly_release_on [where rel = ReleaseReadLockFast, OF assms rel, rotated]) simp
qed

lemma orderly_snapshot_guard:
  assumes ord: "orderly site want sh" and inv: "reg_inv site X sh" and one: "one_request site A sh"
    and want: "want (req_id (aq_req A)) = waits_for f A sh" and g: "snapshot_guard f A sh = Some (r, sh')"
  shows "orderly site want sh'"
proof (cases "sh' = sh")
  case False
  obtain lk where lk: "lock_of sh (aq_cce A) = Some lk" "HasWriteLock (key_lock_of sh lk)"
      "aq_iso A = Snapshot" "aq_op A = CcOp_Read \<or> aq_op A = CcOp_ReadSkIndex" and
      sh': "sh' = CheckRecoverTx f (write_txn (key_lock (locks sh lk))) (aq_ng A) (aq_ng_term A)
                   (with_lock lk (InsertBlockingQueue (aq_req A) ReadLock) sh)"
    using g False by (auto simp: snapshot_guard_def Let_def key_lock_of_def split: if_splits option.splits)
  let ?l = "key_lock_of sh lk" and ?t = "req_txn (aq_req A)"
  have w: "write_txn ?l \<noteq> ?t" "write_lk_type ?l = WLT_WriteLock"
    using one lk by (auto simp: one_request_def HasWriteLock_of_def HasWriteLock_def key_lock_of_def)
  have none: "(?t, NoLock) \<notin> holders_of ?l" by simp
  have read: "k = ReadIntent \<or> k = ReadLock" if "(?t, k) \<in> holders_of ?l" for k
    using that w none by (cases k) auto
  have ins: "lock_abs (InsertBlockingQueue (aq_req A) ReadLock ?l) =
      (lock_abs ?l)\<lparr>waiting := \<lparr>lqe_req = aq_req A, lk_type = ReadLock\<rparr> # cq_list (blocking_queue ?l)\<rparr>"
    using exec_refines_all [OF inv_lock [OF inv], of "Op_Insert (aq_req A) ReadLock"] by simp
  have in_ord: "in_order want (woken_reqs site sh (aq_cce A)) (lock_abs ?l)" using ord lk(1) by (simp add: orderly_def)
  have "in_order want (woken_reqs site sh (aq_cce A)) (lock_abs (InsertBlockingQueue (aq_req A) ReadLock ?l))"
    unfolding ins
  proof (rule in_order_enqueue [OF in_ord one_request_D(1) [OF one]])
    show "?t \<notin> lqe_txn ` set (waiting (lock_abs ?l))" using one_request_D(2) [OF one lk(1)] by simp
    show "want (req_id (aq_req A)) = ReadLock" using want g by (simp add: waits_for_def)
  qed (use in_ord one_request_D(2) [OF one lk(1)] read in \<open>auto simp: in_order_def\<close>)
  then show ?thesis unfolding sh' by (intro orderly_Recover orderly_with_lock [OF ord inv lk(1)])
qed (use ord in simp)

lemma orderly_acquire_finish:
  assumes "orderly site want sh"
  shows "orderly site want (snd (acquire_finish f A lt lk st sh))"
  using assms by (cases st)
    (auto simp: acquire_finish_def Let_def orderly_Recover orderly_Upsert orderly_RecoverConflict split: option.split)

lemma orderly_Acquire:
  assumes ord: "orderly site want sh" and inv: "reg_inv site {} sh" and one: "one_request site A sh"
    and want: "want (req_id (aq_req A)) = waits_for f A sh"
  shows "orderly site want (snd (AcquireCceKeyLock f A sh))"
proof (cases "snapshot_guard f A sh")
  case (Some r)
  then show ?thesis using orderly_snapshot_guard [OF ord inv one want, of "fst r" "snd r"] by (simp add: AcquireCceKeyLock_def)
next
  case None
  let ?e = "aq_cce A" and ?lt = "aq_lock_type A" and ?t = "req_txn (aq_req A)"
  show ?thesis
  proof (cases "?lt \<noteq> NoLock \<and> (?lt = WriteLock \<or> ?lt = WriteIntent \<or> aq_status A \<noteq> Deleted)")
    case False
    then show ?thesis using None ord by (auto simp: AcquireCceKeyLock_def orderly_acquire_finish)
  next
    case True
    define ccm where "ccm = (case aq_ccm A of None \<Rightarrow> aq_this A | Some m \<Rightarrow> m)"
    obtain lk sh1 where get: "GetOrCreateKeyLock ?e (Some ccm) (aq_page A) sh = (lk, sh1)" by fastforce
    obtain st l' where acq: "AcquireLock (aq_req A) (aq_protocol A) ?lt (key_lock_of sh1 lk) = (st, l')" by fastforce
    note sh1 = inv_GetOrCreate [OF inv get] and G = orderly_GetOrCreate [OF ord inv get]
    have ord1: "in_order want (woken_reqs site sh1 ?e) (lock_abs (key_lock_of sh1 lk))"
      using G(1) sh1(2) by (simp add: orderly_def)
    have t: "?t \<notin> req_txn ` woken_reqs site sh1 ?e" using one_request_D(1) [OF one] by (simp add: G(2))
    have q: "?t \<notin> lqe_txn ` set (waiting (lock_abs (key_lock_of sh1 lk)))"
      using G(3,4) one_request_D(2) [OF one] by (cases "lock_of sh ?e") auto
    have none: "(?t, NoLock) \<notin> holders (lock_abs (key_lock_of sh1 lk))" by simp
    have "spec_acquire (aq_req A) (aq_protocol A) ?lt (lock_abs (key_lock_of sh1 lk)) = (st, lock_abs l')"
      using AcquireLock_abs [OF inv_lock [OF sh1(1)] acq] by simp
    moreover have "want (req_id (aq_req A)) = ?lt" using want None by (simp add: waits_for_def)
    ultimately have "in_order want (woken_reqs site sh1 ?e) (lock_abs l')"
      using in_order_acquire [OF ord1 t q _ none] by blast
    then have "orderly site want (with_lock lk (\<lambda>_. l') sh1)"
      by (intro orderly_with_lock [OF G(1) sh1]) simp
    then have "orderly site want (snd (acquire_finish f A ?lt (Some lk) st (with_lock lk (\<lambda>_. l') sh1)))"
      by (rule orderly_acquire_finish)
    then show ?thesis using None True get acq by (auto simp: AcquireCceKeyLock_def ccm_def key_lock_of_def)
  qed
qed

lemma orderly_clearable: "orderly site want sh \<Longrightarrow> clearable site t e sh"
  using orderly_one_kind by (auto simp: clearable_def)

lemma orderly_clear_entry:
  assumes ord: "orderly site want sh" and inv: "reg_inv site X sh"
  shows "orderly site want (clear_entry keep t tt e sh)"
proof (cases "lock_of sh e")
  case None
  then show ?thesis using ord by (simp add: clear_entry_none)
next
  case (Some lk)
  obtain sh2 where sh2: "clear_entry keep t tt e sh = (if keep \<and> tt = Catalog then sh2 else snd (RecycleKeyLock e sh2))"
    "key_lock_of sh2 = key_lock_of (snd (release_on (lock_ClearTx t) lk sh))" "lock_of sh2 = lock_of sh"
    "sh_env sh2 = sh_env (snd (release_on (lock_ClearTx t) lk sh))"
    using clear_entry_steps [OF Some] by blast
  have "orderly site want sh2"
    by (rule orderly_table [OF orderly_lock_ClearTx [OF ord inv Some]]) (simp_all add: sh2)
  then show ?thesis by (simp add: sh2(1) orderly_Recycle)
qed

lemma orderly_fold_clear_entry:
  assumes "orderly site want sh" "reg_inv site X sh"
  shows "orderly site want (fold (clear_entry keep t tt) es sh)"
  using assms
proof (induction es arbitrary: sh)
  case (Cons e es)
  have "reg_inv site X (clear_entry keep t tt e sh)"
    using inv_clear_entry [OF Cons.prems(2)] orderly_clearable [OF Cons.prems(1)] by blast
  then show ?case using Cons.IH orderly_clear_entry [OF Cons.prems] by simp
qed simp

lemma orderly_clear_ng:
  assumes "orderly site want sh" "reg_inv site X sh"
  shows "orderly site want (clear_ng keep t ng sh)"
proof (cases "map_of (ng_txs ng sh) t")
  case None
  then show ?thesis using assms(1) unfolding clear_ng_def None option.case by simp
next
  case (Some info)
  show ?thesis unfolding clear_ng_def Some option.case Let_def
    by (rule orderly_table [OF orderly_fold_clear_entry [OF assms]]) (simp_all add: key_lock_of_def fun_eq_iff)
qed

lemma orderly_shard_ClearTx:
  assumes "orderly site want sh" "reg_inv site {} sh"
  shows "orderly site want (shard_ClearTx keep t sh)"
proof -
  have "orderly site want (fold (clear_ng keep t) ngs s)" if "orderly site want s" "reg_inv site {} s"
    for ngs and s :: "('a, 'b) shard"
    using that
  proof (induction ngs arbitrary: s)
    case (Cons ng ngs)
    have "reg_inv site {} (clear_ng keep t ng s)"
      using inv_clear_ng [OF Cons.prems(2)] orderly_clearable [OF Cons.prems(1)] by blast
    then show ?case using Cons.IH orderly_clear_ng [OF Cons.prems] by simp
  qed simp
  then show ?thesis using assms by (simp add: shard_ClearTx_def)
qed

lemma orderly_ClearLocks:
  assumes ord: "orderly site want sh" and inv: "reg_inv site X sh"
  shows "orderly site want (ClearLocks e ng sh)"
proof (cases "lock_of sh e")
  case None
  then show ?thesis using ord by (simp add: ClearLocks_def)
next
  case (Some lk)
  obtain l' where C: "lock_of (ClearLocks e ng sh) = (lock_of sh)(e := None)"
    "key_lock_of (ClearLocks e ng sh) = (key_lock_of sh)(lk := l')"
    "enqueued (sh_env (ClearLocks e ng sh)) = enqueued (sh_env sh)"
    using ClearLocks_effect [OF Some inv_lock [OF inv], where ng = ng] by metis
  have "a \<noteq> lk" if "lock_of sh e' = Some a" "e' \<noteq> e" for e' a
    using that Some lock_of_unique [of sh e lk e'] inv by (auto simp: reg_inv_def)
  then show ?thesis by (intro orderly_frame [OF ord]) (auto simp: C split: if_splits)
qed

lemma orderly_Resize: "orderly site want sh \<Longrightarrow> orderly site want (TryResizeLockArray sh)"
  by (erule orderly_table) (simp_all add: TryResizeLockArray_def Let_def key_lock_of_def fun_eq_iff split: prod.split)

lemma orderly_time: "orderly site want sh \<Longrightarrow> orderly site want (UpdateTsBase ts sh)"
  by (erule orderly_table) (simp_all add: UpdateTsBase_def key_lock_of_def fun_eq_iff)

end
