(* ===== verification/Holder_System.thy ===== *)
theory Holder_System
  imports Lock_Discipline
begin

text \<open>
  The locking operations of a cc map, the shard's \<open>ClearTx\<close>, the forced clearing of an entry and the
  maintenance of the lock array as one transition system, with the invariants of \<open>Lock_Holders\<close> and
  \<open>Lock_Discipline\<close>.
\<close>

section \<open>The transition system\<close>

text \<open>
  One step of a shard in use. A request that locks an entry waits, if at all, at that entry and for the lock
  it asks for, and clients keep to \<open>one_request\<close>; \<open>site\<close> and \<open>want\<close> name the entry and the lock. A request is
  resumed when it is in the shard's queue; it deduces the lock it waited for, and its entry still has a lock
  structure, which the code asserts. Every other step may happen at any time and for any transaction.
\<close>

inductive holder_step :: "(nat \<Rightarrow> nat) \<Rightarrow> (nat \<Rightarrow> LockType) \<Rightarrow> ('o, 'c) shard \<Rightarrow> ('o, 'c) shard \<Rightarrow> bool"
  for site :: "nat \<Rightarrow> nat" and want :: "nat \<Rightarrow> LockType" where
  step_acquire: "one_request site A sh \<Longrightarrow> site (req_id (aq_req A)) = aq_cce A \<Longrightarrow>
    want (req_id (aq_req A)) = waits_for f A sh \<Longrightarrow>
    holder_step site want sh (snd (AcquireCceKeyLock f A sh))"
| step_resume: "aq_req A \<in> set (enqueued (sh_env sh)) \<Longrightarrow> site (req_id (aq_req A)) = aq_cce A \<Longrightarrow>
    want (req_id (aq_req A)) = DeduceLockType (aq_op A) (aq_iso A) (aq_protocol A) cov \<Longrightarrow>
    lock_of sh (aq_cce A) = Some lk \<Longrightarrow>
    holder_step site want sh (snd (LockHandleForResumedRequest A cov (take_request (aq_req A) sh)))"
| step_resume_snapshot: "r \<in> set (enqueued (sh_env sh)) \<Longrightarrow> want (req_id r) = ReadLock \<Longrightarrow>
    lock_of sh (site (req_id r)) = Some lk \<Longrightarrow>
    holder_step site want sh (snd (release_on (ReleaseReadLock (req_txn r)) lk (take_request r sh)))"
| step_downgrade: "holder_step site want sh (DowngradeCceKeyWriteLock e t sh)"
| step_release: "holder_step site want sh (ReleaseCceLock (lock_of sh e) e t ng lty recycle sh)"
| step_abort: "lock_of sh e = Some lk \<Longrightarrow>
    holder_step site want sh (snd (release_on (\<lambda>l E. ((), AbortQueueRequest t err l E)) lk sh))"
| step_read_fast: "lock_of sh e = Some lk \<Longrightarrow>
    holder_step site want sh (with_lock lk (\<lambda>l. snd (AcquireReadLockFast t l)) sh)"
| step_release_fast: "lock_of sh e = Some lk \<Longrightarrow> holder_step site want sh (snd (release_on ReleaseReadLockFast lk sh))"
| step_clear_tx: "holder_step site want sh (shard_ClearTx keep t sh)"
| step_clear_locks: "holder_step site want sh (ClearLocks e ng sh)"
| step_resize: "holder_step site want sh (TryResizeLockArray sh)"
| step_time: "holder_step site want sh (UpdateTsBase ts sh)"

definition holder_init :: "('o, 'c) shard \<Rightarrow> bool" where
  "holder_init sh \<longleftrightarrow> sh = shard_init"

lemma take_request_frame [simp]:
  "lock_of (take_request r sh) = lock_of sh" "key_lock_of (take_request r sh) = key_lock_of sh" "locks (take_request r sh) = locks sh"
  by (simp_all add: take_request_def key_lock_of_def fun_eq_iff)

text \<open>The invariant of the system: holders are registered, and clients keep the locks in order.\<close>

definition holder_inv :: "(nat \<Rightarrow> nat) \<Rightarrow> (nat \<Rightarrow> LockType) \<Rightarrow> ('o, 'c) shard \<Rightarrow> bool" where
  "holder_inv site want sh \<longleftrightarrow> reg_inv site {} sh \<and> orderly site want sh"

lemma reg_step_resume:
  assumes inv: "reg_inv site {} sh" and ord: "orderly site want sh"
    and r: "aq_req A \<in> set (enqueued (sh_env sh))" "site (req_id (aq_req A)) = aq_cce A"
    and want: "want (req_id (aq_req A)) = DeduceLockType (aq_op A) (aq_iso A) (aq_protocol A) cov"
    and lk: "lock_of sh (aq_cce A) = Some lk"
  shows "reg_inv site {} (snd (LockHandleForResumedRequest A cov (take_request (aq_req A) sh)))"
proof (rule inv_Resume [where lk = lk])
  show "reg_inv site {(req_txn (aq_req A), aq_cce A)} (take_request (aq_req A) sh)"
    using inv_take_request [OF inv, of "aq_req A"] r(2) by simp
  show "\<forall>k. (req_txn (aq_req A), k) \<in> holders_of (key_lock_of (take_request (aq_req A) sh) lk) \<longrightarrow>
      k = DeduceLockType (aq_op A) (aq_iso A) (aq_protocol A) cov \<or>
      DeduceLockType (aq_op A) (aq_iso A) (aq_protocol A) cov = WriteLock"
    using orderly_woken [OF ord lk r] want by (auto simp: granted_def)
qed (simp add: lk)

lemma reg_step_resume_snapshot:
  assumes inv: "reg_inv site {} sh" and ord: "orderly site want sh"
    and r: "r \<in> set (enqueued (sh_env sh))" "want (req_id r) = ReadLock" and lk: "lock_of sh (site (req_id r)) = Some lk"
  shows "reg_inv site {} (snd (release_on (ReleaseReadLock (req_txn r)) lk (take_request r sh)))"
proof (rule inv_Resume_snapshot [where e = "site (req_id r)"])
  show "reg_inv site {(req_txn r, site (req_id r))} (take_request r sh)" by (rule inv_take_request [OF inv])
  show "\<forall>k. (req_txn r, k) \<in> holders_of (key_lock_of (take_request r sh) lk) \<longrightarrow> k = ReadLock"
    using orderly_woken [OF ord lk r(1) refl] r(2) by (auto simp: granted_def)
qed (simp add: lk)

lemma reg_step_release:
  assumes "reg_inv site {} sh" "orderly site want sh"
  shows "reg_inv site {} (ReleaseCceLock (lock_of sh e) e t ng lty recycle sh)"
proof (cases "lock_of sh e")
  case (Some lk)
  then show ?thesis using inv_Release [OF assms(1) Some orderly_one_kind [OF assms(2) Some]] by simp
qed (use assms(1) in \<open>simp add: ReleaseCceLock_def\<close>)

lemma holder_step_inv:
  assumes "holder_step site want sh sh'" "holder_inv site want sh"
  shows "holder_inv site want sh'"
  using assms
proof (induction rule: holder_step.induct)
  case (step_acquire A sh f)
  then show ?case by (simp add: holder_inv_def inv_Acquire orderly_Acquire)
next
  case (step_resume A sh cov lk)
  have "orderly site want (snd (LockHandleForResumedRequest A cov (take_request (aq_req A) sh)))"
    by (rule orderly_Resume [OF orderly_take_request inv_take_request])
       (use step_resume in \<open>simp_all add: holder_inv_def\<close>)
  moreover have "reg_inv site {} (snd (LockHandleForResumedRequest A cov (take_request (aq_req A) sh)))"
    by (rule reg_step_resume [where want = want]) (use step_resume in \<open>auto simp: holder_inv_def\<close>)
  ultimately show ?case by (simp add: holder_inv_def)
next
  case (step_resume_snapshot r sh lk)
  have "orderly site want (snd (release_on (ReleaseReadLock (req_txn r)) lk (take_request r sh)))"
    by (rule orderly_ReleaseReadLock [OF orderly_take_request inv_take_request])
       (use step_resume_snapshot in \<open>simp_all add: holder_inv_def\<close>)
  moreover have "reg_inv site {} (snd (release_on (ReleaseReadLock (req_txn r)) lk (take_request r sh)))"
    by (rule reg_step_resume_snapshot [where want = want]) (use step_resume_snapshot in \<open>auto simp: holder_inv_def\<close>)
  ultimately show ?case by (simp add: holder_inv_def)
next
  case (step_release sh e t ng lty recycle)
  then show ?case by (auto simp: holder_inv_def intro: reg_step_release orderly_Release)
next
  case (step_clear_tx sh keep t)
  then have inv: "reg_inv site {} sh" "orderly site want sh" by (simp_all add: holder_inv_def)
  have "\<forall>e. clearable site t e sh" using orderly_clearable [OF inv(2)] by blast
  then show ?case
    unfolding holder_inv_def using inv_shard_ClearTx(1) [OF inv(1)] orderly_shard_ClearTx [OF inv(2,1)] by blast
next
  case (step_abort sh e lk t err)
  then show ?case by (auto simp: holder_inv_def intro: inv_Abort orderly_Abort)
next
  case (step_read_fast sh e lk t)
  then show ?case by (auto simp: holder_inv_def intro: inv_ReadFast orderly_ReadFast)
next
  case (step_release_fast sh e lk)
  then show ?case by (auto simp: holder_inv_def intro: inv_ReleaseFast orderly_ReleaseFast)
next
  case (step_downgrade sh e t)
  then show ?case by (auto simp: holder_inv_def inv_Downgrade intro: orderly_Downgrade)
next
  case (step_clear_locks sh e ng)
  then show ?case by (auto simp: holder_inv_def inv_ClearLocks intro: orderly_ClearLocks)
qed (simp_all add: holder_inv_def inv_Resize orderly_Resize inv_time orderly_time)

lemma holder_init_inv: "holder_inv site want (shard_init :: ('o, 'c) shard)"
proof -
  have "reg_inv site {} (shard_init :: ('o, 'c) shard)"
    using shard_init_ok kgl_new_lock by (simp add: reg_inv_def key_lock_of_def) (simp add: shard_init_def kgl_new_lock)
  then show ?thesis by (simp add: holder_inv_def orderly_def) (simp add: shard_init_def)
qed

interpretation holder_sys: transition_invariant holder_init "holder_step site want" "holder_inv site want" for site want
proof
  show "holder_init s \<Longrightarrow> holder_inv site want s" for s :: "('o, 'c) shard" by (simp add: holder_init_def holder_init_inv)
qed (rule holder_step_inv)

section \<open>Properties\<close>

lemma holdset_eq:
  "holdset l = read_intentions l \<union> read_locks l \<union> (if write_lk_type l = NoWritelock then {} else {write_txn l})"
  by (cases "write_lk_type l") (simp_all add: holdset_def holders_of_def image_Un image_image)

lemma SearchLock_holdset: "SearchLock t l \<noteq> NoLock \<longleftrightarrow> t \<in> holdset l"
  by (cases "write_lk_type l") (auto simp: SearchLock_def holdset_eq)

lemma SearchLock_held: "SearchLock t l \<noteq> NoLock \<Longrightarrow> (t, SearchLock t l) \<in> holders_of l"
  by (cases "write_lk_type l") (auto simp: SearchLock_def split: if_splits)

text \<open>
  C7: No lock is forgotten. Take any run of a shard that acquires, resumes, downgrades and releases locks of
  entries, takes and gives back fast reads, aborts queued requests, clears transactions and entries, advances
  the clock and compacts the lock array, in which clients
  keep to the rule \<open>one_request\<close>: a transaction sends no request that locks an entry while another request of it
  waits at that entry or was woken there and is to be resumed, and no snapshot read of an entry that it has
  write-locked. In every state of it a transaction with a lock of any kind on an entry is listed for that
  entry in the table of lock holders, or a request of it was woken at that entry and waits to be resumed; and
  it has one kind of lock on the entry.
\<close>
theorem lock_holders_registered:
  assumes "reachable holder_init (holder_step site want) sh" "lock_of sh e = Some a"
    and "SearchLock t (key_lock (locks sh a)) \<noteq> NoLock"
  shows "((\<exists>ng info. map_of (ng_txs ng sh) t = Some info \<and> e \<in> set (cce_list info)) \<or>
      (\<exists>r \<in> set (enqueued (sh_env sh)). req_txn r = t \<and> site (req_id r) = e)) \<and>
    (\<forall>k. (t, k) \<in> holders_of (key_lock (locks sh a)) \<longrightarrow> k = SearchLock t (key_lock (locks sh a)))"
proof -
  let ?l = "key_lock_of sh a"
  have inv: "reg_inv site {} sh" "orderly site want sh"
    using holder_sys.reach_invariant [OF assms(1)] by (simp_all add: holder_inv_def)
  then have "registered sh t e \<or> woken_at site sh t e"
    using assms(2,3) by (auto simp: reg_inv_def entry_ok_def SearchLock_holdset key_lock_of_def)
  moreover have "(t, SearchLock t ?l) \<in> holders_of ?l"
    using SearchLock_held [OF assms(3)] by (simp add: key_lock_of_def)
  then have "\<forall>k. (t, k) \<in> holders_of ?l \<longrightarrow> k = SearchLock t ?l"
    using orderly_one_kind [OF inv(2) assms(2), of t] unfolding one_kind_def by blast
  ultimately show ?thesis by (simp add: registered_def woken_at_def key_lock_of_def)
qed

text \<open>
  C8: Clearing a transaction releases all its locks on the shard. In every state of a run as above, in
  which clients keep to \<open>one_request\<close>, \<open>ClearTx\<close> leaves the transaction without a lock on every entry, except an
  entry at which a request of it was woken and waits to be resumed.
\<close>
theorem ClearTx_releases_all:
  assumes "reachable holder_init (holder_step site want) sh"
    and "sh' = shard_ClearTx keep t sh"
    and "\<forall>r \<in> set (enqueued (sh_env sh')). req_txn r = t \<longrightarrow> site (req_id r) \<noteq> e"
  shows "case lock_of sh' e of None \<Rightarrow> True | Some a \<Rightarrow> SearchLock t (key_lock (locks sh' a)) = NoLock"
proof -
  have inv: "reg_inv site {} sh" "orderly site want sh"
    using holder_sys.reach_invariant [OF assms(1)] by (simp_all add: holder_inv_def)
  have "\<forall>e. clearable site t e sh" using orderly_clearable [OF inv(2)] by blast
  from inv_shard_ClearTx(2) [OF inv(1) this, of e keep] have "settled site t e sh'" by (simp add: assms(2))
  moreover have "\<not> woken_at site sh' t e" using assms(3) by (auto simp: woken_at_def)
  ultimately show ?thesis
    using SearchLock_holdset by (auto simp: settled_def key_lock_of_def split: option.split)
qed

definition sample_write :: "acquire_args" where
  "sample_write = \<lparr>aq_cce = 4, aq_commit_ts = 1, aq_page = None, aq_this = 0, aq_ccm = None, aq_status = Normal,
     aq_req = \<lparr>req_id = 2, req_txn = 7\<rparr>, aq_ng = 0, aq_ng_term = 1, aq_tx_term = 1, aq_lock_type = WriteLock,
     aq_op = CcOp_Write, aq_iso = RepeatableRead, aq_protocol = OCC, aq_read_ts = 0, aq_table_type = Primary\<rparr>"

definition sample_locked :: "(nat, nat) shard" where
  "sample_locked = snd (AcquireCceKeyLock (\<lambda>_. 1) sample_write shard_init)"

lemma sample_reachable: "reachable holder_init (holder_step (\<lambda>_. 4) (\<lambda>_. WriteLock)) sample_locked"
proof (rule reach_step [OF reach_init])
  show "holder_step (\<lambda>_. 4) (\<lambda>_. WriteLock) shard_init sample_locked"
    unfolding sample_locked_def
    by (rule step_acquire)
       (simp_all add: sample_write_def one_request_def waits_for_def snapshot_guard_def shard_init_def)
qed (simp add: holder_init_def)

lemma sample_lock:
  "lock_of sample_locked = [4 \<mapsto> 0]" "key_lock (locks sample_locked 0) = UpgradeLock 7 WriteLock (lock_Reset lock_new)"
  "lock_holding_txs sample_locked = [(0, [(7, \<lparr>tx_coord_term = 1, tli_wlock_ts = 0, last_recover_ts = 0, cce_list = [4],
     tli_table_type = Primary\<rparr>)])]" "enqueued (sh_env sample_locked) = []"
proof -
  obtain k and sh0 :: "(nat, nat) shard" where n: "NewLock (Some 0) None 4 shard_init = (k, sh0)" by fastforce
  have new: "k = 0" "lock_of sh0 = (\<lambda>_. None)" "key_lock (locks sh0 0) = lock_Reset lock_new" "lock_holding_txs sh0 = []"
      "sh_now sh0 = 0" "enqueued (sh_env sh0) = []"
    using n LOCK_ARRAY_INIT_SIZE_pos
    by (auto simp: NewLock_def scan_lock.simps shard_init_def vec_lock_def kgl_new_def Let_def upd_lock_def
        SetUsedStatus_def kgl_Reset_def)
  have acq: "AcquireLock \<lparr>req_id = 2, req_txn = 7\<rparr> OCC WriteLock (lock_Reset lock_new) =
      (Successful, UpgradeLock 7 WriteLock (lock_Reset lock_new))"
    by (simp add: AcquireLock_def AcquireWriteLock_def lock_Reset_def NoWriteConflict_def NoReadLockConflict_def Let_def)
  define sh1 where "sh1 = sh0\<lparr>lock_of := [4 \<mapsto> 0]\<rparr>"
  have get: "GetOrCreateKeyLock 4 (Some 0) None (shard_init :: (nat, nat) shard) = (0, sh1)"
    using n new(1,2) by (simp add: GetOrCreateKeyLock_def sh1_def) (simp add: shard_init_def)
  have "key_lock (locks sh1 0) = lock_Reset lock_new" by (simp add: sh1_def new(3))
  then have "AcquireCceKeyLock (\<lambda>_. 1) sample_write shard_init = acquire_finish (\<lambda>_. 1) sample_write WriteLock (Some 0) Successful
      (with_lock 0 (\<lambda>_. UpgradeLock 7 WriteLock (lock_Reset lock_new)) sh1)"
    by (simp add: AcquireCceKeyLock_def snapshot_guard_def sample_write_def get acq)
  then have eq: "sample_locked = UpsertLockHoldingTx 7 1 4 True 0 Primary
      (with_lock 0 (\<lambda>_. UpgradeLock 7 WriteLock (lock_Reset lock_new)) sh1)"
    by (simp add: sample_locked_def acquire_finish_def Let_def with_lock_def upd_lock_def UpgradeLock_def
        HasWriteLock_def sample_write_def)
  show "lock_of sample_locked = [4 \<mapsto> 0]" "key_lock (locks sample_locked 0) = UpgradeLock 7 WriteLock (lock_Reset lock_new)"
    "lock_holding_txs sample_locked = [(0, [(7, \<lparr>tx_coord_term = 1, tli_wlock_ts = 0, last_recover_ts = 0, cce_list = [4],
     tli_table_type = Primary\<rparr>)])]" "enqueued (sh_env sample_locked) = []"
    unfolding eq
    by (simp_all add: UpsertLockHoldingTx_def with_lock_def upd_lock_def sh1_def new ng_txs_def TxLockInfo_new_def Let_def)
qed

lemma sample_holds: "SearchLock 7 (key_lock (locks sample_locked 0)) = WriteLock"
  by (simp add: sample_lock SearchLock_def UpgradeLock_def)

theorem lock_holders_registered_witness:
  "lock_of sample_locked 4 = Some 0 \<and> SearchLock 7 (key_lock (locks sample_locked 0)) = WriteLock \<and>
   (\<exists>ng info. map_of (ng_txs ng sample_locked) 7 = Some info \<and> 4 \<in> set (cce_list info))"
  using lock_holders_registered [OF sample_reachable, of 4 0 7] sample_holds sample_lock(1,4) by simp

lemma sample_cleared: "enqueued (sh_env (shard_ClearTx False 7 sample_locked)) = []"
proof -
  have "lock_ClearTx 7 (UpgradeLock 7 WriteLock (lock_Reset lock_new)) E =
      (WriteLock, (UpgradeLock 7 WriteLock (lock_Reset lock_new))\<lparr>write_lk_type := NoWritelock, write_txn := 0\<rparr>, E)" for E
    by (simp add: lock_ClearTx_def ReleaseReadLock_def ReleaseReadIntent_def UpgradeLock_def lock_Reset_def Let_def
        TryPopBlockingQueue.simps cq_Size_def cq_Reset_def)
  then have "enqueued (sh_env (clear_entry False 7 Primary 4 sample_locked)) = []"
    by (simp add: clear_entry_def sample_lock Let_def RecycleKeyLock_def upd_lock_def DecreaseLockCount_def)
  then show ?thesis
    by (simp add: shard_ClearTx_def clear_ng_def ng_txs_def sample_lock(3) Let_def)
qed

theorem ClearTx_releases_all_witness:
  "let sh = shard_ClearTx False 7 sample_locked
   in case lock_of sh 4 of None \<Rightarrow> True | Some a \<Rightarrow> SearchLock 7 (key_lock (locks sh a)) = NoLock"
proof -
  show ?thesis
    using ClearTx_releases_all [OF sample_reachable refl, where t = 7 and keep = False and e = 4] sample_cleared by (simp add: Let_def)
qed

end
