(* ===== verification/Tx_Serialize.thy ===== *)
theory Tx_Serialize
  imports Tx_Prelude
begin

text \<open>
  The serializers of \<open>include/tx_serialize.h\<close> and the records and keys composed from them
  (\<open>CompositeRecord\<close> of \<open>include/tx_record.h\<close>, \<open>CompositeKey\<close> of \<open>include/tx_key.h\<close>). A string is a list of
  bytes and an integer is written in the little-endian order of the machine. A \<open>std::vector\<close> has a size
  and a capacity. Writing or reading outside of a buffer is undefined in the source and is the error
  \<open>OutOfBounds\<close> here, an exception is the error \<open>TooLong\<close>.
\<close>

section \<open>Buffers\<close>

type_synonym byte = "8 word"

datatype ser_error = TooLong | OutOfBounds

definition bind_ser :: "ser_error + 'a \<Rightarrow> ('a \<Rightarrow> ser_error + 'b) \<Rightarrow> ser_error + 'b" where
  "bind_ser r f = (case r of Inl e \<Rightarrow> Inl e | Inr x \<Rightarrow> f x)"

lemma bind_ser_simps [simp]: "bind_ser (Inl e) f = Inl e" "bind_ser (Inr x) f = f x"
  by (simp_all add: bind_ser_def)

record vec =
  vec_data :: "byte list"
  vec_capacity :: nat

definition vec_resize :: "nat \<Rightarrow> vec \<Rightarrow> vec" where
  "vec_resize n v = v\<lparr>vec_data := take n (vec_data v) @ replicate (n - length (vec_data v)) 0,
                      vec_capacity := max (vec_capacity v) n\<rparr>"

definition vec_reserve :: "nat \<Rightarrow> vec \<Rightarrow> vec" where
  "vec_reserve n v = v\<lparr>vec_capacity := max (vec_capacity v) n\<rparr>"

text \<open>\<open>std::copy(bs.begin(), bs.end(), v.begin() + offset)\<close>.\<close>

definition copy_at :: "byte list \<Rightarrow> nat \<Rightarrow> vec \<Rightarrow> ser_error + vec" where
  "copy_at bs offset v =
     (if offset + length bs \<le> length (vec_data v)
      then Inr (v\<lparr>vec_data := take offset (vec_data v) @ bs @ drop (offset + length bs) (vec_data v)\<rparr>)
      else Inl OutOfBounds)"

definition read_at :: "nat \<Rightarrow> byte list \<Rightarrow> nat \<Rightarrow> ser_error + byte list \<times> nat" where
  "read_at n buf offset =
     (if offset + n \<le> length buf then Inr (take n (drop offset buf), offset + n) else Inl OutOfBounds)"

section \<open>Object representations\<close>

definition to_bytes :: "nat \<Rightarrow> 'a::len word \<Rightarrow> byte list" where
  "to_bytes n w = map (\<lambda>i. ucast (drop_bit (8 * i) w)) [0..<n]"

definition of_bytes :: "byte list \<Rightarrow> 'a::len word" where
  "of_bytes bs = foldr (\<lambda>b acc. or (ucast b) (push_bit 8 acc)) bs 0"

definition bool_byte :: "bool \<Rightarrow> byte" where
  "bool_byte b = (if b then 1 else 0)"

section \<open>Serializers\<close>

text \<open>The generic template copies the representation \<open>rep\<close> of the value.\<close>

definition Serialize_vec :: "byte list \<Rightarrow> vec \<Rightarrow> nat \<Rightarrow> ser_error + vec \<times> nat" where
  "Serialize_vec rep buf offset = bind_ser (copy_at rep offset buf) (\<lambda>buf'. Inr (buf', offset + length rep))"

definition Serialize_str :: "byte list \<Rightarrow> byte list \<Rightarrow> byte list" where
  "Serialize_str rep buf = buf @ rep"

definition MemSize_string :: "byte list \<Rightarrow> nat" where
  "MemSize_string s = length s + 2"

definition string_Serialize_vec :: "byte list \<Rightarrow> vec \<Rightarrow> nat \<Rightarrow> ser_error + vec \<times> nat" where
  "string_Serialize_vec s buf offset =
     (if length s > 65535 then Inl TooLong
      else let str_len = (of_nat (length s) :: 16 word)
           in bind_ser (Serialize_vec (to_bytes 2 str_len) buf offset)
                (\<lambda>(buf1, offset1). bind_ser (copy_at s offset1 buf1)
                   (\<lambda>buf2. Inr (buf2, offset1 + MemSize_string s))))"

definition string_Serialize :: "byte list \<Rightarrow> byte list \<Rightarrow> ser_error + byte list" where
  "string_Serialize s buf =
     (if length s > 65535 then Inl TooLong
      else let str_len = (of_nat (length s) :: 16 word)
           in Inr (Serialize_str (to_bytes 2 str_len) buf @ take (unat str_len) s))"

definition Deserialize_word :: "nat \<Rightarrow> byte list \<Rightarrow> nat \<Rightarrow> ser_error + 'a::len word \<times> nat" where
  "Deserialize_word n buf offset = bind_ser (read_at n buf offset) (\<lambda>(bs, offset'). Inr (of_bytes bs, offset'))"

definition string_Deserialize :: "byte list \<Rightarrow> nat \<Rightarrow> ser_error + byte list \<times> nat" where
  "string_Deserialize buf offset =
     bind_ser (Deserialize_word 2 buf offset)
       (\<lambda>(str_len :: 16 word, offset1). read_at (unat str_len) buf offset1)"

text \<open>\<open>SerializeToStr\<close> and \<open>DesrializeFrom\<close> for integers of \<open>n\<close> bytes and for booleans.\<close>

definition SerializeToStr :: "nat \<Rightarrow> 'a::len word \<Rightarrow> byte list \<Rightarrow> byte list" where
  "SerializeToStr n v str = str @ to_bytes n v"

definition DesrializeFrom :: "nat \<Rightarrow> byte list \<Rightarrow> nat \<Rightarrow> ser_error + 'a::len word \<times> nat" where
  "DesrializeFrom n buf offset = bind_ser (read_at n buf offset) (\<lambda>(bs, offset'). Inr (of_bytes bs, offset'))"

definition SerializeToStr_bool :: "bool \<Rightarrow> byte list \<Rightarrow> byte list" where
  "SerializeToStr_bool v str = str @ [bool_byte v]"

definition DesrializeFrom_bool :: "byte list \<Rightarrow> nat \<Rightarrow> ser_error + bool \<times> nat" where
  "DesrializeFrom_bool buf offset = bind_ser (read_at 1 buf offset) (\<lambda>(bs, offset'). Inr (hd bs \<noteq> 0, offset'))"

section \<open>Composite records and keys\<close>

text \<open>
  The fields of a tuple: a value that is copied as its representation, of the size of its type, or a
  string. The expansions over the parameter pack go through the fields from left to right.
\<close>

datatype tfield = Fixed "byte list" | Str "byte list"
datatype field_type = TFixed nat | TStr

primrec field_typed :: "tfield \<Rightarrow> field_type" where
  "field_typed (Fixed bs) = TFixed (length bs)"
| "field_typed (Str s) = TStr"

primrec field_MemSize :: "tfield \<Rightarrow> nat" where
  "field_MemSize (Fixed bs) = length bs"
| "field_MemSize (Str s) = MemSize_string s"

primrec field_Serialize :: "tfield \<Rightarrow> byte list \<Rightarrow> ser_error + byte list" where
  "field_Serialize (Fixed bs) buf = Inr (Serialize_str bs buf)"
| "field_Serialize (Str s) buf = string_Serialize s buf"

primrec field_Serialize_vec :: "tfield \<Rightarrow> vec \<Rightarrow> nat \<Rightarrow> ser_error + vec \<times> nat" where
  "field_Serialize_vec (Fixed bs) buf offset = Serialize_vec bs buf offset"
| "field_Serialize_vec (Str s) buf offset = string_Serialize_vec s buf offset"

primrec field_Deserialize :: "field_type \<Rightarrow> byte list \<Rightarrow> nat \<Rightarrow> ser_error + tfield \<times> nat" where
  "field_Deserialize (TFixed n) buf offset = bind_ser (read_at n buf offset) (\<lambda>(bs, o'). Inr (Fixed bs, o'))"
| "field_Deserialize TStr buf offset = bind_ser (string_Deserialize buf offset) (\<lambda>(s, o'). Inr (Str s, o'))"

fun serialize_all :: "('a \<Rightarrow> byte list \<Rightarrow> ser_error + byte list) \<Rightarrow> 'a list \<Rightarrow> byte list \<Rightarrow> ser_error + byte list" where
  "serialize_all app [] buf = Inr buf"
| "serialize_all app (x # xs) buf = bind_ser (app x buf) (serialize_all app xs)"

fun serialize_all_vec :: "tfield list \<Rightarrow> vec \<Rightarrow> nat \<Rightarrow> ser_error + vec \<times> nat" where
  "serialize_all_vec [] buf offset = Inr (buf, offset)"
| "serialize_all_vec (f # fs) buf offset =
     bind_ser (field_Serialize_vec f buf offset) (\<lambda>(buf', offset'). serialize_all_vec fs buf' offset')"

fun TupleDeserializeHelper :: "field_type list \<Rightarrow> byte list \<Rightarrow> nat \<Rightarrow> ser_error + tfield list \<times> nat" where
  "TupleDeserializeHelper [] buf offset = Inr ([], offset)"
| "TupleDeserializeHelper (t # ts) buf offset =
     bind_ser (field_Deserialize t buf offset)
       (\<lambda>(f, o1). bind_ser (TupleDeserializeHelper ts buf o1) (\<lambda>(fs, o2). Inr (f # fs, o2)))"

definition Composite_Serialize :: "tfield list \<Rightarrow> byte list \<Rightarrow> ser_error + byte list" where
  "Composite_Serialize flds buf = serialize_all field_Serialize flds buf"

text \<open>The subtraction of the offset from the capacity wraps around in the code when the offset is larger.\<close>

definition Composite_Serialize_vec :: "tfield list \<Rightarrow> vec \<Rightarrow> nat \<Rightarrow> ser_error + vec \<times> nat" where
  "Composite_Serialize_vec flds buf offset =
     (let mem_size = sum_list (map field_MemSize flds);
          buf1 = (if (of_nat (vec_capacity buf) - of_nat offset :: u64) < of_nat mem_size
                  then vec_resize (offset + mem_size) buf else buf)
      in serialize_all_vec flds buf1 offset)"

definition Composite_Deserialize :: "field_type list \<Rightarrow> byte list \<Rightarrow> nat \<Rightarrow> ser_error + tfield list \<times> nat" where
  "Composite_Deserialize types buf offset = TupleDeserializeHelper types buf offset"

section \<open>Round trips\<close>

text \<open>
  What a reader relies on: in a buffer into which the bytes of a value were written, reading at their
  beginning gives the value and moves the offset behind them, whatever surrounds them.
\<close>

locale codec =
  fixes bytes :: "'a \<Rightarrow> byte list"
    and app :: "'a \<Rightarrow> byte list \<Rightarrow> ser_error + byte list"
    and des :: "byte list \<Rightarrow> nat \<Rightarrow> ser_error + 'a \<times> nat"
    and ok :: "'a \<Rightarrow> bool"
  assumes writes: "ok x \<Longrightarrow> app x str = Inr (str @ bytes x)"
    and reads: "ok x \<Longrightarrow> des (pre @ bytes x @ post) (length pre) = Inr (x, length pre + length (bytes x))"
begin

lemma writes_all: "list_all ok xs \<Longrightarrow> serialize_all app xs str = Inr (str @ concat (map bytes xs))"
  by (induction xs arbitrary: str) (simp_all add: writes)

lemma round_trip:
  assumes "ok x"
  shows "bind_ser (app x str) (\<lambda>buf. des (buf @ post) (length str)) = Inr (x, length str + length (bytes x))"
  using assms by (simp add: writes reads)

end

fun deserialize_n :: "(byte list \<Rightarrow> nat \<Rightarrow> ser_error + 'a \<times> nat) \<Rightarrow> nat \<Rightarrow> byte list \<Rightarrow> nat \<Rightarrow> ser_error + 'a list \<times> nat" where
  "deserialize_n des 0 buf offset = Inr ([], offset)"
| "deserialize_n des (Suc n) buf offset =
     bind_ser (des buf offset) (\<lambda>(x, o1). bind_ser (deserialize_n des n buf o1) (\<lambda>(xs, o2). Inr (x # xs, o2)))"

context codec
begin

lemma reads_n:
  "list_all ok xs \<Longrightarrow> deserialize_n des (length xs) (pre @ concat (map bytes xs) @ post) (length pre) =
     Inr (xs, length pre + length (concat (map bytes xs)))"
proof (induction xs arbitrary: pre)
  case (Cons x xs)
  have "des (pre @ bytes x @ concat (map bytes xs) @ post) (length pre) = Inr (x, length (pre @ bytes x))"
    using Cons.prems reads [of x pre] by simp
  then show ?case using Cons.IH [of "pre @ bytes x"] Cons.prems by simp
qed simp

lemma list_codec:
  "codec (\<lambda>xs. concat (map bytes xs)) (serialize_all app) (deserialize_n des n) (\<lambda>xs. length xs = n \<and> list_all ok xs)"
proof (standard, goal_cases)
  case (1 xs str)
  then show ?case using writes_all by simp
next
  case (2 xs pre post)
  then show ?case using reads_n [of xs pre post] by auto
qed

end

lemma read_at_middle [simp]:
  "n = length bs \<Longrightarrow> read_at n (pre @ bs @ post) (length pre) = Inr (bs, length pre + length bs)"
  by (simp add: read_at_def)

lemma read_at_one [simp]: "read_at (Suc 0) (pre @ b # post) (length pre) = Inr ([b], Suc (length pre))"
  by (simp add: read_at_def)

lemma length_to_bytes [simp]: "length (to_bytes n w) = n"
  by (simp add: to_bytes_def)

lemma bit_of_bytes:
  "bit (of_bytes bs :: 'a::len word) k \<longleftrightarrow> k < LENGTH('a) \<and> k div 8 < length bs \<and> bit (bs ! (k div 8)) (k mod 8)"
proof (induction bs arbitrary: k)
  case (Cons b bs)
  have rec: "of_bytes (b # bs) = or (ucast b) (push_bit 8 (of_bytes bs :: 'a word))" by (simp add: of_bytes_def)
  show ?case
  proof (cases "k < 8")
    case True
    then show ?thesis unfolding rec by (auto simp: bit_or_iff bit_ucast_iff bit_push_bit_iff)
  next
    case False
    then have k: "k div 8 = Suc ((k - 8) div 8)" "k mod 8 = (k - 8) mod 8" "\<not> bit b k"
      using bit_imp_le_length [of b k] by (auto simp: le_div_geq le_mod_geq)
    show ?thesis
      unfolding rec using Cons [of "k - 8"] False k by (auto simp: bit_or_iff bit_ucast_iff bit_push_bit_iff)
  qed
qed (simp add: of_bytes_def)

lemma of_bytes_to_bytes: "LENGTH('a) = 8 * n \<Longrightarrow> of_bytes (to_bytes n w) = (w :: 'a::len word)"
proof (rule bit_word_eqI)
  fix k assume len: "LENGTH('a) = 8 * n" and k: "k < LENGTH('a)"
  then have "k div 8 < n" "8 * (k div 8) + k mod 8 = k" "k mod 8 < Suc (Suc (Suc (Suc (Suc (Suc (Suc (Suc 0)))))))" by auto
  then show "bit (of_bytes (to_bytes n w) :: 'a word) k = bit w k"
    using k by (simp add: bit_of_bytes to_bytes_def bit_ucast_iff bit_drop_bit_eq add.commute)
qed

interpretation u16_codec: codec "to_bytes 2" "\<lambda>w s. Inr (SerializeToStr 2 w s)" "DesrializeFrom 2" "\<lambda>_ :: 16 word. True"
  by standard (simp_all add: SerializeToStr_def DesrializeFrom_def of_bytes_to_bytes)

interpretation u32_codec: codec "to_bytes 4" "\<lambda>w s. Inr (SerializeToStr 4 w s)" "DesrializeFrom 4" "\<lambda>_ :: 32 word. True"
  by standard (simp_all add: SerializeToStr_def DesrializeFrom_def of_bytes_to_bytes)

interpretation u64_codec: codec "to_bytes 8" "\<lambda>w s. Inr (SerializeToStr 8 w s)" "DesrializeFrom 8" "\<lambda>_ :: 64 word. True"
  by standard (simp_all add: SerializeToStr_def DesrializeFrom_def of_bytes_to_bytes)

interpretation u8_codec: codec "\<lambda>w. [w]" "\<lambda>w s. Inr (SerializeToStr 1 w s)" "DesrializeFrom 1" "\<lambda>_ :: byte. True"
  by standard (simp_all add: SerializeToStr_def DesrializeFrom_def to_bytes_def of_bytes_def)

interpretation bool_codec: codec "\<lambda>b. [bool_byte b]" "\<lambda>b s. Inr (SerializeToStr_bool b s)" DesrializeFrom_bool "\<lambda>_. True"
  by standard (simp_all add: SerializeToStr_bool_def DesrializeFrom_bool_def bool_byte_def)

definition string_bytes :: "byte list \<Rightarrow> byte list" where
  "string_bytes s = to_bytes 2 (of_nat (length s) :: 16 word) @ s"

lemma unat_len16: "length s \<le> 65535 \<Longrightarrow> unat (of_nat (length s) :: 16 word) = length s"
  by (simp add: unat_of_nat)

lemma word_reads:
  "LENGTH('a) = 8 * n \<Longrightarrow>
   Deserialize_word n (pre @ to_bytes n w @ post) (length pre) = Inr (w :: 'a::len word, length pre + n)"
  by (simp add: Deserialize_word_def of_bytes_to_bytes)

interpretation string_codec: codec string_bytes string_Serialize string_Deserialize "\<lambda>s. length s \<le> 65535"
proof (standard, goal_cases)
  case (1 s str)
  then show ?case by (simp add: string_Serialize_def string_bytes_def Serialize_str_def unat_len16)
next
  case (2 s pre post)
  let ?len = "to_bytes 2 (of_nat (length s) :: 16 word)"
  have "Deserialize_word 2 (pre @ string_bytes s @ post) (length pre) = Inr (of_nat (length s) :: 16 word, length (pre @ ?len))"
    using word_reads [of 2 pre "of_nat (length s) :: 16 word" "s @ post"] by (simp add: string_bytes_def)
  then show ?case
    using 2 read_at_middle [of "length s" s "pre @ ?len" post]
    by (simp add: string_Deserialize_def unat_len16 string_bytes_def)
qed

primrec field_bytes :: "tfield \<Rightarrow> byte list" where
  "field_bytes (Fixed bs) = bs"
| "field_bytes (Str s) = string_bytes s"

primrec field_ok :: "tfield \<Rightarrow> bool" where
  "field_ok (Fixed bs) = True"
| "field_ok (Str s) = (length s \<le> 65535)"

lemma field_reads:
  "field_ok f \<Longrightarrow> field_Deserialize (field_typed f) (pre @ field_bytes f @ post) (length pre) =
     Inr (f, length pre + length (field_bytes f))"
  by (cases f) (simp_all add: string_codec.reads)

lemma field_writes: "field_ok f \<Longrightarrow> field_Serialize f str = Inr (str @ field_bytes f)"
  by (cases f) (simp_all add: Serialize_str_def string_codec.writes)

lemma tuple_reads:
  "list_all field_ok fs \<Longrightarrow>
   TupleDeserializeHelper (map field_typed fs) (pre @ concat (map field_bytes fs) @ post) (length pre) =
     Inr (fs, length pre + length (concat (map field_bytes fs)))"
proof (induction fs arbitrary: pre)
  case (Cons f fs)
  have "field_Deserialize (field_typed f) (pre @ field_bytes f @ concat (map field_bytes fs) @ post) (length pre) =
      Inr (f, length (pre @ field_bytes f))"
    using Cons.prems field_reads [of f pre] by simp
  then show ?case using Cons.IH [of "pre @ field_bytes f"] Cons.prems by simp
qed simp

lemma tuple_writes: "list_all field_ok fs \<Longrightarrow> serialize_all field_Serialize fs str = Inr (str @ concat (map field_bytes fs))"
  by (induction fs arbitrary: str) (simp_all add: field_writes)

interpretation composite_codec:
  codec "\<lambda>fs. concat (map field_bytes fs)" Composite_Serialize "Composite_Deserialize types"
    "\<lambda>fs. map field_typed fs = types \<and> list_all field_ok fs" for types
  by standard (use tuple_reads tuple_writes in \<open>auto simp: Composite_Serialize_def Composite_Deserialize_def\<close>)

end
