(* ===== verification/Meta_Records.thy ===== *)
theory Meta_Records
  imports Tx_Serialize Cc_Shard
begin

text \<open>
  The records and keys of the meta tables: \<open>NodeConfig\<close> (\<open>include/sharder.h\<close>), \<open>ClusterConfigRecord\<close>
  (\<open>include/cluster_config_record.h\<close>), \<open>CatalogKey\<close>, \<open>CatalogRecord\<close> and \<open>CatalogEntry\<close>
  (\<open>include/catalog_key_record.h\<close>, \<open>src/catalog_key_record.cpp\<close>), \<open>BucketInfo\<close>, \<open>RangeBucketKey\<close> and
  \<open>RangeBucketRecord\<close> (\<open>include/range_bucket_key_record.h\<close>, \<open>src/range_bucket_key_record.cpp\<close>).
  Objects that a record may own or only refer to live in a heap of their own, because the records keep
  both kinds of pointer in one union; accessing a freed or null cell is undefined (\<open>None\<close>).
\<close>

section \<open>Node configurations\<close>

record NodeConfig =
  node_id :: u32
  host_name :: "byte list"
  port :: "16 word"
  is_candidate :: bool

definition NodeConfig_Serialize :: "NodeConfig \<Rightarrow> byte list \<Rightarrow> ser_error + byte list" where
  "NodeConfig_Serialize nc buf =
     bind_ser (string_Serialize (host_name nc) (SerializeToStr 4 (node_id nc) buf))
       (\<lambda>buf1. Inr (SerializeToStr_bool (is_candidate nc) (SerializeToStr 2 (port nc) buf1)))"

definition NodeConfig_SerializedLength :: "NodeConfig \<Rightarrow> nat" where
  "NodeConfig_SerializedLength nc = 4 + 2 + length (host_name nc) + 2 + 1"

definition NodeConfig_Deserialize :: "byte list \<Rightarrow> nat \<Rightarrow> ser_error + NodeConfig \<times> nat" where
  "NodeConfig_Deserialize buf o0 =
     bind_ser (DesrializeFrom 4 buf o0) (\<lambda>(nid, o1).
     bind_ser (string_Deserialize buf o1) (\<lambda>(host, o2).
     bind_ser (DesrializeFrom 2 buf o2) (\<lambda>(prt, o3).
     bind_ser (DesrializeFrom_bool buf o3) (\<lambda>(cand, o4).
       Inr (\<lparr>node_id = nid, host_name = host, port = prt, is_candidate = cand\<rparr>, o4)))))"

section \<open>Cluster configuration records\<close>

type_synonym ng_configs = "(u32 \<times> NodeConfig list) list"

text \<open>The cells of the maps of node group configurations and the next free address.\<close>

record cfg_heap =
  cfg_cells :: "nat \<Rightarrow> ng_configs option"
  cfg_next :: nat

definition cfg_new :: "ng_configs \<Rightarrow> cfg_heap \<Rightarrow> nat \<times> cfg_heap" where
  "cfg_new m h = (cfg_next h, h\<lparr>cfg_cells := (cfg_cells h)(cfg_next h \<mapsto> m), cfg_next := cfg_next h + 1\<rparr>)"

definition cfg_free :: "nat \<Rightarrow> cfg_heap \<Rightarrow> cfg_heap" where
  "cfg_free a h = h\<lparr>cfg_cells := (cfg_cells h)(a := None)\<rparr>"

record ClusterConfigRecord =
  cfg_ptr :: "nat option"
  is_config_owner :: bool
  cfg_version :: u64

definition ClusterConfigRecord_new :: ClusterConfigRecord where
  "ClusterConfigRecord_new = \<lparr>cfg_ptr = None, is_config_owner = False, cfg_version = 0\<rparr>"

text \<open>\<open>if (is_config_owner_ && node_group_configs_uptr_) node_group_configs_uptr_.reset()\<close>\<close>

definition cfg_release :: "ClusterConfigRecord \<Rightarrow> cfg_heap \<Rightarrow> ClusterConfigRecord \<times> cfg_heap" where
  "cfg_release r h =
     (case cfg_ptr r of
        Some a \<Rightarrow> if is_config_owner r then (r\<lparr>cfg_ptr := None\<rparr>, cfg_free a h) else (r, h)
      | None \<Rightarrow> (r, h))"

definition ng_Serialize :: "u32 \<times> NodeConfig list \<Rightarrow> byte list \<Rightarrow> ser_error + byte list" where
  "ng_Serialize = (\<lambda>(ng_id, nodes) str.
     serialize_all NodeConfig_Serialize nodes
       (SerializeToStr 2 (of_nat (length nodes) :: 16 word) (SerializeToStr 4 ng_id str)))"

definition ClusterConfigRecord_Serialize ::
    "cfg_heap \<Rightarrow> ClusterConfigRecord \<Rightarrow> byte list \<Rightarrow> (ser_error + byte list) option" where
  "ClusterConfigRecord_Serialize h r str =
     (let str1 = SerializeToStr_bool (cfg_ptr r \<noteq> None) str in
      case cfg_ptr r of
        None \<Rightarrow> Some (Inr (SerializeToStr 8 (cfg_version r) str1))
      | Some a \<Rightarrow>
          (case cfg_cells h a of
             None \<Rightarrow> None
           | Some m \<Rightarrow>
               Some (bind_ser (serialize_all ng_Serialize m (SerializeToStr 2 (of_nat (length m) :: 16 word) str1))
                       (\<lambda>str2. Inr (SerializeToStr 8 (cfg_version r) str2)))))"

definition ClusterConfigRecord_SerializedLength :: "cfg_heap \<Rightarrow> ClusterConfigRecord \<Rightarrow> nat option" where
  "ClusterConfigRecord_SerializedLength h r =
     (case cfg_ptr r of
        None \<Rightarrow> Some (1 + 8)
      | Some a \<Rightarrow> map_option (\<lambda>m. 1 + 2 + sum_list (map (\<lambda>(ng, nodes). 4 + 2 + sum_list (map NodeConfig_SerializedLength nodes)) m) + 8)
                   (cfg_cells h a))"

definition ng_Deserialize :: "byte list \<Rightarrow> nat \<Rightarrow> ser_error + (u32 \<times> NodeConfig list) \<times> nat" where
  "ng_Deserialize buf o0 =
     bind_ser (DesrializeFrom 4 buf o0) (\<lambda>(ng_id, o1).
     bind_ser (DesrializeFrom 2 buf o1) (\<lambda>(node_count :: 16 word, o2).
     bind_ser (deserialize_n NodeConfig_Deserialize (unat node_count) buf o2) (\<lambda>(nodes, o3).
       Inr ((ng_id, nodes), o3))))"

text \<open>\<open>emplace\<close> keeps the value that a key already has.\<close>

definition emplace :: "'k \<times> 'v \<Rightarrow> ('k \<times> 'v) list \<Rightarrow> ('k \<times> 'v) list" where
  "emplace = (\<lambda>(k, v) m. if map_of m k = None then m @ [(k, v)] else m)"

definition ClusterConfigRecord_Deserialize ::
    "byte list \<Rightarrow> nat \<Rightarrow> cfg_heap \<Rightarrow> ClusterConfigRecord \<Rightarrow> ser_error + (ClusterConfigRecord \<times> cfg_heap) \<times> nat" where
  "ClusterConfigRecord_Deserialize buf o0 h r =
     bind_ser (DesrializeFrom_bool buf o0) (\<lambda>(has_ng_config, o1).
       let (r1, h1) = cfg_release (r\<lparr>is_config_owner := True\<rparr>) h in
       if has_ng_config
       then bind_ser (DesrializeFrom 2 buf o1) (\<lambda>(ng_count :: 16 word, o2).
            bind_ser (deserialize_n ng_Deserialize (unat ng_count) buf o2) (\<lambda>(ngs, o3).
            bind_ser (DesrializeFrom 8 buf o3) (\<lambda>(ver, o4).
              let (a, h2) = cfg_new (fold emplace ngs []) h1
              in Inr ((r1\<lparr>cfg_ptr := Some a, cfg_version := ver\<rparr>, h2), o4))))
       else bind_ser (DesrializeFrom 8 buf o1) (\<lambda>(ver, o2). Inr ((r1\<lparr>cfg_version := ver\<rparr>, h1), o2)))"

definition ClusterConfigRecord_Clone :: "cfg_heap \<Rightarrow> ClusterConfigRecord \<Rightarrow> (ClusterConfigRecord \<times> cfg_heap) option" where
  "ClusterConfigRecord_Clone h r =
     (let r1 = \<lparr>cfg_ptr = None, is_config_owner = True, cfg_version = cfg_version r\<rparr> in
      case cfg_ptr r of
        None \<Rightarrow> Some (r1, h)
      | Some a \<Rightarrow> (case cfg_cells h a of
                    None \<Rightarrow> None
                  | Some m \<Rightarrow> let (b, h1) = cfg_new m h in Some (r1\<lparr>cfg_ptr := Some b\<rparr>, h1)))"

text \<open>
  Assigning to the \<open>unique_ptr\<close> of the union frees what the pointer referred to, owned or not.
\<close>

definition cfg_assign :: "nat option \<Rightarrow> ClusterConfigRecord \<Rightarrow> cfg_heap \<Rightarrow> ClusterConfigRecord \<times> cfg_heap" where
  "cfg_assign p r h = (r\<lparr>cfg_ptr := p\<rparr>, case cfg_ptr r of None \<Rightarrow> h | Some a \<Rightarrow> cfg_free a h)"

text \<open>
  \<open>Copy\<close> and the assignment do the same, from a record other than \<open>this\<close>: an owned map is copied into
  a new one after the new one was installed.
\<close>

definition ClusterConfigRecord_Copy ::
    "ClusterConfigRecord \<Rightarrow> cfg_heap \<Rightarrow> ClusterConfigRecord \<Rightarrow> (ClusterConfigRecord \<times> cfg_heap) option" where
  "ClusterConfigRecord_Copy rhs h r =
     (let (r1, h1) = cfg_release r h;
          r2 = r1\<lparr>cfg_version := cfg_version rhs, is_config_owner := is_config_owner rhs\<rparr>
      in if is_config_owner rhs
         then let (b, h2) = cfg_new [] h1;
                  (r3, h3) = cfg_assign (Some b) r2 h2
              in (case cfg_ptr rhs of
                    None \<Rightarrow> None
                  | Some a \<Rightarrow> map_option (\<lambda>m. (r3, h3\<lparr>cfg_cells := (cfg_cells h3)(b \<mapsto> m)\<rparr>)) (cfg_cells h3 a))
         else Some (r2\<lparr>cfg_ptr := cfg_ptr rhs\<rparr>, h1))"

definition SetNodeGroupConfigs_uptr :: "nat option \<Rightarrow> cfg_heap \<Rightarrow> ClusterConfigRecord \<Rightarrow> ClusterConfigRecord \<times> cfg_heap" where
  "SetNodeGroupConfigs_uptr configs h r =
     (let (r1, h1) = cfg_assign configs r h in (r1\<lparr>is_config_owner := True\<rparr>, h1))"

definition SetNodeGroupConfigs_ptr :: "nat \<Rightarrow> cfg_heap \<Rightarrow> ClusterConfigRecord \<Rightarrow> ClusterConfigRecord \<times> cfg_heap" where
  "SetNodeGroupConfigs_ptr configs h r =
     (let (r1, h1) = cfg_release r h in (r1\<lparr>cfg_ptr := Some configs, is_config_owner := False\<rparr>, h1))"

definition ClusterConfigRecord_Reset :: "cfg_heap \<Rightarrow> ClusterConfigRecord \<Rightarrow> ClusterConfigRecord \<times> cfg_heap" where
  "ClusterConfigRecord_Reset h r =
     (let (r1, h1) = cfg_release r h in (r1\<lparr>is_config_owner := False, cfg_ptr := None, cfg_version := 0\<rparr>, h1))"

section \<open>Catalog keys\<close>

datatype TableEngine = EngineNone | EloqSql | EloqKv | EloqDoc

record TableName =
  tn_name :: "byte list"
  tn_type :: TableType
  tn_engine :: TableEngine

primrec type_code :: "TableType \<Rightarrow> byte" where
  "type_code Primary = 0"
| "type_code Secondary = 1"
| "type_code UniqueSecondary = 2"
| "type_code Catalog = 3"
| "type_code RangePartition = 4"
| "type_code RangeBucket = 5"
| "type_code ClusterConfig = 6"

primrec engine_code :: "TableEngine \<Rightarrow> byte" where
  "engine_code EngineNone = 0"
| "engine_code EloqSql = 1"
| "engine_code EloqKv = 2"
| "engine_code EloqDoc = 3"

definition CatalogKey_Serialize_vec :: "TableName \<Rightarrow> vec \<Rightarrow> nat \<Rightarrow> ser_error + vec \<times> nat" where
  "CatalogKey_Serialize_vec k buf o0 =
     (let len_val = (of_nat (length (tn_name k)) :: 16 word);
          buf0 = vec_resize (o0 + 2 + unat len_val) buf;
          o1 = o0 + 2; o2 = o1 + unat len_val
      in bind_ser (copy_at (to_bytes 2 len_val) o0 buf0) (\<lambda>buf1.
         bind_ser (copy_at (tn_name k) o1 buf1) (\<lambda>buf2.
         bind_ser (copy_at [engine_code (tn_engine k)] o2 buf2) (\<lambda>buf3.
         bind_ser (copy_at [type_code (tn_type k)] (o2 + 1) buf3) (\<lambda>buf4. Inr (buf4, o2 + 2))))))"

definition CatalogKey_Serialize :: "TableName \<Rightarrow> byte list \<Rightarrow> byte list" where
  "CatalogKey_Serialize k str =
     (let len_val = (of_nat (length (tn_name k)) :: 16 word)
      in str @ to_bytes 2 len_val @ take (unat len_val) (tn_name k) @ [engine_code (tn_engine k)] @ [type_code (tn_type k)])"

definition CatalogKey_SerializedLength :: "TableName \<Rightarrow> nat" where
  "CatalogKey_SerializedLength k = 2 + length (tn_name k) + 1"

definition engine_of :: "byte \<Rightarrow> TableEngine" where
  "engine_of b = (if b = 1 then EloqSql else if b = 2 then EloqKv else if b = 3 then EloqDoc else EngineNone)"

definition type_of :: "byte \<Rightarrow> TableType" where
  "type_of b = (if b = 1 then Secondary else if b = 2 then UniqueSecondary else if b = 3 then Catalog
                else if b = 4 then RangePartition else Primary)"

definition CatalogKey_Deserialize :: "byte list \<Rightarrow> nat \<Rightarrow> ser_error + TableName \<times> nat" where
  "CatalogKey_Deserialize buf o0 =
     bind_ser (Deserialize_word 2 buf o0) (\<lambda>(len_val :: 16 word, o1).
     bind_ser (read_at (unat len_val) buf o1) (\<lambda>(name, o2).
     bind_ser (Deserialize_word 1 buf o2) (\<lambda>(engine_val, o3).
     bind_ser (Deserialize_word 1 buf o3) (\<lambda>(type_val, o4).
       Inr (\<lparr>tn_name = name, tn_type = type_of type_val, tn_engine = engine_of engine_val\<rparr>, o4)))))"

section \<open>Catalog records\<close>

text \<open>Schema objects are known by their addresses.\<close>

record CatalogRecord =
  schema_ptr :: "nat option"
  dirty_schema_ptr :: "nat option"
  schema_ts :: u64
  schema_image :: "byte list"
  dirty_schema_image :: "byte list"

definition CatalogRecord_new :: CatalogRecord where
  "CatalogRecord_new = \<lparr>schema_ptr = None, dirty_schema_ptr = None, schema_ts = 0, schema_image = [], dirty_schema_image = []\<rparr>"

definition CatalogRecord_Serialize_vec :: "CatalogRecord \<Rightarrow> vec \<Rightarrow> nat \<Rightarrow> ser_error + vec \<times> nat" where
  "CatalogRecord_Serialize_vec r buf o0 =
     (let buf0 = vec_reserve (o0 + 2 * 4 + length (dirty_schema_image r) + length (schema_image r)) buf;
          len1 = (of_nat (length (dirty_schema_image r)) :: u32); len2 = (of_nat (length (schema_image r)) :: u32);
          o1 = o0 + 4; o2 = o1 + unat len1; o3 = o2 + 4
      in bind_ser (copy_at (to_bytes 4 len1) o0 buf0) (\<lambda>buf1.
         bind_ser (copy_at (dirty_schema_image r) o1 buf1) (\<lambda>buf2.
         bind_ser (copy_at (to_bytes 4 len2) o2 buf2) (\<lambda>buf3.
         bind_ser (copy_at (schema_image r) o3 buf3) (\<lambda>buf4. Inr (buf4, o3 + unat len2))))))"

definition image_Serialize :: "byte list \<Rightarrow> byte list \<Rightarrow> byte list" where
  "image_Serialize img str =
     (let len_val = (of_nat (length img) :: u32) in str @ to_bytes 4 len_val @ take (unat len_val) img)"

definition CatalogRecord_Serialize :: "CatalogRecord \<Rightarrow> byte list \<Rightarrow> byte list" where
  "CatalogRecord_Serialize r str = image_Serialize (schema_image r) (image_Serialize (dirty_schema_image r) str)"

definition CatalogRecord_SerializedLength :: "CatalogRecord \<Rightarrow> nat" where
  "CatalogRecord_SerializedLength r = 4 * 2 + length (dirty_schema_image r) + length (schema_image r)"

definition image_Deserialize :: "byte list \<Rightarrow> nat \<Rightarrow> ser_error + byte list \<times> nat" where
  "image_Deserialize buf offset =
     bind_ser (Deserialize_word 4 buf offset) (\<lambda>(len_val :: u32, o1). read_at (unat len_val) buf o1)"

definition CatalogRecord_Deserialize :: "CatalogRecord \<Rightarrow> byte list \<Rightarrow> nat \<Rightarrow> ser_error + CatalogRecord \<times> nat" where
  "CatalogRecord_Deserialize r buf o0 =
     bind_ser (image_Deserialize buf o0) (\<lambda>(dirty, o1).
     bind_ser (image_Deserialize buf o1) (\<lambda>(img, o2).
       Inr (r\<lparr>dirty_schema_image := dirty, schema_image := img\<rparr>, o2)))"

definition CatalogRecord_Clone :: "CatalogRecord \<Rightarrow> CatalogRecord" where
  "CatalogRecord_Clone r =
     CatalogRecord_new\<lparr>schema_ptr := schema_ptr r, dirty_schema_ptr := dirty_schema_ptr r, schema_ts := schema_ts r,
       schema_image := schema_image r, dirty_schema_image := dirty_schema_image r\<rparr>"

definition CatalogRecord_assign :: "CatalogRecord \<Rightarrow> CatalogRecord \<Rightarrow> CatalogRecord" where
  "CatalogRecord_assign rhs r =
     r\<lparr>schema_ptr := schema_ptr rhs, dirty_schema_ptr := dirty_schema_ptr rhs, schema_ts := schema_ts rhs\<rparr>"

definition CatalogRecord_Set :: "nat option \<Rightarrow> nat option \<Rightarrow> u64 \<Rightarrow> CatalogRecord \<Rightarrow> CatalogRecord" where
  "CatalogRecord_Set schema dirty ts r = r\<lparr>schema_ptr := schema, dirty_schema_ptr := dirty, schema_ts := ts\<rparr>"

definition CatalogRecord_ClearDirtySchema :: "CatalogRecord \<Rightarrow> CatalogRecord" where
  "CatalogRecord_ClearDirtySchema r = r\<lparr>dirty_schema_ptr := None\<rparr>"

definition CatalogRecord_Reset :: "CatalogRecord \<Rightarrow> CatalogRecord" where
  "CatalogRecord_Reset r = CatalogRecord_new"

section \<open>Catalog entries\<close>

record CatalogEntry =
  ce_schema :: "nat option"
  ce_dirty_schema :: "nat option"
  schema_version :: u64
  dirty_schema_version :: u64
  last_sync_ts :: "u64 list"

definition CatalogEntry_new :: CatalogEntry where
  "CatalogEntry_new = \<lparr>ce_schema = None, ce_dirty_schema = None, schema_version = 0, dirty_schema_version = 0, last_sync_ts = []\<rparr>"

definition InitSchema :: "nat option \<Rightarrow> u64 \<Rightarrow> CatalogEntry \<Rightarrow> CatalogEntry" where
  "InitSchema schema version_ts c =
     (let c1 = (if schema_version c < version_ts then c\<lparr>ce_schema := schema, schema_version := version_ts\<rparr> else c)
      in if dirty_schema_version c1 \<le> version_ts then c1\<lparr>ce_dirty_schema := None, dirty_schema_version := 0\<rparr> else c1)"

definition SetDirtySchema :: "nat option \<Rightarrow> u64 \<Rightarrow> CatalogEntry \<Rightarrow> CatalogEntry" where
  "SetDirtySchema dirty dirty_version_ts c =
     (if dirty_version_ts \<ge> dirty_schema_version c \<and> dirty_version_ts > schema_version c
      then c\<lparr>ce_dirty_schema := dirty, dirty_schema_version := dirty_version_ts\<rparr> else c)"

definition CommitDirtySchema :: "CatalogEntry \<Rightarrow> CatalogEntry" where
  "CommitDirtySchema c =
     (let c1 = (if dirty_schema_version c > schema_version c
                then c\<lparr>ce_schema := ce_dirty_schema c, ce_dirty_schema := None, schema_version := dirty_schema_version c\<rparr>
                else c\<lparr>ce_dirty_schema := None\<rparr>)
      in c1\<lparr>dirty_schema_version := 0\<rparr>)"

definition RejectDirtySchema :: "CatalogEntry \<Rightarrow> CatalogEntry" where
  "RejectDirtySchema c = c\<lparr>ce_dirty_schema := None, dirty_schema_version := 0\<rparr>"

definition GetMinLastSyncTs :: "CatalogEntry \<Rightarrow> u64" where
  "GetMinLastSyncTs c = (if last_sync_ts c = [] then 0 else fold (\<lambda>last ts. min ts last) (last_sync_ts c) (- 1))"

definition UpdateLastDataSyncTS :: "nat \<Rightarrow> u64 \<Rightarrow> nat \<Rightarrow> CatalogEntry \<Rightarrow> CatalogEntry" where
  "UpdateLastDataSyncTS core_cnt ts worker_idx c =
     (let c1 = (if last_sync_ts c = [] then c\<lparr>last_sync_ts := replicate core_cnt 0\<rparr> else c)
      in if ts > last_sync_ts c1 ! worker_idx then c1\<lparr>last_sync_ts := (last_sync_ts c1)[worker_idx := ts]\<rparr> else c1)"

section \<open>Buckets\<close>

record BucketInfo =
  bucket_owner :: u32
  bkt_version :: u64
  dirty_bucket_owner :: u32
  dirty_version :: u64
  accepts_upload_batch :: bool

definition BucketInfo_new :: "u32 \<Rightarrow> u64 \<Rightarrow> BucketInfo" where
  "BucketInfo_new owner ver = \<lparr>bucket_owner = owner, bkt_version = ver, dirty_bucket_owner = - 1, dirty_version = 0,
     accepts_upload_batch = False\<rparr>"

definition BucketInfo_Reset :: "BucketInfo \<Rightarrow> BucketInfo" where
  "BucketInfo_Reset b = b\<lparr>bucket_owner := - 1, bkt_version := 0, dirty_bucket_owner := - 1, dirty_version := 0\<rparr>"

definition BucketInfo_ClearDirty :: "BucketInfo \<Rightarrow> BucketInfo" where
  "BucketInfo_ClearDirty b = b\<lparr>dirty_bucket_owner := - 1, dirty_version := 0\<rparr>"

definition BucketInfo_Set :: "u32 \<Rightarrow> u64 \<Rightarrow> BucketInfo \<Rightarrow> BucketInfo" where
  "BucketInfo_Set owner_ng ver b =
     (if ver > bkt_version b then b\<lparr>bucket_owner := owner_ng, bkt_version := ver\<rparr> else b)"

definition BucketInfo_SetDirty :: "u32 \<Rightarrow> u64 \<Rightarrow> BucketInfo \<Rightarrow> BucketInfo" where
  "BucketInfo_SetDirty owner ver b =
     (if ver > bkt_version b \<and> ver > dirty_version b
      then b\<lparr>dirty_bucket_owner := owner, dirty_version := ver\<rparr> else b)"

definition BucketInfo_CommitDirty :: "BucketInfo \<Rightarrow> BucketInfo" where
  "BucketInfo_CommitDirty b =
     (let b1 = (if dirty_version b > bkt_version b
                then b\<lparr>bkt_version := dirty_version b, bucket_owner := dirty_bucket_owner b\<rparr> else b)
      in b1\<lparr>accepts_upload_batch := False, dirty_bucket_owner := - 1, dirty_version := 0\<rparr>)"

definition BucketInfo_Clone :: "BucketInfo \<Rightarrow> BucketInfo" where
  "BucketInfo_Clone b = BucketInfo_SetDirty (dirty_bucket_owner b) (dirty_version b) (BucketInfo_new (bucket_owner b) (bkt_version b))"

definition SetAcceptsUploadBatch :: "bool \<Rightarrow> BucketInfo \<Rightarrow> BucketInfo" where
  "SetAcceptsUploadBatch a b = b\<lparr>accepts_upload_batch := a\<rparr>"

definition RangeBucketKey_Serialize_vec :: "16 word \<Rightarrow> vec \<Rightarrow> nat \<Rightarrow> ser_error + vec \<times> nat" where
  "RangeBucketKey_Serialize_vec bucket_id buf offset =
     bind_ser (copy_at (to_bytes 2 bucket_id) offset buf) (\<lambda>buf1. Inr (buf1, offset + 2))"

definition RangeBucketKey_Serialize :: "16 word \<Rightarrow> byte list \<Rightarrow> byte list" where
  "RangeBucketKey_Serialize bucket_id str = str @ to_bytes 2 bucket_id"

definition RangeBucketKey_Deserialize :: "byte list \<Rightarrow> nat \<Rightarrow> ser_error + 16 word \<times> nat" where
  "RangeBucketKey_Deserialize buf offset = Deserialize_word 2 buf offset"

text \<open>The record of a bucket, through either of the two pointers of its union.\<close>

definition RangeBucketRecord_Serialize :: "BucketInfo \<Rightarrow> byte list \<Rightarrow> byte list" where
  "RangeBucketRecord_Serialize b str =
     SerializeToStr 8 (dirty_version b) (SerializeToStr 4 (dirty_bucket_owner b)
       (SerializeToStr 8 (bkt_version b) (SerializeToStr 4 (bucket_owner b) str)))"

definition RangeBucketRecord_SerializedLength :: nat where
  "RangeBucketRecord_SerializedLength = 4 * 2 + 8 * 2"

definition RangeBucketRecord_Deserialize :: "byte list \<Rightarrow> nat \<Rightarrow> ser_error + BucketInfo \<times> nat" where
  "RangeBucketRecord_Deserialize buf o0 =
     bind_ser (DesrializeFrom 4 buf o0) (\<lambda>(owner, o1).
     bind_ser (DesrializeFrom 8 buf o1) (\<lambda>(ver, o2).
     bind_ser (DesrializeFrom 4 buf o2) (\<lambda>(dirty_owner, o3).
     bind_ser (DesrializeFrom 8 buf o3) (\<lambda>(dirty_ver, o4).
       Inr (BucketInfo_SetDirty dirty_owner dirty_ver (BucketInfo_new owner ver), o4)))))"

end
