(* ===== verification/Meta_Roundtrip.thy ===== *)
theory Meta_Roundtrip
  imports Meta_Records
begin

text \<open>
  What is written for the meta tables is read back: the codecs of \<open>Meta_Records\<close> as instances of the
  locale \<open>codec\<close>, the versions of buckets and schemas, and where the code departs from it.
\<close>

section \<open>Node group configurations\<close>

definition NodeConfig_bytes :: "NodeConfig \<Rightarrow> byte list" where
  "NodeConfig_bytes nc = to_bytes 4 (node_id nc) @ string_bytes (host_name nc) @ to_bytes 2 (port nc) @ [bool_byte (is_candidate nc)]"

definition NodeConfig_ok :: "NodeConfig \<Rightarrow> bool" where
  "NodeConfig_ok nc \<longleftrightarrow> length (host_name nc) \<le> 65535"

lemma length_string_bytes [simp]: "length (string_bytes s) = 2 + length s"
  by (simp add: string_bytes_def)

interpretation node_codec: codec NodeConfig_bytes NodeConfig_Serialize NodeConfig_Deserialize NodeConfig_ok
proof (standard, goal_cases)
  case (1 nc str)
  then show ?case
    by (simp add: NodeConfig_Serialize_def NodeConfig_ok_def string_codec.writes SerializeToStr_def SerializeToStr_bool_def
        NodeConfig_bytes_def)
next
  case (2 nc pre post)
  let ?a = "to_bytes 4 (node_id nc)" and ?b = "string_bytes (host_name nc)" and ?c = "to_bytes 2 (port nc)"
    and ?d = "[bool_byte (is_candidate nc)]"
  note r = u32_codec.reads [of pre "node_id nc" "?b @ ?c @ ?d @ post"]
    string_codec.reads [of "host_name nc" "pre @ ?a" "?c @ ?d @ post"]
    u16_codec.reads [of "pre @ ?a @ ?b" "port nc" "?d @ post"]
    bool_codec.reads [of "pre @ ?a @ ?b @ ?c" "is_candidate nc" post]
  show ?case using r 2 by (simp add: NodeConfig_Deserialize_def NodeConfig_bytes_def NodeConfig_ok_def add_ac)
qed

definition ng_bytes :: "u32 \<times> NodeConfig list \<Rightarrow> byte list" where
  "ng_bytes = (\<lambda>(ng_id, nodes). to_bytes 4 ng_id @ to_bytes 2 (of_nat (length nodes) :: 16 word) @ concat (map NodeConfig_bytes nodes))"

definition ng_ok :: "u32 \<times> NodeConfig list \<Rightarrow> bool" where
  "ng_ok = (\<lambda>(ng_id, nodes). length nodes \<le> 65535 \<and> list_all NodeConfig_ok nodes)"

interpretation ng_codec: codec ng_bytes ng_Serialize ng_Deserialize ng_ok
proof (standard, goal_cases)
  case (1 x str)
  then show ?case
    by (cases x) (simp add: ng_Serialize_def ng_ok_def ng_bytes_def node_codec.writes_all SerializeToStr_def)
next
  case (2 x pre post)
  obtain ng nodes where x: "x = (ng, nodes)" by (cases x)
  let ?a = "to_bytes 4 ng" and ?b = "to_bytes 2 (of_nat (length nodes) :: 16 word)" and ?c = "concat (map NodeConfig_bytes nodes)"
  have len: "unat (of_nat (length nodes) :: 16 word) = length nodes"
    using 2 x unat_len16 [of nodes] by (simp add: ng_ok_def)
  note r = u32_codec.reads [of pre ng "?b @ ?c @ post"]
    u16_codec.reads [of "pre @ ?a" "of_nat (length nodes)" "?c @ post"]
    node_codec.reads_n [of nodes "pre @ ?a @ ?b" post]
  show ?case using r 2 len by (simp add: x ng_Deserialize_def ng_bytes_def ng_ok_def add_ac)
qed

section \<open>Cluster configuration records\<close>

lemma fold_emplace_distinct:
  assumes "distinct (map fst (m @ xs))"
  shows "fold emplace xs m = m @ xs"
  using assms
proof (induction xs arbitrary: m)
  case (Cons x xs)
  obtain k v where x: "x = (k, v)" by (cases x)
  have "map_of m k = None" using Cons.prems x by (simp add: map_of_eq_None_iff)
  then have "emplace x m = m @ [x]" by (simp add: emplace_def x)
  then show ?case using Cons.IH [of "m @ [x]"] Cons.prems by simp
qed simp

definition cfg_ok :: "ng_configs \<Rightarrow> bool" where
  "cfg_ok m \<longleftrightarrow> length m \<le> 65535 \<and> list_all ng_ok m \<and> distinct (map fst m)"

text \<open>The map a record shows, if its pointer is valid.\<close>

definition cfg_view :: "cfg_heap \<Rightarrow> ClusterConfigRecord \<Rightarrow> ng_configs option option" where
  "cfg_view h r = (case cfg_ptr r of None \<Rightarrow> Some None | Some a \<Rightarrow> map_option Some (cfg_cells h a))"

definition cfg_bytes :: "ng_configs option \<Rightarrow> u64 \<Rightarrow> byte list" where
  "cfg_bytes v ver = [bool_byte (v \<noteq> None)] @
     (case v of None \<Rightarrow> [] | Some m \<Rightarrow> to_bytes 2 (of_nat (length m) :: 16 word) @ concat (map ng_bytes m)) @ to_bytes 8 ver"

lemma cfg_writes:
  assumes "cfg_view h r = Some v" "\<And>m. v = Some m \<Longrightarrow> cfg_ok m"
  shows "ClusterConfigRecord_Serialize h r str = Some (Inr (str @ cfg_bytes v (cfg_version r)))"
proof (cases "cfg_ptr r")
  case None
  then show ?thesis using assms(1)
    by (auto simp: ClusterConfigRecord_Serialize_def cfg_view_def cfg_bytes_def SerializeToStr_bool_def SerializeToStr_def)
next
  case (Some a)
  then obtain m where m: "cfg_cells h a = Some m" "v = Some m" using assms(1) by (auto simp: cfg_view_def)
  then have "list_all ng_ok m" using assms(2) by (simp add: cfg_ok_def)
  then show ?thesis
    using Some m by (simp add: ClusterConfigRecord_Serialize_def cfg_bytes_def SerializeToStr_bool_def SerializeToStr_def
        ng_codec.writes_all)
qed

lemma cfg_reads:
  assumes "\<And>m. v = Some m \<Longrightarrow> cfg_ok m"
  shows "\<exists>r' h'. ClusterConfigRecord_Deserialize (pre @ cfg_bytes v ver @ post) (length pre) h r =
      Inr ((r', h'), length pre + length (cfg_bytes v ver)) \<and>
    cfg_view h' r' = Some v \<and> cfg_version r' = ver \<and> is_config_owner r' \<and>
    (\<forall>a. a < cfg_next h \<longrightarrow> cfg_cells h' a = (if cfg_ptr r = Some a then None else cfg_cells h a))"
proof -
  obtain r1 h1 where rel: "cfg_release (r\<lparr>is_config_owner := True\<rparr>) h = (r1, h1)" by fastforce
  have r1: "cfg_ptr r1 = None" "is_config_owner r1" "cfg_next h1 = cfg_next h" "\<And>a. cfg_cells h1 a = (if cfg_ptr r = Some a then None else cfg_cells h a)"
    using rel by (auto simp: cfg_release_def cfg_free_def split: option.splits)
  show ?thesis
  proof (cases v)
    case None
    note r = bool_codec.reads [of pre False "to_bytes 8 ver @ post"] u64_codec.reads [of "pre @ [bool_byte False]" ver post]
    show ?thesis
      using r r1 None by (simp add: ClusterConfigRecord_Deserialize_def cfg_bytes_def rel cfg_view_def)
  next
    case (Some m)
    let ?b = "to_bytes 2 (of_nat (length m) :: 16 word)" and ?c = "concat (map ng_bytes m)"
    have ok: "list_all ng_ok m" "distinct (map fst m)" "unat (of_nat (length m) :: 16 word) = length m"
      using assms(1) [OF Some] unat_len16 [of m] by (simp_all add: cfg_ok_def)
    note r = bool_codec.reads [of pre True "?b @ ?c @ to_bytes 8 ver @ post"]
      u16_codec.reads [of "pre @ [bool_byte True]" "of_nat (length m)" "?c @ to_bytes 8 ver @ post"]
      ng_codec.reads_n [of m "pre @ [bool_byte True] @ ?b" "to_bytes 8 ver @ post"]
      u64_codec.reads [of "pre @ [bool_byte True] @ ?b @ ?c" ver post]
    have fold: "fold emplace m [] = m" using fold_emplace_distinct [of "[]" m] ok(2) by simp
    have "ClusterConfigRecord_Deserialize (pre @ cfg_bytes v ver @ post) (length pre) h r =
      Inr ((r1\<lparr>cfg_ptr := Some (fst (cfg_new m h1)), cfg_version := ver\<rparr>, snd (cfg_new m h1)), length pre + length (cfg_bytes v ver))"
      using r ok(1,3) fold
      by (simp add: Some ClusterConfigRecord_Deserialize_def cfg_bytes_def rel split_beta Let_def add_ac)
    then show ?thesis using r1 Some by (simp add: cfg_new_def cfg_view_def)
  qed
qed

lemma cfg_SerializedLength:
  assumes "cfg_view h r = Some v"
  shows "ClusterConfigRecord_SerializedLength h r = Some (length (cfg_bytes v (cfg_version r)))"
proof -
  have node: "length (NodeConfig_bytes nc) = NodeConfig_SerializedLength nc" for nc
    by (simp add: NodeConfig_bytes_def NodeConfig_SerializedLength_def)
  have ng: "length (ng_bytes x) = (case x of (ng, nodes) \<Rightarrow> 4 + 2 + sum_list (map NodeConfig_SerializedLength nodes))" for x
    by (cases x) (simp add: ng_bytes_def length_concat comp_def node)
  show ?thesis
    using assms
    by (auto simp: cfg_bytes_def ClusterConfigRecord_SerializedLength_def cfg_view_def length_concat comp_def ng split: option.splits)
qed

text \<open>
  C32: A cluster configuration survives the wire: serializing a record whose counts and host names fit
  their 16-bit length fields and whose node groups are distinct, at the end of any string, and reading it
  into a record whose pointer is null or valid, gives the same configurations and version in a map that
  the target owns, and reads exactly what was written (which is \<open>SerializedLength\<close> bytes). Of the maps
  that existed before, the one the target pointed to is freed, whether the target owned it or only
  borrowed it from another record, and all others are left alone.
\<close>
theorem cluster_config_roundtrip:
  assumes "cfg_view h r = Some v" "case v of None \<Rightarrow> True | Some m \<Rightarrow> cfg_ok m"
    and "cfg_view ht rt \<noteq> None"
  shows "\<exists>buf r' h'. ClusterConfigRecord_Serialize h r str = Some (Inr buf) \<and>
    ClusterConfigRecord_SerializedLength h r = Some (length buf - length str) \<and>
    ClusterConfigRecord_Deserialize (buf @ post) (length str) ht rt = Inr ((r', h'), length buf) \<and>
    cfg_view h' r' = Some v \<and> cfg_version r' = cfg_version r \<and> is_config_owner r' \<and>
    (\<forall>a. a < cfg_next ht \<longrightarrow> cfg_cells h' a = (if cfg_ptr rt = Some a then None else cfg_cells ht a))"
proof -
  have ok: "\<And>m. v = Some m \<Longrightarrow> cfg_ok m" using assms(2) by simp
  show ?thesis
    using cfg_writes [OF assms(1) ok] cfg_SerializedLength [OF assms(1)]
      cfg_reads [where v = v and r = rt and pre = str and ver = "cfg_version r" and post = post and h = ht, OF ok]
    by auto
qed

definition sample_cfg :: ng_configs where
  "sample_cfg = [(3, [\<lparr>node_id = 7, host_name = [104, 49], port = 8000, is_candidate = True\<rparr>,
                      \<lparr>node_id = 8, host_name = [104, 50], port = 8001, is_candidate = False\<rparr>]), (4, [])]"

lemma sample_cfg_ok: "cfg_ok sample_cfg"
  by (simp add: cfg_ok_def ng_ok_def NodeConfig_ok_def sample_cfg_def)

theorem cluster_config_roundtrip_witness:
  "\<exists>buf r' h'. ClusterConfigRecord_Serialize \<lparr>cfg_cells = [5 \<mapsto> sample_cfg], cfg_next = 6\<rparr>
      \<lparr>cfg_ptr = Some 5, is_config_owner = False, cfg_version = 9\<rparr> [2, 3] = Some (Inr buf) \<and>
    ClusterConfigRecord_Deserialize (buf @ [6]) (length [2 :: byte, 3]) \<lparr>cfg_cells = Map.empty, cfg_next = 0\<rparr>
      ClusterConfigRecord_new = Inr ((r', h'), length buf) \<and>
    cfg_view h' r' = Some (Some sample_cfg) \<and> cfg_version r' = 9"
  using cluster_config_roundtrip [where h = "\<lparr>cfg_cells = [5 \<mapsto> sample_cfg], cfg_next = 6\<rparr>" and
      r = "\<lparr>cfg_ptr = Some 5, is_config_owner = False, cfg_version = 9\<rparr>" and v = "Some sample_cfg" and
      rt = ClusterConfigRecord_new and str = "[2, 3]" and post = "[6]" and
      ht = "\<lparr>cfg_cells = Map.empty, cfg_next = 0\<rparr>"]
  by (auto simp: cfg_view_def [of "\<lparr>cfg_cells = [5 \<mapsto> sample_cfg], cfg_next = 6\<rparr>"]
      cfg_view_def [of "\<lparr>cfg_cells = Map.empty, cfg_next = 0\<rparr>"] sample_cfg_ok ClusterConfigRecord_new_def)

section \<open>Catalog keys and records\<close>

lemma engine_of_code [simp]: "engine_of (engine_code e) = e"
  by (cases e) (simp_all add: engine_of_def)

text \<open>The reader knows the first five types only.\<close>

definition readable_type :: "TableType \<Rightarrow> bool" where
  "readable_type t \<longleftrightarrow> t \<notin> {RangeBucket, ClusterConfig}"

lemma type_of_code: "type_of (type_code t) = (if readable_type t then t else Primary)"
  by (cases t) (simp_all add: type_of_def readable_type_def)

lemma Deserialize_word_eq: "Deserialize_word n buf offset = DesrializeFrom n buf offset"
  by (simp add: Deserialize_word_def DesrializeFrom_def)

definition CatalogKey_bytes :: "TableName \<Rightarrow> byte list" where
  "CatalogKey_bytes k = string_bytes (tn_name k) @ [engine_code (tn_engine k)] @ [type_code (tn_type k)]"

definition CatalogKey_ok :: "TableName \<Rightarrow> bool" where
  "CatalogKey_ok k \<longleftrightarrow> length (tn_name k) \<le> 65535 \<and> readable_type (tn_type k)"

interpretation catalog_key_codec: codec CatalogKey_bytes "\<lambda>k str. Inr (CatalogKey_Serialize k str)" CatalogKey_Deserialize CatalogKey_ok
proof (standard, goal_cases)
  case (1 k str)
  then show ?case
    using unat_len16 [of "tn_name k"] by (simp add: CatalogKey_Serialize_def CatalogKey_bytes_def CatalogKey_ok_def string_bytes_def Let_def)
next
  case (2 k pre post)
  let ?l = "of_nat (length (tn_name k)) :: 16 word" and ?e = "engine_code (tn_engine k)" and ?t = "type_code (tn_type k)"
  have len: "unat ?l = length (tn_name k)" using 2 unat_len16 [of "tn_name k"] by (simp add: CatalogKey_ok_def)
  note r = u16_codec.reads [of pre ?l "tn_name k @ [?e, ?t] @ post"]
    read_at_middle [of "length (tn_name k)" "tn_name k" "pre @ to_bytes 2 ?l" "[?e, ?t] @ post"]
    u8_codec.reads [of "pre @ to_bytes 2 ?l @ tn_name k" ?e "[?t] @ post"]
    u8_codec.reads [of "pre @ to_bytes 2 ?l @ tn_name k @ [?e]" ?t post]
  show ?case using r 2 len
    by (simp add: CatalogKey_Deserialize_def CatalogKey_bytes_def CatalogKey_ok_def string_bytes_def type_of_code
        Deserialize_word_eq add_ac)
qed

definition image_bytes :: "byte list \<Rightarrow> byte list" where
  "image_bytes img = to_bytes 4 (of_nat (length img) :: u32) @ img"

definition image_ok :: "byte list \<Rightarrow> bool" where
  "image_ok img \<longleftrightarrow> length img < 2 ^ 32"

lemma unat_len32: "length xs < 2 ^ 32 \<Longrightarrow> unat (of_nat (length xs) :: u32) = length xs"
  by (simp add: unat_of_nat)

interpretation image_codec: codec image_bytes "\<lambda>img str. Inr (image_Serialize img str)" image_Deserialize image_ok
proof (standard, goal_cases)
  case (1 img str)
  then show ?case using unat_len32 [of img] by (simp add: image_Serialize_def image_bytes_def image_ok_def Let_def)
next
  case (2 img pre post)
  let ?l = "of_nat (length img) :: u32"
  have len: "unat ?l = length img" using 2 unat_len32 [of img] by (simp add: image_ok_def)
  note r = u32_codec.reads [of pre ?l "img @ post"] read_at_middle [of "length img" img "pre @ to_bytes 4 ?l" post]
  show ?case using r len by (simp add: image_Deserialize_def image_bytes_def Deserialize_word_eq add_ac)
qed

lemma CatalogRecord_reads:
  assumes "image_ok (schema_image r)" "image_ok (dirty_schema_image r)"
  shows "CatalogRecord_Deserialize rt (CatalogRecord_Serialize r str @ post) (length str) =
    Inr (rt\<lparr>dirty_schema_image := dirty_schema_image r, schema_image := schema_image r\<rparr>, length (CatalogRecord_Serialize r str))"
proof -
  let ?a = "image_bytes (dirty_schema_image r)" and ?b = "image_bytes (schema_image r)"
  have ser: "CatalogRecord_Serialize r str = str @ ?a @ ?b"
    using image_codec.writes [OF assms(1)] image_codec.writes [OF assms(2)] by (simp add: CatalogRecord_Serialize_def)
  show ?thesis
    using image_codec.reads [OF assms(2), of str "?b @ post"] image_codec.reads [OF assms(1), of "str @ ?a" post]
    by (simp add: ser CatalogRecord_Deserialize_def)
qed

lemma copy_overruns: "length (vec_data v) < offset + length bs \<Longrightarrow> bind_ser (copy_at bs offset v) f = Inl OutOfBounds"
  by (simp add: copy_at_def)

lemma copy_then_overruns:
  assumes "\<And>v'. length (vec_data v') = length (vec_data v) \<Longrightarrow> f v' = Inl OutOfBounds"
  shows "bind_ser (copy_at bs offset v) f = Inl OutOfBounds"
  using assms by (simp add: copy_at_def)

text \<open>
  C36: The vector forms of the catalog keys and records write past the vector. A key always does, because
  the vector is resized for the length and the name but the engine and type bytes follow; a record does
  whenever the vector ends where the record is to be appended, because \<open>reserve\<close> does not change its size.
\<close>
theorem catalog_vec_overruns:
  "CatalogKey_Serialize_vec k buf offset = Inl OutOfBounds \<and>
   (length (vec_data buf) \<le> offset \<longrightarrow> CatalogRecord_Serialize_vec r buf offset = Inl OutOfBounds)"
proof (intro conjI impI)
  have fits: "length (vec_data (vec_resize n buf)) = n" for n by (simp add: vec_resize_def)
  show "CatalogKey_Serialize_vec k buf offset = Inl OutOfBounds"
    unfolding CatalogKey_Serialize_vec_def Let_def
    by (intro copy_then_overruns copy_overruns) (simp_all add: fits)
  assume "length (vec_data buf) \<le> offset"
  then show "CatalogRecord_Serialize_vec r buf offset = Inl OutOfBounds"
    unfolding CatalogRecord_Serialize_vec_def Let_def
    by (intro copy_overruns) (simp add: vec_reserve_def)
qed

theorem catalog_vec_overruns_witness:
  "CatalogRecord_Serialize_vec (CatalogRecord_new\<lparr>schema_image := [7]\<rparr>) \<lparr>vec_data = [], vec_capacity = 64\<rparr> 0 = Inl OutOfBounds"
  using catalog_vec_overruns [of "\<lparr>tn_name = [], tn_type = Primary, tn_engine = EloqSql\<rparr>" "\<lparr>vec_data = [], vec_capacity = 64\<rparr>" 0
      "CatalogRecord_new\<lparr>schema_image := [7]\<rparr>"]
  by simp

section \<open>Versions of schemas\<close>

text \<open>
  The operations on a catalog entry, in any order. The schema is null where the catalog image is empty
  (a dropped or not yet created table).
\<close>

datatype catalog_op = OpInit "nat option" u64 | OpSetDirty "nat option" u64 | OpCommit | OpReject

primrec catalog_step :: "catalog_op \<Rightarrow> CatalogEntry \<Rightarrow> CatalogEntry" where
  "catalog_step (OpInit s ts) c = InitSchema s ts c"
| "catalog_step (OpSetDirty d ts) c = SetDirtySchema d ts c"
| "catalog_step OpCommit c = CommitDirtySchema c"
| "catalog_step OpReject c = RejectDirtySchema c"

definition catalog_wf :: "CatalogEntry \<Rightarrow> bool" where
  "catalog_wf c \<longleftrightarrow> (dirty_schema_version c = 0 \<longrightarrow> ce_dirty_schema c = None) \<and>
     (dirty_schema_version c \<noteq> 0 \<longrightarrow> schema_version c < dirty_schema_version c)"

lemma catalog_step_wf:
  assumes "catalog_wf c"
  shows "catalog_wf (catalog_step x c) \<and> schema_version c \<le> schema_version (catalog_step x c)"
proof (cases x)
  case (OpInit s ts)
  then show ?thesis using assms
    by (auto simp: catalog_wf_def InitSchema_def Let_def not_less not_le)
next
  case (OpSetDirty d ts)
  then show ?thesis using assms by (auto simp: catalog_wf_def SetDirtySchema_def)
next
  case OpCommit
  then show ?thesis using assms by (auto simp: catalog_wf_def CommitDirtySchema_def Let_def)
next
  case OpReject
  then show ?thesis using assms by (auto simp: catalog_wf_def RejectDirtySchema_def)
qed

lemma catalog_steps_wf:
  "catalog_wf c \<Longrightarrow> catalog_wf (fold catalog_step xs c) \<and> schema_version c \<le> schema_version (fold catalog_step xs c)"
proof (induction xs arbitrary: c)
  case (Cons x xs)
  note step = catalog_step_wf [OF Cons.prems, of x]
  show ?case
    using Cons.IH [OF step [THEN conjunct1]] order_trans [OF step [THEN conjunct2]] by simp
qed simp

lemma Commit_installs:
  assumes "catalog_wf c"
  shows "CommitDirtySchema c =
      (if dirty_schema_version c = 0 then c
       else c\<lparr>ce_schema := ce_dirty_schema c, schema_version := dirty_schema_version c,
              ce_dirty_schema := None, dirty_schema_version := 0\<rparr>)"
  using assms by (auto simp: catalog_wf_def CommitDirtySchema_def Let_def)

text \<open>
  C33: Schema versions are well-typed and monotone: whatever sequence of installing, preparing, committing
  and rejecting a schema, null schemas included, is applied to a new catalog entry, there is no dirty schema
  when the dirty version is 0, a dirty version that is not 0 is newer than the current one, and the current
  version never decreases. A commit then changes nothing when the dirty version is 0; otherwise it installs
  the dirty schema, also a null one, with its version, and leaves nothing dirty.
\<close>
theorem catalog_entry_versions:
  "let c = fold catalog_step xs CatalogEntry_new; c' = fold catalog_step ys c
   in catalog_wf c' \<and> schema_version c \<le> schema_version c' \<and>
      CommitDirtySchema c' =
        (if dirty_schema_version c' = 0 then c'
         else c'\<lparr>ce_schema := ce_dirty_schema c', schema_version := dirty_schema_version c',
                 ce_dirty_schema := None, dirty_schema_version := 0\<rparr>)"
proof -
  have "catalog_wf CatalogEntry_new" by (simp add: catalog_wf_def CatalogEntry_new_def)
  then have wf: "catalog_wf (fold catalog_step xs CatalogEntry_new)" by (rule catalog_steps_wf [THEN conjunct1])
  note mono = catalog_steps_wf [OF wf, of ys]
  show ?thesis unfolding Let_def using mono Commit_installs [OF mono [THEN conjunct1]] by simp
qed

section \<open>Buckets\<close>

lemma RangeBucketRecord_Deserialize_Clone:
  "RangeBucketRecord_Deserialize (RangeBucketRecord_Serialize b str @ post) (length str) =
     Inr (BucketInfo_Clone b, length str + RangeBucketRecord_SerializedLength)"
proof -
  let ?a = "to_bytes 4 (bucket_owner b)" and ?b = "to_bytes 8 (bkt_version b)" and ?c = "to_bytes 4 (dirty_bucket_owner b)"
    and ?d = "to_bytes 8 (dirty_version b)"
  note r = u32_codec.reads [of str "bucket_owner b" "?b @ ?c @ ?d @ post"] u64_codec.reads [of "str @ ?a" "bkt_version b" "?c @ ?d @ post"]
    u32_codec.reads [of "str @ ?a @ ?b" "dirty_bucket_owner b" "?d @ post"]
    u64_codec.reads [of "str @ ?a @ ?b @ ?c" "dirty_version b" post]
  show ?thesis
    using r by (simp add: RangeBucketRecord_Deserialize_def RangeBucketRecord_Serialize_def SerializeToStr_def BucketInfo_Clone_def
        RangeBucketRecord_SerializedLength_def add_ac)
qed

lemma BucketInfo_Clone_eq:
  "BucketInfo_Clone b =
     (if bkt_version b < dirty_version b
      then \<lparr>bucket_owner = bucket_owner b, bkt_version = bkt_version b, dirty_bucket_owner = dirty_bucket_owner b,
             dirty_version = dirty_version b, accepts_upload_batch = False\<rparr>
      else BucketInfo_new (bucket_owner b) (bkt_version b))"
proof -
  have "0 < dirty_version b" if "bkt_version b < dirty_version b"
    using that order_le_less_trans [OF word_zero_le that] by simp
  then show ?thesis by (simp add: BucketInfo_Clone_def BucketInfo_SetDirty_def BucketInfo_new_def)
qed

lemma CommitDirty_Clone: "BucketInfo_CommitDirty (BucketInfo_Clone b) = BucketInfo_CommitDirty b"
  by (cases b) (simp add: BucketInfo_CommitDirty_def BucketInfo_Clone_eq BucketInfo_new_def)

text \<open>
  C34: A bucket that is read back from its record commits to the same owner and version as the bucket
  that was written, whatever its dirty state: what a clone forgets (an obsolete dirty owner, the upload
  flag) does not survive a commit. If a newer dirty owner is pending it is read back as such.
\<close>
theorem bucket_record_commit:
  "\<exists>b'. RangeBucketRecord_Deserialize (RangeBucketRecord_Serialize b str @ post) (length str) =
      Inr (b', length str + RangeBucketRecord_SerializedLength) \<and>
    BucketInfo_CommitDirty b' = BucketInfo_CommitDirty b \<and>
    bkt_version (BucketInfo_CommitDirty b') = max (bkt_version b) (dirty_version b) \<and>
    bucket_owner b' = bucket_owner b \<and> bkt_version b' = bkt_version b \<and>
    (dirty_version b' = dirty_version b \<longleftrightarrow> bkt_version b < dirty_version b \<or> dirty_version b = 0)"
proof -
  have "bkt_version (BucketInfo_CommitDirty b) = max (bkt_version b) (dirty_version b)"
    by (simp add: BucketInfo_CommitDirty_def max.absorb1 max.absorb2)
  moreover have "bucket_owner (BucketInfo_Clone b) = bucket_owner b" "bkt_version (BucketInfo_Clone b) = bkt_version b"
    "dirty_version (BucketInfo_Clone b) = dirty_version b \<longleftrightarrow> bkt_version b < dirty_version b \<or> dirty_version b = 0"
    by (auto simp: BucketInfo_Clone_eq BucketInfo_new_def)
  ultimately show ?thesis unfolding RangeBucketRecord_Deserialize_Clone by (simp add: CommitDirty_Clone)
qed

end
