(* ===== verification/Linked_List.thy ===== *)
theory Linked_List
  imports Tx_Prelude
begin

text \<open>
  Doubly linked lists in a store: \<open>nxt\<close> and \<open>prv\<close> are the two pointers of every node. \<open>linked\<close> says that
  a sequence of nodes is chained by them; inserting and removing a node rewrites four pointers. The LRU
  list of a shard and the page order of a cc map are such lists.
\<close>

fun linked :: "(nat \<Rightarrow> nat option) \<Rightarrow> (nat \<Rightarrow> nat option) \<Rightarrow> nat list \<Rightarrow> bool" where
  "linked nxt prv (a # b # xs) \<longleftrightarrow> nxt a = Some b \<and> prv b = Some a \<and> linked nxt prv (b # xs)"
| "linked nxt prv xs \<longleftrightarrow> True"

lemma linked_append_Cons:
  "linked nxt prv (xs @ a # ys) \<longleftrightarrow> linked nxt prv (xs @ [a]) \<and> linked nxt prv (a # ys)"
  by (induction nxt prv xs rule: linked.induct) auto

lemma in_set_tlD: "a \<in> set (tl xs) \<Longrightarrow> a \<in> set xs"
  by (cases xs) auto

lemma linked_cong:
  assumes "linked nxt prv xs" "\<And>a. a \<in> set (butlast xs) \<Longrightarrow> nxt' a = nxt a" "\<And>a. a \<in> set (tl xs) \<Longrightarrow> prv' a = prv a"
  shows "linked nxt' prv' xs"
  using assms
proof (induction nxt prv xs rule: linked.induct)
  case (1 nxt prv a b xs)
  have "linked nxt' prv' (b # xs)" using 1 by (cases xs) auto
  then show ?case using 1 by simp
qed auto

lemma linked_at:
  assumes "linked nxt prv (xs @ a # b # ys)"
  shows "nxt a = Some b" "prv b = Some a"
  using assms linked_append_Cons [of nxt prv xs a "b # ys"] by auto

lemma linked_split:
  "linked nxt prv (xs @ a # b # ys) \<longleftrightarrow>
     linked nxt prv (xs @ [a]) \<and> nxt a = Some b \<and> prv b = Some a \<and> linked nxt prv (b # ys)"
  using linked_append_Cons [of nxt prv xs a "b # ys"] by auto

lemma linked_frame:
  assumes "linked nxt prv xs" "\<And>a. a \<in> set xs \<Longrightarrow> nxt' a = nxt a" "\<And>a. a \<in> set xs \<Longrightarrow> prv' a = prv a"
  shows "linked nxt' prv' xs"
  by (rule linked_cong [OF assms(1)]) (auto intro!: assms(2,3) dest: in_set_butlastD in_set_tlD)

text \<open>Removing a node between two others, whatever its own pointers become.\<close>

lemma linked_unlink:
  assumes "linked nxt prv (xs @ a # x # b # ys)" "distinct (xs @ a # x # b # ys)"
    and "nxt' a = Some b" "prv' b = Some a"
    and "\<And>c. c \<noteq> a \<Longrightarrow> c \<noteq> x \<Longrightarrow> nxt' c = nxt c" "\<And>c. c \<noteq> b \<Longrightarrow> c \<noteq> x \<Longrightarrow> prv' c = prv c"
  shows "linked nxt' prv' (xs @ a # b # ys)"
proof -
  have l: "linked nxt prv (xs @ [a])" "linked nxt prv (b # ys)"
    using assms(1) linked_split [of nxt prv xs a x "b # ys"] by auto
  have "linked nxt' prv' (xs @ [a])"
    by (rule linked_cong [OF l(1)]) (use assms(2) in \<open>auto intro!: assms(5,6) dest: in_set_tlD\<close>)
  moreover have "linked nxt' prv' (b # ys)"
    by (rule linked_cong [OF l(2)]) (use assms(2) in \<open>auto intro!: assms(5,6) dest: in_set_butlastD split: if_splits\<close>)
  ultimately show ?thesis using assms(3,4) linked_split by blast
qed

lemma linked_link:
  assumes "linked nxt prv (xs @ a # b # ys)" "distinct (xs @ a # x # b # ys)"
    and "nxt' a = Some x" "nxt' x = Some b" "prv' b = Some x" "prv' x = Some a"
    and "\<And>c. c \<noteq> a \<Longrightarrow> c \<noteq> x \<Longrightarrow> nxt' c = nxt c" "\<And>c. c \<noteq> b \<Longrightarrow> c \<noteq> x \<Longrightarrow> prv' c = prv c"
  shows "linked nxt' prv' (xs @ a # x # b # ys)"
proof -
  have l: "linked nxt prv (xs @ [a])" "linked nxt prv (b # ys)"
    using assms(1) linked_split [of nxt prv xs a b ys] by auto
  have "linked nxt' prv' (xs @ [a])"
    by (rule linked_cong [OF l(1)]) (use assms(2) in \<open>auto intro!: assms(7,8) dest: in_set_tlD\<close>)
  moreover have "linked nxt' prv' (b # ys)"
    by (rule linked_cong [OF l(2)]) (use assms(2) in \<open>auto intro!: assms(7,8) dest: in_set_butlastD split: if_splits\<close>)
  ultimately show ?thesis
    using assms(3-6) linked_split [of nxt' prv' xs a x "b # ys"] by auto
qed

text \<open>The neighbours of a node of a list between two sentinels.\<close>

lemma neighbours:
  assumes "x \<in> set xs"
  obtains us a b vs where "hd0 # xs @ [tl0] = us @ a # x # b # vs" "xs = tl (us @ [a]) @ x # butlast (b # vs)"
    "hd (us @ [a]) = hd0" "last (b # vs) = tl0"
proof -
  obtain ys zs where xs: "xs = ys @ x # zs" using assms by (meson split_list)
  have "hd0 # xs @ [tl0] = butlast (hd0 # ys) @ last (hd0 # ys) # x # hd (zs @ [tl0]) # tl (zs @ [tl0])"
    by (cases ys rule: rev_cases; cases zs) (simp_all add: xs)
  moreover have "xs = tl (butlast (hd0 # ys) @ [last (hd0 # ys)]) @ x # butlast (hd (zs @ [tl0]) # tl (zs @ [tl0]))"
    by (simp only: append_butlast_last_id list.distinct(2) not_False_eq_True list.sel hd_Cons_tl append_is_Nil_conv) (simp add: xs)
  moreover have "hd (butlast (hd0 # ys) @ [last (hd0 # ys)]) = hd0"
    by (simp only: append_butlast_last_id list.distinct(2) not_False_eq_True list.sel)
  moreover have "last (hd (zs @ [tl0]) # tl (zs @ [tl0])) = tl0" by (cases zs) auto
  ultimately show thesis using that by blast
qed

end
