(* ===== verification/Lru_List.thy ===== *)
theory Lru_List
  imports Linked_List Cc_Shard
begin

text \<open>
  The LRU list of the pages of a shard (\<open>src/cc/cc_shard.cpp\<close>, \<open>LruPage\<close> of \<open>include/cc/cc_entry.h\<close>): a
  doubly linked list between the two sentinels \<open>head_ccp_\<close> and \<open>tail_ccp_\<close>, with the page from which the
  next cleaning starts. Pages live in a store by address. Following a null pointer is undefined: the
  operation returns \<open>None\<close>. \<open>LruPage\<close> is the base record of the pages of a cc map.
\<close>

section \<open>Model\<close>

record LruPage =
  lru_prev :: "nat option"
  lru_next :: "nat option"
  parent_type :: TableType
  last_access_ts :: u64
  last_dirty_commit_ts :: u64
  smallest_ttl :: u64

record 'p lru_state =
  pg :: "nat \<Rightarrow> 'p"
  clean_start_ccp :: "nat option"
  access_counter :: u64

definition head_ccp :: nat where "head_ccp = 0"
definition tail_ccp :: nat where "tail_ccp = 1"

definition upd_page :: "nat \<Rightarrow> ('p \<Rightarrow> 'p) \<Rightarrow> 'p lru_state \<Rightarrow> 'p lru_state" where
  "upd_page a f s = s\<lparr>pg := (pg s)(a := f (pg s a))\<rparr>"

lemma upd_page_simps [simp]:
  "clean_start_ccp (upd_page a f s) = clean_start_ccp s" "access_counter (upd_page a f s) = access_counter s"
  by (simp_all add: upd_page_def)

definition lru_init :: "(nat \<Rightarrow> 'a LruPage_scheme) \<Rightarrow> 'a LruPage_scheme lru_state" where
  "lru_init blank =
     \<lparr>pg = blank(head_ccp := (blank head_ccp)\<lparr>lru_prev := None, lru_next := Some tail_ccp\<rparr>,
                 tail_ccp := (blank tail_ccp)\<lparr>lru_prev := Some head_ccp, lru_next := None\<rparr>),
      clean_start_ccp = None, access_counter = 0\<rparr>"

definition DetachLru :: "nat \<Rightarrow> 'a LruPage_scheme lru_state \<Rightarrow> 'a LruPage_scheme lru_state option" where
  "DetachLru page s =
     (let s1 = (if clean_start_ccp s = Some page then s\<lparr>clean_start_ccp := lru_next (pg s page)\<rparr> else s)
      in case lru_prev (pg s page) of None \<Rightarrow> None
         | Some prev \<Rightarrow>
             (case lru_next (pg s page) of None \<Rightarrow> None
              | Some nx \<Rightarrow>
                  Some (upd_page page (\<lambda>p. p\<lparr>lru_prev := None, lru_next := None\<rparr>)
                         (upd_page nx (\<lambda>p. p\<lparr>lru_prev := Some prev\<rparr>)
                           (upd_page prev (\<lambda>p. p\<lparr>lru_next := Some nx\<rparr>) s1)))))"

definition ReplaceLru :: "nat \<Rightarrow> nat \<Rightarrow> 'a LruPage_scheme lru_state \<Rightarrow> 'a LruPage_scheme lru_state option" where
  "ReplaceLru old_page new_page s =
     (case lru_prev (pg s old_page) of None \<Rightarrow> None
      | Some prev \<Rightarrow>
          (case lru_next (pg s old_page) of None \<Rightarrow> None
           | Some nx \<Rightarrow>
               let s1 = upd_page old_page (\<lambda>p. p\<lparr>lru_prev := None, lru_next := None\<rparr>) s;
                   s2 = (if clean_start_ccp s1 = Some old_page then s1\<lparr>clean_start_ccp := Some new_page\<rparr> else s1)
               in Some (upd_page new_page (\<lambda>p. p\<lparr>lru_next := Some nx, lru_prev := Some prev\<rparr>)
                         (upd_page nx (\<lambda>p. p\<lparr>lru_prev := Some new_page\<rparr>)
                           (upd_page prev (\<lambda>p. p\<lparr>lru_next := Some new_page\<rparr>) s2)))))"

definition in_lru_type :: "TableType \<Rightarrow> bool" where
  "in_lru_type t \<longleftrightarrow> t = Primary \<or> t = Secondary \<or> t = UniqueSecondary"

definition touch :: "nat \<Rightarrow> 'a LruPage_scheme lru_state \<Rightarrow> 'a LruPage_scheme lru_state" where
  "touch page s = upd_page page (\<lambda>p. p\<lparr>last_access_ts := access_counter s + 1\<rparr>) (s\<lparr>access_counter := access_counter s + 1\<rparr>)"

definition UpdateLruList :: "nat \<Rightarrow> bool \<Rightarrow> 'a LruPage_scheme lru_state \<Rightarrow> 'a LruPage_scheme lru_state option" where
  "UpdateLruList page is_emplace s =
     (if \<not> in_lru_type (parent_type (pg s page)) then Some s
      else if lru_next (pg s page) = Some tail_ccp \<and> lru_prev (pg s tail_ccp) = Some page then Some (touch page s)
      else case (if lru_next (pg s page) \<noteq> None then DetachLru page s else Some s) of
             None \<Rightarrow> None
           | Some s1 \<Rightarrow>
               (case lru_prev (pg s1 tail_ccp) of None \<Rightarrow> None
                | Some second_tail \<Rightarrow>
                    let s2 = upd_page page (\<lambda>p. p\<lparr>lru_next := Some tail_ccp, lru_prev := Some second_tail\<rparr>)
                               (upd_page tail_ccp (\<lambda>p. p\<lparr>lru_prev := Some page\<rparr>)
                                 (upd_page second_tail (\<lambda>p. p\<lparr>lru_next := Some page\<rparr>) s1));
                        s3 = touch page s2
                    in Some (if is_emplace \<and> clean_start_ccp s3 = Some tail_ccp
                             then s3\<lparr>clean_start_ccp := Some page\<rparr> else s3)))"

text \<open>Linking a page behind another one, as the split and the redistribution of pages do.\<close>

definition lru_insert_after :: "nat \<Rightarrow> nat \<Rightarrow> 'a LruPage_scheme lru_state \<Rightarrow> 'a LruPage_scheme lru_state option" where
  "lru_insert_after page new_page s =
     (case lru_next (pg s page) of None \<Rightarrow> None
      | Some nx \<Rightarrow>
          Some (upd_page new_page (\<lambda>p. p\<lparr>last_access_ts := last_access_ts (pg s page)\<rparr>)
                 (upd_page page (\<lambda>p. p\<lparr>lru_next := Some new_page\<rparr>)
                   (upd_page new_page (\<lambda>p. p\<lparr>lru_prev := Some page\<rparr>)
                     (upd_page nx (\<lambda>p. p\<lparr>lru_prev := Some new_page\<rparr>)
                       (upd_page new_page (\<lambda>p. p\<lparr>lru_next := Some nx\<rparr>) s))))))"

section \<open>The list the pointers form\<close>

definition lru_linked :: "'a LruPage_scheme lru_state \<Rightarrow> nat list \<Rightarrow> bool" where
  "lru_linked s xs \<longleftrightarrow> linked (\<lambda>a. lru_next (pg s a)) (\<lambda>a. lru_prev (pg s a)) xs"

definition lru_ok :: "'a LruPage_scheme lru_state \<Rightarrow> nat list \<Rightarrow> bool" where
  "lru_ok s ps \<longleftrightarrow>
     lru_linked s (head_ccp # ps @ [tail_ccp]) \<and> distinct (head_ccp # ps @ [tail_ccp]) \<and>
     lru_prev (pg s head_ccp) = None \<and> lru_next (pg s tail_ccp) = None \<and>
     (\<forall>a. a \<notin> set (head_ccp # ps @ [tail_ccp]) \<longrightarrow> lru_next (pg s a) = None \<and> lru_prev (pg s a) = None) \<and>
     (\<forall>a. clean_start_ccp s = Some a \<longrightarrow> a \<in> set (ps @ [tail_ccp]))"

lemma lru_okI:
  assumes "lru_linked s (head_ccp # ps @ [tail_ccp])" "distinct (head_ccp # ps @ [tail_ccp])"
    and "lru_prev (pg s head_ccp) = None" "lru_next (pg s tail_ccp) = None"
    and "\<And>a. a \<notin> set (head_ccp # ps @ [tail_ccp]) \<Longrightarrow> lru_next (pg s a) = None \<and> lru_prev (pg s a) = None"
    and "\<And>a. clean_start_ccp s = Some a \<Longrightarrow> a \<in> set (ps @ [tail_ccp])"
  shows "lru_ok s ps"
  unfolding lru_ok_def using assms by blast

lemma lru_okD:
  assumes "lru_ok s ps"
  shows "lru_linked s (head_ccp # ps @ [tail_ccp])" "distinct (head_ccp # ps @ [tail_ccp])"
    and "lru_prev (pg s head_ccp) = None" "lru_next (pg s tail_ccp) = None"
    and "a \<notin> set (head_ccp # ps @ [tail_ccp]) \<Longrightarrow> lru_next (pg s a) = None \<and> lru_prev (pg s a) = None"
    and "clean_start_ccp s = Some a \<Longrightarrow> a \<in> set (ps @ [tail_ccp])"
  using assms unfolding lru_ok_def by blast+

lemma head_tail_neq [simp]: "head_ccp \<noteq> tail_ccp" "tail_ccp \<noteq> head_ccp"
  by (simp_all add: head_ccp_def tail_ccp_def)

lemma lru_init_ok: "(\<And>a. lru_next (blank a) = None \<and> lru_prev (blank a) = None) \<Longrightarrow> lru_ok (lru_init blank) []"
  by (auto simp: lru_ok_def lru_init_def lru_linked_def)

lemma lru_ok_in_iff:
  assumes "lru_ok s ps" "a \<noteq> head_ccp" "a \<noteq> tail_ccp"
  shows "lru_next (pg s a) \<noteq> None \<longleftrightarrow> a \<in> set ps"
proof
  assume "a \<in> set ps"
  then obtain us b c vs where "head_ccp # ps @ [tail_ccp] = us @ b # a # c # vs" by (rule neighbours)
  then show "lru_next (pg s a) \<noteq> None"
    using assms linked_at [of _ _ "us @ [b]" a c vs] by (auto simp: lru_ok_def lru_linked_def)
qed (use assms in \<open>auto simp: lru_ok_def\<close>)

text \<open>The successor of a page on the way to the tail.\<close>

definition lru_succ :: "nat list \<Rightarrow> nat \<Rightarrow> nat" where
  "lru_succ ps a = hd (tl (dropWhile (\<lambda>b. b \<noteq> a) ps) @ [tail_ccp])"

lemma lru_succ_eq: "a \<notin> set xs \<Longrightarrow> lru_succ (xs @ a # ys) a = hd (ys @ [tail_ccp])"
  by (induction xs) (auto simp: lru_succ_def)

section \<open>The operations on the list\<close>

text \<open>Two stores that differ in the links only.\<close>

definition lru_same :: "'a LruPage_scheme lru_state \<Rightarrow> 'a LruPage_scheme lru_state \<Rightarrow> bool" where
  "lru_same s s' \<longleftrightarrow>
     (\<forall>a. last_access_ts (pg s' a) = last_access_ts (pg s a) \<and> last_dirty_commit_ts (pg s' a) = last_dirty_commit_ts (pg s a) \<and>
        smallest_ttl (pg s' a) = smallest_ttl (pg s a) \<and> parent_type (pg s' a) = parent_type (pg s a) \<and>
        LruPage.more (pg s' a) = LruPage.more (pg s a))"

lemma lru_sameD:
  assumes "lru_same s s'"
  shows "last_access_ts (pg s' a) = last_access_ts (pg s a)" "last_dirty_commit_ts (pg s' a) = last_dirty_commit_ts (pg s a)"
    "smallest_ttl (pg s' a) = smallest_ttl (pg s a)" "parent_type (pg s' a) = parent_type (pg s a)"
    "LruPage.more (pg s' a) = LruPage.more (pg s a)"
  using assms by (simp_all add: lru_same_def)

lemma around:
  obtains us a b vs where "hd0 # ys @ x # zs @ [tl0] = us @ a # x # b # vs" "hd0 # ys @ zs @ [tl0] = us @ a # b # vs"
    "b = hd (zs @ [tl0])" "b # vs = zs @ [tl0]" "us @ [a] = hd0 # ys"
proof
  show "hd0 # ys @ x # zs @ [tl0] = butlast (hd0 # ys) @ last (hd0 # ys) # x # hd (zs @ [tl0]) # tl (zs @ [tl0])"
    by (cases ys rule: rev_cases; cases zs) simp_all
  show "hd0 # ys @ zs @ [tl0] = butlast (hd0 # ys) @ last (hd0 # ys) # hd (zs @ [tl0]) # tl (zs @ [tl0])"
    by (cases ys rule: rev_cases; cases zs) simp_all
qed (simp_all only: append_butlast_last_id list.distinct(2) not_False_eq_True, simp_all)

lemma DetachLru_ok:
  assumes ok: "lru_ok s (ys @ x # zs)"
  shows "\<exists>s'. DetachLru x s = Some s' \<and> lru_ok s' (ys @ zs) \<and> lru_same s s' \<and> access_counter s' = access_counter s \<and>
    clean_start_ccp s' = (if clean_start_ccp s = Some x then Some (hd (zs @ [tail_ccp])) else clean_start_ccp s)"
proof -
  obtain us a b vs where full: "head_ccp # ys @ x # zs @ [tail_ccp] = us @ a # x # b # vs"
    and rest: "head_ccp # ys @ zs @ [tail_ccp] = us @ a # b # vs" and b: "b = hd (zs @ [tail_ccp])" "b # vs = zs @ [tail_ccp]"
    and a: "us @ [a] = head_ccp # ys"
    by (rule around)
  have lk: "linked (\<lambda>a. lru_next (pg s a)) (\<lambda>a. lru_prev (pg s a)) (us @ a # x # b # vs)" and dis: "distinct (us @ a # x # b # vs)"
    using ok unfolding lru_ok_def lru_linked_def by (simp_all add: full [symmetric])
  have ptr: "lru_prev (pg s x) = Some a" "lru_next (pg s x) = Some b"
    using linked_at [OF lk] linked_at(1) [of _ _ "us @ [a]" x b vs] lk by simp_all
  let ?s1 = "if clean_start_ccp s = Some x then s\<lparr>clean_start_ccp := Some b\<rparr> else s"
  let ?s' = "upd_page x (\<lambda>p. p\<lparr>lru_prev := None, lru_next := None\<rparr>) (upd_page b (\<lambda>p. p\<lparr>lru_prev := Some a\<rparr>)
               (upd_page a (\<lambda>p. p\<lparr>lru_next := Some b\<rparr>) ?s1))"
  have pg1: "pg ?s1 = pg s" by simp
  have dist: "a \<noteq> b" "a \<noteq> x" "b \<noteq> x" using dis by auto
  have nx: "lru_next (pg ?s' c) = (if c = x then None else if c = a then Some b else lru_next (pg s c))" for c
    using dist by (simp add: upd_page_def pg1)
  have pv: "lru_prev (pg ?s' c) = (if c = x then None else if c = b then Some a else lru_prev (pg s c))" for c
    using dist by (simp add: upd_page_def pg1)
  have "linked (\<lambda>a. lru_next (pg ?s' a)) (\<lambda>a. lru_prev (pg ?s' a)) (us @ a # b # vs)"
    by (rule linked_unlink [OF lk dis]) (use dist in \<open>simp_all add: nx pv\<close>)
  moreover have mem: "a \<in> set (head_ccp # ys)" "b \<in> set (zs @ [tail_ccp])" using arg_cong [OF a, of set] arg_cong [OF b(2), of set] by auto
  have ht: "head_ccp \<noteq> x" "tail_ccp \<noteq> x" "head_ccp \<noteq> b" "tail_ccp \<noteq> a"
    using ok mem by (auto simp: lru_ok_def)
  have "lru_ok ?s' (ys @ zs)"
  proof (rule lru_okI)
    show "lru_linked ?s' (head_ccp # (ys @ zs) @ [tail_ccp])" using calculation by (simp only: lru_linked_def rest append_assoc)
    show "lru_next (pg ?s' c) = None \<and> lru_prev (pg ?s' c) = None" if "c \<notin> set (head_ccp # (ys @ zs) @ [tail_ccp])" for c
      using that mem lru_okD(5) [OF ok, of c] by (auto simp: nx pv)
    show "clean_start_ccp ?s' = Some c \<Longrightarrow> c \<in> set ((ys @ zs) @ [tail_ccp])" for c
      using mem lru_okD(6) [OF ok, of c] by (auto simp: upd_page_def split: if_splits)
  qed (use lru_okD(2-4) [OF ok] ht in \<open>simp_all add: nx pv\<close>)
  moreover have "lru_same s ?s'" using dist by (auto simp: lru_same_def upd_page_def)
  moreover have "DetachLru x s = Some ?s'" by (simp add: DetachLru_def ptr Let_def)
  ultimately show ?thesis using b by (auto simp: upd_page_def)
qed

lemma lru_link:
  assumes ok: "lru_ok s (ys @ zs)" and x: "x \<notin> set (head_ccp # (ys @ zs) @ [tail_ccp])"
    and nx: "\<And>c. lru_next (pg s' c) = (if c = x then Some (hd (zs @ [tail_ccp])) else if c = last (head_ccp # ys) then Some x
      else lru_next (pg s c))"
    and pv: "\<And>c. lru_prev (pg s' c) = (if c = x then Some (last (head_ccp # ys)) else if c = hd (zs @ [tail_ccp]) then Some x
      else lru_prev (pg s c))"
    and cs: "\<And>c. clean_start_ccp s' = Some c \<Longrightarrow> clean_start_ccp s = Some c \<or> c = x"
  shows "lru_ok s' (ys @ x # zs)"
proof -
  obtain us a b vs where full: "head_ccp # ys @ x # zs @ [tail_ccp] = us @ a # x # b # vs"
    and rest: "head_ccp # ys @ zs @ [tail_ccp] = us @ a # b # vs" and b: "b = hd (zs @ [tail_ccp])" "b # vs = zs @ [tail_ccp]"
    and a: "us @ [a] = head_ccp # ys"
    by (rule around)
  have a': "last (head_ccp # ys) = a" using arg_cong [OF a, of last] by simp
  note nx = nx [unfolded a' b(1) [symmetric]] and pv = pv [unfolded a' b(1) [symmetric]]
  have mem: "a \<in> set (head_ccp # ys)" "b \<in> set (zs @ [tail_ccp])" using arg_cong [OF a, of set] arg_cong [OF b(2), of set] by auto
  have dis: "distinct (us @ a # x # b # vs)" using x lru_okD(2) [OF ok] unfolding full [symmetric] by auto
  have lk: "linked (\<lambda>a. lru_next (pg s a)) (\<lambda>a. lru_prev (pg s a)) (us @ a # b # vs)"
    using lru_okD(1) [OF ok] by (simp only: lru_linked_def append_assoc append_Cons rest [symmetric])
  have neq: "head_ccp \<noteq> b" "tail_ccp \<noteq> a" "a \<noteq> x" "b \<noteq> x" using mem x lru_okD(2) [OF ok] by auto
  show ?thesis
  proof (rule lru_okI)
    have "linked (\<lambda>a. lru_next (pg s' a)) (\<lambda>a. lru_prev (pg s' a)) (us @ a # x # b # vs)"
      by (rule linked_link [OF lk dis]) (use neq in \<open>simp_all add: nx pv\<close>)
    then show "lru_linked s' (head_ccp # (ys @ x # zs) @ [tail_ccp])"
      by (simp only: lru_linked_def append_assoc append_Cons full [symmetric])
    show "lru_next (pg s' c) = None \<and> lru_prev (pg s' c) = None" if "c \<notin> set (head_ccp # (ys @ x # zs) @ [tail_ccp])" for c
      using that mem lru_okD(5) [OF ok, of c] by (auto simp: nx pv)
    show "clean_start_ccp s' = Some c \<Longrightarrow> c \<in> set ((ys @ x # zs) @ [tail_ccp])" for c
      using cs [of c] lru_okD(6) [OF ok, of c] by auto
  qed (use lru_okD(2-4) [OF ok] neq x in \<open>auto simp: nx pv\<close>)
qed

lemma lru_insert_after_ok:
  assumes ok: "lru_ok s (ys @ p # zs)" and x: "x \<notin> set (head_ccp # (ys @ p # zs) @ [tail_ccp])"
  shows "\<exists>s'. lru_insert_after p x s = Some s' \<and> lru_ok s' (ys @ p # x # zs) \<and>
    lru_same (upd_page x (\<lambda>q. q\<lparr>last_access_ts := last_access_ts (pg s p)\<rparr>) s) s' \<and>
    access_counter s' = access_counter s \<and> clean_start_ccp s' = clean_start_ccp s"
proof -
  let ?n = "hd (zs @ [tail_ccp])"
  have dis: "p \<noteq> x" "?n \<noteq> x" "p \<noteq> ?n" using x lru_okD(2) [OF ok] by (cases zs; auto)+
  have nx: "lru_next (pg s p) = Some ?n"
    using lru_okD(1) [OF ok] linked_at(1) [of _ _ "head_ccp # ys" p ?n "tl (zs @ [tail_ccp])"]
    by (simp add: lru_linked_def)
  let ?s' = "upd_page x (\<lambda>q. q\<lparr>last_access_ts := last_access_ts (pg s p)\<rparr>)
               (upd_page p (\<lambda>q. q\<lparr>lru_next := Some x\<rparr>) (upd_page x (\<lambda>q. q\<lparr>lru_prev := Some p\<rparr>)
                 (upd_page ?n (\<lambda>q. q\<lparr>lru_prev := Some x\<rparr>) (upd_page x (\<lambda>q. q\<lparr>lru_next := Some ?n\<rparr>) s))))"
  have "lru_ok ?s' ((ys @ [p]) @ x # zs)"
    by (rule lru_link [where s = s]) (use ok x dis in \<open>auto simp: upd_page_def\<close>)
  moreover have "lru_insert_after p x s = Some ?s'" by (simp add: lru_insert_after_def nx)
  moreover have "lru_same (upd_page x (\<lambda>q. q\<lparr>last_access_ts := last_access_ts (pg s p)\<rparr>) s) ?s'"
    using dis by (auto simp: lru_same_def upd_page_def)
  ultimately show ?thesis by (auto simp: upd_page_def)
qed

section \<open>Refinement of a recency list\<close>

text \<open>
  The abstract view is the list of pages from the least to the most recently used one, and the page at
  which cleaning resumes.
\<close>

definition lru_del :: "nat \<Rightarrow> nat list \<times> nat option \<Rightarrow> nat list \<times> nat option" where
  "lru_del x = (\<lambda>(ps, cs). (remove1 x ps, if cs = Some x then Some (lru_succ ps x) else cs))"

definition lru_use :: "nat \<Rightarrow> bool \<Rightarrow> nat list \<times> nat option \<Rightarrow> nat list \<times> nat option" where
  "lru_use x is_emplace = (\<lambda>(ps, cs).
     if ps \<noteq> [] \<and> last ps = x then (ps, cs)
     else let (ps1, cs1) = lru_del x (ps, cs)
          in (ps1 @ [x], if is_emplace \<and> cs1 = Some tail_ccp then Some x else cs1))"

lemma touch_simps [simp]:
  "lru_next (pg (touch x s) a) = lru_next (pg s a)" "lru_prev (pg (touch x s) a) = lru_prev (pg s a)"
  "clean_start_ccp (touch x s) = clean_start_ccp s" "access_counter (touch x s) = access_counter s + 1"
  by (simp_all add: touch_def upd_page_def)

lemma lru_ok_cong:
  assumes "lru_ok s ps" "\<And>a. lru_next (pg s' a) = lru_next (pg s a)" "\<And>a. lru_prev (pg s' a) = lru_prev (pg s a)"
    and "clean_start_ccp s' = clean_start_ccp s"
  shows "lru_ok s' ps"
  using assms by (simp add: lru_ok_def lru_linked_def)

lemma lru_last: "lru_ok s ps \<Longrightarrow> lru_prev (pg s tail_ccp) = Some (last (head_ccp # ps))"
  using lru_okD(1) [of s ps] linked_at(2) [of _ _ "butlast (head_ccp # ps)" "last (head_ccp # ps)" tail_ccp "[]"]
  by (cases ps rule: rev_cases) (simp_all add: lru_linked_def)

text \<open>Appending a page that is not in the list.\<close>

lemma lru_append:
  assumes ok: "lru_ok s ps" and x: "x \<notin> set (head_ccp # ps @ [tail_ccp])"
  shows "lru_prev (pg s tail_ccp) = Some (last (head_ccp # ps)) \<and>
    lru_ok (upd_page x (\<lambda>p. p\<lparr>lru_next := Some tail_ccp, lru_prev := Some (last (head_ccp # ps))\<rparr>)
      (upd_page tail_ccp (\<lambda>p. p\<lparr>lru_prev := Some x\<rparr>)
        (upd_page (last (head_ccp # ps)) (\<lambda>p. p\<lparr>lru_next := Some x\<rparr>) s))) (ps @ [x])" (is "_ \<and> lru_ok ?s' _")
proof
  have neq: "last (head_ccp # ps) \<noteq> tail_ccp" "last (head_ccp # ps) \<noteq> x" "x \<noteq> tail_ccp"
    using x lru_okD(2) [OF ok] last_in_set [of "head_ccp # ps"] by auto
  show "lru_prev (pg s tail_ccp) = Some (last (head_ccp # ps))" by (rule lru_last [OF ok])
  show "lru_ok ?s' (ps @ [x])"
    by (rule lru_link [where s = s]) (use ok x neq in \<open>auto simp: upd_page_def\<close>)
qed

text \<open>Whether the page is at the tail already.\<close>

lemma at_tail_iff:
  assumes ok: "lru_ok s ps" and x: "x \<noteq> head_ccp" "x \<noteq> tail_ccp"
  shows "lru_next (pg s x) = Some tail_ccp \<and> lru_prev (pg s tail_ccp) = Some x \<longleftrightarrow> ps \<noteq> [] \<and> last ps = x"
proof
  show "lru_next (pg s x) = Some tail_ccp \<and> lru_prev (pg s tail_ccp) = Some x \<Longrightarrow> ps \<noteq> [] \<and> last ps = x"
    using lru_last [OF ok] x by (auto split: if_splits)
  assume "ps \<noteq> [] \<and> last ps = x"
  then obtain ys where "ps = ys @ [x]" by (cases ps rule: rev_cases) auto
  then show "lru_next (pg s x) = Some tail_ccp \<and> lru_prev (pg s tail_ccp) = Some x"
    using lru_okD(1) [OF ok] linked_at [of _ _ "head_ccp # ys" x tail_ccp "[]"] by (simp add: lru_linked_def)
qed

lemma DetachLru_refines:
  assumes ok: "lru_ok s ps" and x: "x \<in> set ps"
  shows "\<exists>s'. DetachLru x s = Some s' \<and> lru_ok s' (remove1 x ps) \<and> lru_same s s' \<and> access_counter s' = access_counter s \<and>
    (remove1 x ps, clean_start_ccp s') = lru_del x (ps, clean_start_ccp s)"
proof -
  obtain ys zs where ps: "ps = ys @ x # zs" using x by (meson split_list)
  have "x \<notin> set ys" using lru_okD(2) [OF ok] by (simp add: ps)
  then have "remove1 x ps = ys @ zs" "lru_succ ps x = hd (zs @ [tail_ccp])" by (simp_all add: ps remove1_append lru_succ_eq)
  then show ?thesis using DetachLru_ok [OF ok [unfolded ps]] by (auto simp: lru_del_def)
qed

lemma lru_same_trans: "lru_same s s' \<Longrightarrow> lru_same s' s'' \<Longrightarrow> lru_same s s''"
  by (simp add: lru_same_def)

lemma lru_same_touch:
  assumes "lru_same s s'" "access_counter s' = access_counter s"
  shows "lru_same (touch x s) (touch x s')"
  using assms by (simp add: lru_same_def touch_def upd_page_def)

lemma UpdateLruList_refines:
  assumes ok: "lru_ok s ps" and x: "x \<noteq> head_ccp" "x \<noteq> tail_ccp" and ty: "in_lru_type (parent_type (pg s x))"
  shows "\<exists>s'. UpdateLruList x em s = Some s' \<and> lru_ok s' (remove1 x ps @ [x]) \<and> lru_same (touch x s) s' \<and>
    access_counter s' = access_counter s + 1 \<and> (remove1 x ps @ [x], clean_start_ccp s') = lru_use x em (ps, clean_start_ccp s)"
proof (cases "ps \<noteq> [] \<and> last ps = x")
  case True
  then obtain ys where ps: "ps = ys @ [x]" by (cases ps rule: rev_cases) auto
  have "x \<notin> set ys" using lru_okD(2) [OF ok] by (simp add: ps)
  then have "remove1 x ps @ [x] = ps" by (simp add: ps remove1_append)
  moreover have "UpdateLruList x em s = Some (touch x s)" using at_tail_iff [OF ok x] True ty by (simp add: UpdateLruList_def)
  moreover have "lru_ok (touch x s) ps" by (rule lru_ok_cong [OF ok]) simp_all
  ultimately show ?thesis using True by (simp add: lru_use_def lru_same_def)
next
  case False
  let ?ps = "remove1 x ps"
  obtain s1 where s1: "(if lru_next (pg s x) \<noteq> None then DetachLru x s else Some s) = Some s1" "lru_ok s1 ?ps" "lru_same s s1"
    "access_counter s1 = access_counter s" "(?ps, clean_start_ccp s1) = lru_del x (ps, clean_start_ccp s)"
  proof (cases "x \<in> set ps")
    case True
    then show ?thesis using that DetachLru_refines [OF ok True] lru_ok_in_iff [OF ok x] by auto
  next
    case notin: False
    then have "?ps = ps" "clean_start_ccp s \<noteq> Some x" using lru_okD(6) [OF ok, of x] x by (auto simp: remove1_idem)
    then show ?thesis using that [of s] notin ok lru_ok_in_iff [OF ok x] by (simp add: lru_same_def lru_del_def)
  qed
  let ?l = "last (head_ccp # ?ps)"
  let ?s2 = "upd_page x (\<lambda>p. p\<lparr>lru_next := Some tail_ccp, lru_prev := Some ?l\<rparr>) (upd_page tail_ccp (\<lambda>p. p\<lparr>lru_prev := Some x\<rparr>)
               (upd_page ?l (\<lambda>p. p\<lparr>lru_next := Some x\<rparr>) s1))"
  let ?s3 = "touch x ?s2"
  let ?s' = "if em \<and> clean_start_ccp ?s3 = Some tail_ccp then ?s3\<lparr>clean_start_ccp := Some x\<rparr> else ?s3"
  have notin: "x \<notin> set (head_ccp # ?ps @ [tail_ccp])" using lru_okD(2) [OF ok] x by auto
  note app = lru_append [OF s1(2) notin]
  have not_tail: "\<not> (lru_next (pg s x) = Some tail_ccp \<and> lru_prev (pg s tail_ccp) = Some x)" using at_tail_iff [OF ok x] False by blast
  have upd: "UpdateLruList x em s = Some ?s'"
    unfolding UpdateLruList_def s1(1) if_not_P [OF not_tail] option.case app [THEN conjunct1] Let_def using ty by simp
  have "lru_ok ?s3 (?ps @ [x])" by (rule lru_ok_cong [OF app [THEN conjunct2]]) simp_all
  then have ok': "lru_ok ?s' (?ps @ [x])" by (auto simp: lru_ok_def lru_linked_def)
  have use: "lru_use x em (ps, clean_start_ccp s) = (?ps @ [x], clean_start_ccp ?s')"
    unfolding lru_use_def prod.case if_not_P [OF False] s1(5) [symmetric] Let_def by simp
  have "lru_same s1 ?s2" by (simp add: lru_same_def upd_page_def)
  then have "lru_same (touch x s) ?s3" using lru_same_touch [OF lru_same_trans [OF s1(3)]] s1(4) by simp
  moreover have "pg ?s' = pg ?s3" by simp
  ultimately have same: "lru_same (touch x s) ?s'" unfolding lru_same_def by metis
  have cnt: "access_counter ?s' = access_counter s + 1" using s1(4) by simp
  show ?thesis by (rule exI [of _ ?s'], intro conjI) (rule upd ok' same cnt use [symmetric])+
qed

lemma ReplaceLru_ok:
  assumes ok: "lru_ok s (ys @ p # zs)" and x: "x \<notin> set (head_ccp # (ys @ p # zs) @ [tail_ccp])"
  shows "\<exists>s'. ReplaceLru p x s = Some s' \<and> lru_ok s' (ys @ x # zs) \<and> lru_same s s' \<and> access_counter s' = access_counter s \<and>
    clean_start_ccp s' = (if clean_start_ccp s = Some p then Some x else clean_start_ccp s)"
proof -
  let ?a = "last (head_ccp # ys)" and ?b = "hd (zs @ [tail_ccp])"
  obtain us a b vs where full: "head_ccp # ys @ p # zs @ [tail_ccp] = us @ a # p # b # vs"
    and rest: "head_ccp # ys @ zs @ [tail_ccp] = us @ a # b # vs" and b: "b = ?b" "b # vs = zs @ [tail_ccp]"
    and a: "us @ [a] = head_ccp # ys"
    by (rule around)
  have a': "a = ?a" using arg_cong [OF a, of last] by simp
  have ptr: "lru_prev (pg s p) = Some ?a" "lru_next (pg s p) = Some ?b"
    using lru_okD(1) [OF ok] linked_at(2) [of _ _ us a p "b # vs"] linked_at(1) [of _ _ "us @ [a]" p b vs]
    unfolding lru_linked_def append_assoc append_Cons full a' [symmetric] b(1) [symmetric] by simp_all
  have dis: "distinct (us @ a # p # b # vs)" "x \<notin> set (us @ a # p # b # vs)"
    using x lru_okD(2) [OF ok] unfolding full [symmetric] by auto
  then have neq: "?a \<noteq> p" "?b \<noteq> p" "?a \<noteq> ?b" "?a \<noteq> x" "?b \<noteq> x" "x \<noteq> p" unfolding a' [symmetric] b(1) [symmetric] by auto
  obtain s1 where s1: "DetachLru p s = Some s1" "lru_ok s1 (ys @ zs)" "lru_same s s1" "access_counter s1 = access_counter s"
    "clean_start_ccp s1 = (if clean_start_ccp s = Some p then Some ?b else clean_start_ccp s)"
    using DetachLru_ok [OF ok] by blast
  have nx1: "lru_next (pg s1 c) = (if c = p then None else if c = ?a then Some ?b else lru_next (pg s c))"
    and pv1: "lru_prev (pg s1 c) = (if c = p then None else if c = ?b then Some ?a else lru_prev (pg s c))" for c
    using s1(1) neq by (auto simp: DetachLru_def ptr Let_def upd_page_def)
  let ?t = "upd_page p (\<lambda>q. q\<lparr>lru_prev := None, lru_next := None\<rparr>) s"
  let ?t2 = "if clean_start_ccp ?t = Some p then ?t\<lparr>clean_start_ccp := Some x\<rparr> else ?t"
  let ?s' = "upd_page x (\<lambda>q. q\<lparr>lru_next := Some ?b, lru_prev := Some ?a\<rparr>) (upd_page ?b (\<lambda>q. q\<lparr>lru_prev := Some x\<rparr>)
               (upd_page ?a (\<lambda>q. q\<lparr>lru_next := Some x\<rparr>) ?t2))"
  have rep: "ReplaceLru p x s = Some ?s'" by (simp add: ReplaceLru_def ptr Let_def)
  have pgt: "pg ?t2 = (pg s)(p := (pg s p)\<lparr>lru_prev := None, lru_next := None\<rparr>)" by (simp add: upd_page_def)
  have ok': "lru_ok ?s' (ys @ x # zs)"
  proof (rule lru_link [OF s1(2)])
    show "x \<notin> set (head_ccp # (ys @ zs) @ [tail_ccp])" using x by auto
    show "clean_start_ccp ?s' = Some c \<Longrightarrow> clean_start_ccp s1 = Some c \<or> c = x" for c using s1(5) by (auto split: if_splits)
  qed (use neq in \<open>auto simp: upd_page_def pgt nx1 pv1\<close>)
  have same: "lru_same s ?s'" using neq by (simp add: lru_same_def upd_page_def pgt)
  have "access_counter ?s' = access_counter s" "clean_start_ccp ?s' = (if clean_start_ccp s = Some p then Some x else clean_start_ccp s)"
    by simp_all
  then show ?thesis using rep ok' same by (intro exI [of _ ?s'] conjI)
qed

section \<open>Histories\<close>

text \<open>
  The operations of the list: an access, taking a page out, putting a new page behind another one,
  replacing a page by its copy, which takes over the access time, and noting the page at which the next
  cleaning starts, a page of the list, the tail or none.
\<close>

definition ResetCleanStart :: "nat option \<Rightarrow> 'p lru_state \<Rightarrow> 'p lru_state" where
  "ResetCleanStart ccp s = s\<lparr>clean_start_ccp := ccp\<rparr>"

datatype lru_op = Access nat bool | Detach nat | Follow nat nat | Replace nat nat | StartAt "nat option"

primrec lru_exec :: "lru_op \<Rightarrow> 'a LruPage_scheme lru_state \<Rightarrow> 'a LruPage_scheme lru_state option" where
  "lru_exec (Access p em) s = UpdateLruList p em s"
| "lru_exec (Detach p) s = DetachLru p s"
| "lru_exec (Follow p q) s = lru_insert_after p q s"
| "lru_exec (Replace p q) s = ReplaceLru p q (upd_page q (\<lambda>n. n\<lparr>last_access_ts := last_access_ts (pg s p)\<rparr>) s)"
| "lru_exec (StartAt c) s = Some (ResetCleanStart c s)"

primrec lru_spec :: "(nat \<Rightarrow> bool) \<Rightarrow> lru_op \<Rightarrow> nat list \<times> nat option \<Rightarrow> nat list \<times> nat option" where
  "lru_spec data (Access p em) v = (if data p then lru_use p em v else v)"
| "lru_spec data (Detach p) v = lru_del p v"
| "lru_spec data (Follow p q) v = (concat (map (\<lambda>a. if a = p then [p, q] else [a]) (fst v)), snd v)"
| "lru_spec data (Replace p q) v =
     (map (\<lambda>a. if a = p then q else a) (fst v), map_option (\<lambda>a. if a = p then q else a) (snd v))"
| "lru_spec data (StartAt c) v = (fst v, c)"

primrec lru_guard :: "lru_op \<Rightarrow> nat list \<Rightarrow> bool" where
  "lru_guard (Access p em) ps \<longleftrightarrow> p \<notin> {head_ccp, tail_ccp}"
| "lru_guard (Detach p) ps \<longleftrightarrow> p \<in> set ps"
| "lru_guard (Follow p q) ps \<longleftrightarrow> p \<in> set ps \<and> q \<notin> set (head_ccp # ps @ [tail_ccp])"
| "lru_guard (Replace p q) ps \<longleftrightarrow> p \<in> set ps \<and> q \<notin> set (head_ccp # ps @ [tail_ccp])"
| "lru_guard (StartAt c) ps \<longleftrightarrow> (case c of None \<Rightarrow> True | Some a \<Rightarrow> a \<in> set (ps @ [tail_ccp]))"

fun lru_run :: "lru_op list \<Rightarrow> 'a LruPage_scheme lru_state \<Rightarrow> 'a LruPage_scheme lru_state option" where
  "lru_run [] s = Some s"
| "lru_run (x # xs) s = (case lru_exec x s of None \<Rightarrow> None | Some s' \<Rightarrow> lru_run xs s')"

fun lru_valid :: "(nat \<Rightarrow> bool) \<Rightarrow> lru_op list \<Rightarrow> nat list \<times> nat option \<Rightarrow> bool" where
  "lru_valid data [] v \<longleftrightarrow> True"
| "lru_valid data (x # xs) v \<longleftrightarrow> lru_guard x (fst v) \<and> lru_valid data xs (lru_spec data x v)"

definition recency :: "'a LruPage_scheme lru_state \<Rightarrow> nat list \<Rightarrow> bool" where
  "recency s ps \<longleftrightarrow> sorted (map (\<lambda>a. last_access_ts (pg s a)) ps) \<and> (\<forall>a \<in> set ps. last_access_ts (pg s a) \<le> access_counter s)"

definition lru_rel :: "(nat \<Rightarrow> bool) \<Rightarrow> 'a LruPage_scheme lru_state \<Rightarrow> nat list \<times> nat option \<Rightarrow> bool" where
  "lru_rel data s v \<longleftrightarrow> lru_ok s (fst v) \<and> clean_start_ccp s = snd v \<and>
     (\<forall>a. in_lru_type (parent_type (pg s a)) = data a) \<and> recency s (fst v)"

lemma word_less_succ: "(x :: u64) \<noteq> - 1 \<Longrightarrow> x < x + 1"
proof -
  assume "x \<noteq> - 1"
  then have "1 + x \<noteq> 0" by (metis add.commute eq_neg_iff_add_eq_0)
  then show ?thesis using unatSuc [of x] by (simp add: word_less_nat_alt add.commute)
qed

text \<open>A page that takes over the access time of a page of the list may stand behind it or in its place.\<close>

lemma recency_copy:
  assumes rec: "recency s (ys @ p # zs)" and q: "q \<notin> set (ys @ p # zs)"
    and ts: "\<And>a. last_access_ts (pg s' a) = (if a = q then last_access_ts (pg s p) else last_access_ts (pg s a))"
    and cnt: "access_counter s' = access_counter s"
  shows "recency s' (ys @ p # q # zs)" "recency s' (ys @ q # zs)"
proof -
  have meq: "map (\<lambda>a. last_access_ts (pg s' a)) ys = map (\<lambda>a. last_access_ts (pg s a)) ys"
    "map (\<lambda>a. last_access_ts (pg s' a)) zs = map (\<lambda>a. last_access_ts (pg s a)) zs"
    "last_access_ts (pg s' p) = last_access_ts (pg s p)" "last_access_ts (pg s' q) = last_access_ts (pg s p)"
    using q by (auto simp: ts)
  have le: "\<forall>a \<in> set ys \<union> set zs. last_access_ts (pg s' a) \<le> access_counter s" using rec q by (auto simp: recency_def ts)
  show "recency s' (ys @ p # q # zs)" "recency s' (ys @ q # zs)"
    unfolding recency_def map_append list.map meq cnt
    using rec le by (simp_all add: recency_def sorted_append meq)
qed

lemma Access_rel:
  assumes rel: "lru_rel data s v" and g: "p \<noteq> head_ccp" "p \<noteq> tail_ccp" and room: "access_counter s \<noteq> - 1"
  shows "\<exists>s'. UpdateLruList p em s = Some s' \<and> lru_rel data s' (lru_spec data (Access p em) v) \<and>
    access_counter s' \<le> access_counter s + 1"
proof (cases "data p")
  case True
  obtain ps cs where v: "v = (ps, cs)" by (cases v)
  have ok: "lru_ok s ps" and cs: "clean_start_ccp s = cs" and ty: "in_lru_type (parent_type (pg s p))" and rec: "recency s ps"
    using rel True by (auto simp: lru_rel_def v)
  obtain s' where s': "UpdateLruList p em s = Some s'" "lru_ok s' (remove1 p ps @ [p])" "lru_same (touch p s) s'"
    "access_counter s' = access_counter s + 1" "(remove1 p ps @ [p], clean_start_ccp s') = lru_use p em (ps, clean_start_ccp s)"
    using UpdateLruList_refines [OF ok g ty] by blast
  have dis: "distinct ps" using lru_okD(2) [OF ok] by simp
  have ts: "last_access_ts (pg s' a) = (if a = p then access_counter s + 1 else last_access_ts (pg s a))" for a
    using lru_sameD(1) [OF s'(3), of a] by (simp add: touch_def upd_page_def)
  have less: "access_counter s < access_counter s + 1" using room by (rule word_less_succ)
  have srt: "sorted (map (\<lambda>a. last_access_ts (pg s a)) (remove1 p ps))"
    using rec by (simp add: recency_def sorted_map_remove1)
  have bound: "a \<in> set (remove1 p ps) \<Longrightarrow> a \<noteq> p \<and> last_access_ts (pg s a) \<le> access_counter s" for a
    using rec dis by (auto simp: recency_def)
  have meq: "map (\<lambda>a. last_access_ts (pg s' a)) (remove1 p ps) = map (\<lambda>a. last_access_ts (pg s a)) (remove1 p ps)"
    using dis by (auto simp: ts)
  have "recency s' (remove1 p ps @ [p])"
    unfolding recency_def map_append meq sorted_append
    using srt bound less by (auto simp: ts s'(4) intro: order_trans [OF _ less_imp_le])
  moreover have "parent_type (pg s' a) = parent_type (pg s a)" for a
    using lru_sameD(4) [OF s'(3), of a] by (simp add: touch_def upd_page_def)
  ultimately have "lru_rel data s' (remove1 p ps @ [p], clean_start_ccp s')"
    using rel s'(2) by (simp add: lru_rel_def)
  then show ?thesis using s' True cs by (simp add: v)
next
  case False
  then have "UpdateLruList p em s = Some s" using rel by (simp add: UpdateLruList_def lru_rel_def)
  then show ?thesis using False rel word_less_succ [OF room] by simp
qed

lemma Detach_rel:
  assumes rel: "lru_rel data s v" and g: "p \<in> set (fst v)"
  shows "\<exists>s'. DetachLru p s = Some s' \<and> lru_rel data s' (lru_del p v) \<and> access_counter s' = access_counter s"
proof -
  obtain ps cs where v: "v = (ps, cs)" by (cases v)
  obtain s' where s': "DetachLru p s = Some s'" "lru_ok s' (remove1 p ps)" "lru_same s s'" "access_counter s' = access_counter s"
    "(remove1 p ps, clean_start_ccp s') = lru_del p (ps, clean_start_ccp s)"
    using DetachLru_refines [of s ps p] rel g by (auto simp: lru_rel_def v)
  have "recency s' (remove1 p ps)"
    using rel by (auto simp: recency_def lru_rel_def v lru_sameD [OF s'(3)] s'(4) sorted_map_remove1 dest: notin_set_remove1)
  then have "lru_rel data s' (remove1 p ps, clean_start_ccp s')"
    using rel s'(2) by (simp add: lru_rel_def lru_sameD [OF s'(3)])
  then show ?thesis using s' rel by (simp add: lru_rel_def v)
qed

lemma concat_follow: "p \<notin> set ys \<Longrightarrow> concat (map (\<lambda>a. if a = p then [p, q] else [a]) ys) = ys"
  by (induction ys) auto

lemma map_replace: "p \<notin> set ys \<Longrightarrow> map (\<lambda>a. if a = p then q else a) ys = ys"
  by (induction ys) auto

lemma Follow_rel:
  assumes rel: "lru_rel data s v" and g: "lru_guard (Follow p q) (fst v)"
  shows "\<exists>s'. lru_insert_after p q s = Some s' \<and> lru_rel data s' (lru_spec data (Follow p q) v) \<and> access_counter s' = access_counter s"
proof -
  obtain ps cs where v: "v = (ps, cs)" by (cases v)
  obtain ys zs where ps: "ps = ys @ p # zs" using g by (auto simp: v dest: split_list)
  have ok: "lru_ok s (ys @ p # zs)" using rel by (simp add: lru_rel_def v ps)
  then have notin: "p \<notin> set ys" "p \<notin> set zs" using lru_okD(2) [OF ok] by auto
  have q: "q \<notin> set (head_ccp # (ys @ p # zs) @ [tail_ccp])" using g by (simp add: v ps)
  obtain s' where s': "lru_insert_after p q s = Some s'" "lru_ok s' (ys @ p # q # zs)"
    "lru_same (upd_page q (\<lambda>n. n\<lparr>last_access_ts := last_access_ts (pg s p)\<rparr>) s) s'" "access_counter s' = access_counter s"
    "clean_start_ccp s' = clean_start_ccp s"
    using lru_insert_after_ok [OF ok q] by blast
  have ts: "last_access_ts (pg s' a) = (if a = q then last_access_ts (pg s p) else last_access_ts (pg s a))" for a
    using lru_sameD(1) [OF s'(3), of a] by (simp add: upd_page_def)
  have ty: "parent_type (pg s' a) = parent_type (pg s a)" for a using lru_sameD(4) [OF s'(3), of a] by (simp add: upd_page_def)
  have "recency s' (ys @ p # q # zs)" using recency_copy(1) [OF _ _ ts s'(4)] rel q by (simp add: lru_rel_def v ps)
  moreover have "lru_spec data (Follow p q) v = (ys @ p # q # zs, cs)"
    using notin by (simp add: v ps concat_follow)
  ultimately show ?thesis using rel s' by (simp add: lru_rel_def v ty)
qed

lemma Replace_rel:
  assumes rel: "lru_rel data s v" and g: "lru_guard (Replace p q) (fst v)"
  shows "\<exists>s'. lru_exec (Replace p q) s = Some s' \<and> lru_rel data s' (lru_spec data (Replace p q) v) \<and> access_counter s' = access_counter s"
proof -
  obtain ps cs where v: "v = (ps, cs)" by (cases v)
  obtain ys zs where ps: "ps = ys @ p # zs" using g by (auto simp: v dest: split_list)
  let ?s = "upd_page q (\<lambda>n. n\<lparr>last_access_ts := last_access_ts (pg s p)\<rparr>) s"
  have "lru_ok s (ys @ p # zs)" using rel by (simp add: lru_rel_def v ps)
  then have ok: "lru_ok ?s (ys @ p # zs)" by (rule lru_ok_cong) (simp_all add: upd_page_def)
  then have notin: "p \<notin> set ys" "p \<notin> set zs" using lru_okD(2) [OF ok] by auto
  have q: "q \<notin> set (head_ccp # (ys @ p # zs) @ [tail_ccp])" using g by (simp add: v ps)
  obtain s' where s': "ReplaceLru p q ?s = Some s'" "lru_ok s' (ys @ q # zs)" "lru_same ?s s'" "access_counter s' = access_counter ?s"
    "clean_start_ccp s' = (if clean_start_ccp ?s = Some p then Some q else clean_start_ccp ?s)"
    using ReplaceLru_ok [OF ok q] by blast
  have ts: "last_access_ts (pg s' a) = (if a = q then last_access_ts (pg s p) else last_access_ts (pg s a))" for a
    using lru_sameD(1) [OF s'(3), of a] by (simp add: upd_page_def)
  have ty: "parent_type (pg s' a) = parent_type (pg s a)" for a using lru_sameD(4) [OF s'(3), of a] by (simp add: upd_page_def)
  have "recency s' (ys @ q # zs)" using recency_copy(2) [OF _ _ ts] s'(4) rel q by (simp add: lru_rel_def v ps)
  moreover have "lru_spec data (Replace p q) v = (ys @ q # zs, clean_start_ccp s')"
    using notin rel s'(5) by (cases cs) (auto simp: v ps map_replace lru_rel_def)
  ultimately show ?thesis using rel s' by (simp add: lru_rel_def v ty)
qed

lemma lru_exec_rel:
  assumes "lru_rel data s v" "lru_guard x (fst v)" "access_counter s \<noteq> - 1"
  shows "\<exists>s'. lru_exec x s = Some s' \<and> lru_rel data s' (lru_spec data x v) \<and> access_counter s' \<le> access_counter s + 1"
proof (cases x)
  case (Access p em)
  then show ?thesis using Access_rel [OF assms(1), of p em] assms(2,3) by simp
next
  case (Detach p)
  then show ?thesis using Detach_rel [OF assms(1), of p] assms(2) word_less_succ [OF assms(3)] by fastforce
next
  case (Follow p q)
  then show ?thesis using Follow_rel [OF assms(1), of p q] assms(2) word_less_succ [OF assms(3)] by fastforce
next
  case (Replace p q)
  then show ?thesis using Replace_rel [OF assms(1), of p q] assms(2) word_less_succ [OF assms(3)] by fastforce
next
  case (StartAt c)
  then show ?thesis
    using assms(1,2) word_less_succ [OF assms(3)]
    by (cases c) (auto simp: ResetCleanStart_def lru_rel_def lru_ok_def lru_linked_def recency_def)
qed

lemma lru_run_rel:
  assumes "lru_rel data s v" "lru_valid data xs v" "unat (access_counter s) + length xs < 2 ^ 64"
  shows "\<exists>s'. lru_run xs s = Some s' \<and> lru_rel data s' (fold (lru_spec data) xs v)"
  using assms
proof (induction xs arbitrary: s v)
  case (Cons x xs)
  have room: "access_counter s \<noteq> - 1" using Cons.prems(3) by (auto simp: unsigned_minus_1_eq_mask mask_eq_exp_minus_1)
  obtain s1 where s1: "lru_exec x s = Some s1" "lru_rel data s1 (lru_spec data x v)" "access_counter s1 \<le> access_counter s + 1"
    using lru_exec_rel [OF Cons.prems(1) _ room, of x] Cons.prems(2) by auto
  have "1 + access_counter s \<noteq> 0" using room by (metis add.commute eq_neg_iff_add_eq_0)
  then have "unat (access_counter s1) \<le> Suc (unat (access_counter s))"
    using s1(3) unatSuc [of "access_counter s"] by (simp add: word_le_nat_alt add.commute)
  then show ?case using Cons.IH [OF s1(2)] Cons.prems(2,3) s1(1) by simp
qed simp

text \<open>
  C31: The links of the pages of a shard are a recency list. Along every history of accesses, removals,
  insertions behind a page, replacements and choices of the page where cleaning resumes no null pointer is
  followed; the forward and backward links
  between the two sentinels form the list that the recency specification gives, pages outside it have no
  links, it is ordered by access time, and cleaning resumes at a page of it or at the tail.
\<close>
theorem lru_refines_recency:
  assumes "\<And>a. lru_next (blank a) = None \<and> lru_prev (blank a) = None"
    and "lru_valid (\<lambda>a. in_lru_type (parent_type (blank a))) xs ([], None)" "length xs < 2 ^ 64"
  shows "\<exists>s ps cs. lru_run xs (lru_init blank) = Some s \<and> (ps, cs) = fold (lru_spec (\<lambda>a. in_lru_type (parent_type (blank a)))) xs ([], None) \<and>
    linked (\<lambda>a. lru_next (pg s a)) (\<lambda>a. lru_prev (pg s a)) (head_ccp # ps @ [tail_ccp]) \<and> distinct (head_ccp # ps @ [tail_ccp]) \<and>
    (\<forall>a. a \<notin> set (head_ccp # ps @ [tail_ccp]) \<longrightarrow> lru_next (pg s a) = None \<and> lru_prev (pg s a) = None) \<and>
    clean_start_ccp s = cs \<and> (\<forall>a. cs = Some a \<longrightarrow> a \<in> set (ps @ [tail_ccp])) \<and>
    sorted (map (\<lambda>a. last_access_ts (pg s a)) ps)"
proof -
  let ?d = "\<lambda>a. in_lru_type (parent_type (blank a))"
  have "lru_rel ?d (lru_init blank) ([], None)"
    using lru_init_ok [OF assms(1)] by (simp add: lru_rel_def recency_def lru_init_def)
  moreover have "unat (access_counter (lru_init blank)) + length xs < 2 ^ 64" using assms(3) by (simp add: lru_init_def)
  ultimately obtain s where s: "lru_run xs (lru_init blank) = Some s" "lru_rel ?d s (fold (lru_spec ?d) xs ([], None))"
    using lru_run_rel [OF _ assms(2)] by blast
  obtain ps cs where v: "fold (lru_spec ?d) xs ([], None) = (ps, cs)" by fastforce
  have rel: "lru_ok s ps" "clean_start_ccp s = cs" "recency s ps" using s(2) by (simp_all add: lru_rel_def v)
  show ?thesis
    using s(1) v rel(2,3) lru_okD(1,2,5,6) [OF rel(1)] by (auto simp: recency_def lru_linked_def)
qed

definition blank_page :: LruPage where
  "blank_page = \<lparr>lru_prev = None, lru_next = None, parent_type = Primary, last_access_ts = 0, last_dirty_commit_ts = 0,
     smallest_ttl = - 1\<rparr>"

theorem lru_refines_recency_witness:
  "\<exists>s. lru_run [Access 5 True, Access 6 True, Follow 5 7, StartAt (Some 6), Access 5 False, Replace 7 8, Detach 6] (lru_init (\<lambda>_. blank_page)) = Some s \<and>
     clean_start_ccp s = Some 5 \<and> linked (\<lambda>a. lru_next (pg s a)) (\<lambda>a. lru_prev (pg s a)) [head_ccp, 8, 5, tail_ccp]"
proof -
  have v: "lru_valid (\<lambda>a. in_lru_type (parent_type blank_page)) [Access 5 True, Access 6 True, Follow 5 7, StartAt (Some 6), Access 5 False, Replace 7 8, Detach 6] ([], None)"
    "fold (lru_spec (\<lambda>a. in_lru_type (parent_type blank_page))) [Access 5 True, Access 6 True, Follow 5 7, StartAt (Some 6), Access 5 False, Replace 7 8, Detach 6] ([], None) = ([8, 5], Some 5)"
    by (simp_all add: blank_page_def in_lru_type_def lru_use_def lru_del_def lru_succ_def head_ccp_def tail_ccp_def)
  show ?thesis
    using lru_refines_recency [of "\<lambda>_. blank_page", OF _ v(1)] unfolding v(2) by (auto simp: blank_page_def)
qed

end
