(* ===== verification/Cc_Page.thy ===== *)
theory Cc_Page
  imports Lru_List Mvcc_Entry
begin

text \<open>
  The pages of a cc map: \<open>CcPage\<close> of \<open>include/cc/cc_entry.h\<close> and the page structure of \<open>TemplateCcMap\<close>
  (\<open>include/cc/template_cc_map.h\<close>). A cc map is an ordered map \<open>ccmp_\<close> from the smallest key of a page to
  the page; a page holds up to 64 keys in order with the entries of the keys. The pages are chained in key
  order between two sentinel pages and are in the LRU list of the shard.

  Pages and entries live in stores by address; a destroyed page keeps its last contents there, and
  addresses are not reused. Keys are a linear order; iterators of \<open>ccmp_\<close> are positions in it. \<open>ttl_of\<close>
  is \<open>HasTTL\<close> and \<open>GetTTL\<close> of a payload, \<open>heap_full\<close> whether the heap of the shard is full.
\<close>

section \<open>Pages\<close>

record 'k CcPage = LruPage +
  pg_keys :: "'k list"
  pg_entries :: "nat list"
  prev_page :: "nat option"
  next_page :: "nat option"

definition split_threshold :: nat where "split_threshold = 64"
definition merge_threshold :: nat where "merge_threshold = split_threshold div 2"

definition lower_bound :: "'k::linorder list \<Rightarrow> 'k \<Rightarrow> nat" where
  "lower_bound ks key = length (takeWhile (\<lambda>k. k < key) ks)"

definition upper_bound :: "'k::linorder list \<Rightarrow> 'k \<Rightarrow> nat" where
  "upper_bound ks key = length (takeWhile (\<lambda>k. k \<le> key) ks)"

definition insert_at :: "nat \<Rightarrow> 'a \<Rightarrow> 'a list \<Rightarrow> 'a list" where
  "insert_at i x xs = take i xs @ x # drop i xs"

definition remove_at :: "nat \<Rightarrow> 'a list \<Rightarrow> 'a list" where
  "remove_at i xs = take i xs @ drop (Suc i) xs"

definition page_Size :: "'k CcPage \<Rightarrow> nat" where
  "page_Size p = length (pg_keys p)"

definition page_Full :: "'k CcPage \<Rightarrow> bool" where
  "page_Full p \<longleftrightarrow> page_Size p = split_threshold"

definition page_Find :: "'k::linorder \<Rightarrow> 'k CcPage \<Rightarrow> nat" where
  "page_Find key p =
     (let ks = pg_keys p in
      if ks = [] \<or> key < hd ks \<or> last ks < key then length ks
      else let i = lower_bound ks key in if i \<noteq> length ks \<and> ks ! i = key then i else length ks)"

definition page_Emplace :: "'k::linorder \<Rightarrow> nat \<Rightarrow> 'k CcPage \<Rightarrow> nat \<times> 'k CcPage" where
  "page_Emplace key e p =
     (let ks = pg_keys p;
          pos = (if length ks > 0 \<and> last ks < key then length ks else lower_bound ks key)
      in (pos, p\<lparr>pg_keys := insert_at pos key ks, pg_entries := insert_at pos e (pg_entries p)\<rparr>))"

text \<open>What \<open>Split\<close> gathers from the entries that move: their newest commit and smallest time to live.\<close>

definition split_step :: "('v \<Rightarrow> u64 option) \<Rightarrow> 'v CcEntry \<Rightarrow> u64 \<times> u64 \<Rightarrow> u64 \<times> u64" where
  "split_step ttl_of e = (\<lambda>(ts, ttl).
     (max ts (cce_CommitTs e),
      if ttl \<noteq> 0
      then if cce_PayloadStatus e = Deleted then 0
           else if cce_PayloadStatus e = Normal
                then (case Option.bind (cur_payload e) ttl_of of None \<Rightarrow> ttl | Some t \<Rightarrow> min ttl t)
                else ttl
      else ttl))"

definition page_Split ::
    "('v \<Rightarrow> u64 option) \<Rightarrow> (nat \<Rightarrow> 'v CcEntry) \<Rightarrow> 'k CcPage \<Rightarrow> 'k list \<times> nat list \<times> u64 \<times> u64 \<times> 'k CcPage" where
  "page_Split ttl_of cs p =
     (let split_pos = length (pg_keys p) div 2;
          (ts, ttl) = fold (\<lambda>a. split_step ttl_of (cs a)) (drop split_pos (pg_entries p)) (0, - 1)
      in (drop split_pos (pg_keys p), drop split_pos (pg_entries p), ts, ttl,
          p\<lparr>pg_keys := take split_pos (pg_keys p), pg_entries := take split_pos (pg_entries p)\<rparr>))"

definition page_FindEntry :: "nat \<Rightarrow> 'k CcPage \<Rightarrow> nat" where
  "page_FindEntry e p = length (takeWhile (\<lambda>a. a \<noteq> e) (pg_entries p))"

definition page_Remove :: "nat \<Rightarrow> 'k CcPage \<Rightarrow> 'k CcPage" where
  "page_Remove i p = p\<lparr>pg_keys := remove_at i (pg_keys p), pg_entries := remove_at i (pg_entries p)\<rparr>"

section \<open>The map of pages\<close>

record ('k, 'v, 'o, 'c) ccmap =
  lst :: "'k CcPage lru_state"
  next_pg :: nat
  cces :: "nat \<Rightarrow> 'v CcEntry"
  next_cce :: nat
  ccmp :: "('k \<times> nat) list"
  neg_inf_page :: nat
  pos_inf_page :: nat
  ccm_size :: nat
  ccm_type :: TableType
  csh :: "('o, 'c) shard"

definition page :: "('k, 'v, 'o, 'c) ccmap \<Rightarrow> nat \<Rightarrow> 'k CcPage" where
  "page s a = pg (lst s) a"

definition mod_page :: "nat \<Rightarrow> ('k CcPage \<Rightarrow> 'k CcPage) \<Rightarrow> ('k, 'v, 'o, 'c) ccmap \<Rightarrow> ('k, 'v, 'o, 'c) ccmap" where
  "mod_page a f s = s\<lparr>lst := upd_page a f (lst s)\<rparr>"

text \<open>Positions in the map: the two sentinels or a position of a page.\<close>

datatype cursor = CBegin | CEnd | CAt nat nat

datatype 'k bound = NegativeInfinity | PositiveInfinity | Fin 'k

definition ccmp_insert :: "'k::linorder \<Rightarrow> nat \<Rightarrow> ('k \<times> nat) list \<Rightarrow> ('k \<times> nat) list" where
  "ccmp_insert k p m =
     (if k \<in> fst ` set m then m else insert_at (lower_bound (map fst m) k) (k, p) m)"

text \<open>The constructor of a page between two others.\<close>

definition new_page ::
    "'k list \<Rightarrow> nat list \<Rightarrow> nat option \<Rightarrow> nat option \<Rightarrow> ('k, 'v, 'o, 'c) ccmap \<Rightarrow> nat \<times> ('k, 'v, 'o, 'c) ccmap" where
  "new_page ks es prev nx s =
     (let a = next_pg s;
          p = \<lparr>lru_prev = None, lru_next = None, parent_type = ccm_type s, last_access_ts = 0, last_dirty_commit_ts = 0,
               smallest_ttl = - 1, pg_keys = ks, pg_entries = es, prev_page = prev, next_page = nx\<rparr>;
          s1 = (mod_page a (\<lambda>_. p) s)\<lparr>next_pg := a + 1\<rparr>;
          s2 = (case prev of None \<Rightarrow> s1 | Some b \<Rightarrow> mod_page b (\<lambda>q. q\<lparr>next_page := Some a\<rparr>) s1);
          s3 = (case nx of None \<Rightarrow> s2 | Some b \<Rightarrow> mod_page b (\<lambda>q. q\<lparr>prev_page := Some a\<rparr>) s2)
      in (a, s3))"

text \<open>The entry \<open>neg_inf_\<close> has the first address.\<close>

definition neg_inf_cce :: nat where "neg_inf_cce = 0"

text \<open>The sentinel pages of a new map are a page of their own each, chained to each other.\<close>

definition sentinel_page :: "TableType \<Rightarrow> 'k CcPage" where
  "sentinel_page ty =
     \<lparr>lru_prev = None, lru_next = None, parent_type = ty, last_access_ts = 0, last_dirty_commit_ts = 0,
      smallest_ttl = - 1, pg_keys = [], pg_entries = [], prev_page = None, next_page = None\<rparr>"

definition ccm_init :: "TableType \<Rightarrow> ('o, 'c) shard \<Rightarrow> ('k, 'v, 'o, 'c) ccmap" where
  "ccm_init ty sh =
     (let neg = tail_ccp + 1; pos = tail_ccp + 2
      in \<lparr>lst = upd_page neg (\<lambda>p. p\<lparr>prev_page := None, next_page := Some pos\<rparr>)
                 (upd_page pos (\<lambda>p. p\<lparr>prev_page := Some neg, next_page := None\<rparr>) (lru_init (\<lambda>_. sentinel_page ty))),
          next_pg = pos + 1, cces = (\<lambda>_. CcEntry_new), next_cce = neg_inf_cce + 1, ccmp = [], neg_inf_page = neg, pos_inf_page = pos,
          ccm_size = 0, ccm_type = ty, csh = sh\<rparr>)"

definition UpdateCcPage :: "nat \<Rightarrow> nat \<Rightarrow> ('k, 'v, 'o, 'c) ccmap \<Rightarrow> ('k, 'v, 'o, 'c) ccmap" where
  "UpdateCcPage a e s =
     (case lock_of (csh s) e of
        None \<Rightarrow> s
      | Some lk \<Rightarrow> s\<lparr>csh := upd_lock lk (\<lambda>k. k\<lparr>lk_page := Some a\<rparr>) (csh s)\<rparr>)"

definition TryUpdatePageKey :: "nat \<Rightarrow> ('k::linorder, 'v, 'o, 'c) ccmap \<Rightarrow> nat \<times> ('k, 'v, 'o, 'c) ccmap" where
  "TryUpdatePageKey i s =
     (let (k, p) = ccmp s ! i; fk = hd (pg_keys (page s p)) in
      if k \<noteq> fk
      then let m = remove_at i (ccmp s); m' = ccmp_insert fk p m in (lower_bound (map fst m) fk, s\<lparr>ccmp := m'\<rparr>)
      else (i, s))"

definition lift_lru ::
    "('k CcPage lru_state \<Rightarrow> 'k CcPage lru_state option) \<Rightarrow> ('k, 'v, 'o, 'c) ccmap \<Rightarrow> ('k, 'v, 'o, 'c) ccmap option" where
  "lift_lru f s = map_option (\<lambda>l. s\<lparr>lst := l\<rparr>) (f (lst s))"

section \<open>Find or emplace\<close>

text \<open>The page before the upper bound of the key.\<close>

definition target_index :: "'k::linorder \<Rightarrow> ('k, 'v, 'o, 'c) ccmap \<Rightarrow> nat" where
  "target_index key s = (let ub = upper_bound (map fst (ccmp s)) key in if ub \<noteq> 0 then ub - 1 else ub)"

text \<open>A full page passes a key outside its range to a neighbour, which is created at the ends of the map.\<close>

definition choose_page :: "'k::linorder \<Rightarrow> nat \<Rightarrow> ('k, 'v, 'o, 'c) ccmap \<Rightarrow> nat \<times> ('k, 'v, 'o, 'c) ccmap" where
  "choose_page key i s =
     (let p = snd (ccmp s ! i); ks = pg_keys (page s p) in
      if page_Full (page s p)
      then if last ks < key
           then if i + 1 = length (ccmp s)
                then let (a, s1) = new_page [] [] (Some p) (next_page (page s p)) s
                     in (lower_bound (map fst (ccmp s)) key, s1\<lparr>ccmp := ccmp_insert key a (ccmp s)\<rparr>)
                else (i + 1, s)
           else if key < hd ks
                then if i = 0
                     then let (a, s1) = new_page [] [] (prev_page (page s p)) (Some p) s
                          in (lower_bound (map fst (ccmp s)) key, s1\<lparr>ccmp := ccmp_insert key a (ccmp s)\<rparr>)
                     else (i - 1, s)
                else (i, s)
      else (i, s))"

definition split_page ::
    "('v \<Rightarrow> u64 option) \<Rightarrow> 'k::linorder \<Rightarrow> nat \<Rightarrow> ('k, 'v, 'o, 'c) ccmap \<Rightarrow> (nat \<times> ('k, 'v, 'o, 'c) ccmap) option" where
  "split_page ttl_of key i s =
     (let p = snd (ccmp s ! i);
          (ks, es, ts, ttl, q) = page_Split ttl_of (cces s) (page s p);
          s1 = mod_page p (\<lambda>_. q) s;
          (a, s2) = new_page ks es (Some p) (next_page (page s1 p)) s1;
          s3 = s2\<lparr>ccmp := ccmp_insert (hd ks) a (ccmp s2)\<rparr>;
          s4 = mod_page a (\<lambda>r. r\<lparr>last_dirty_commit_ts := ts, smallest_ttl := ttl\<rparr>) s3;
          s5 = fold (UpdateCcPage a) es s4;
          j = lower_bound (map fst (ccmp s2)) (hd ks)
      in map_option (\<lambda>s6. (if hd ks \<le> key then j else j - 1, s6))
           (if lru_next (page s5 p) \<noteq> None then lift_lru (lru_insert_after p a) s5 else Some s5))"

definition emplace_in ::
    "'k::linorder \<Rightarrow> nat \<Rightarrow> ('k, 'v, 'o, 'c) ccmap \<Rightarrow> (cursor \<times> ('k, 'v, 'o, 'c) ccmap) option" where
  "emplace_in key i s =
     (let p = snd (ccmp s ! i);
          (pos, q) = page_Emplace key (next_cce s) (page s p);
          s1 = (mod_page p (\<lambda>_. q) s)\<lparr>cces := (cces s)(next_cce s := CcEntry_new), next_cce := next_cce s + 1\<rparr>;
          (j, s2) = TryUpdatePageKey i s1
      in map_option (\<lambda>s3. (CAt p pos, s3\<lparr>ccm_size := ccm_size s3 + 1\<rparr>)) (lift_lru (UpdateLruList p True) s2))"

definition FindEmplace ::
    "('v \<Rightarrow> u64 option) \<Rightarrow> bool \<Rightarrow> 'k::linorder bound \<Rightarrow> bool \<Rightarrow> bool \<Rightarrow> ('k, 'v, 'o, 'c) ccmap \<Rightarrow>
     (cursor \<times> bool \<times> ('k, 'v, 'o, 'c) ccmap) option" where
  "FindEmplace ttl_of heap_full b force_emplace read_only_req s =
     (case b of
        NegativeInfinity \<Rightarrow> Some (CBegin, False, s)
      | PositiveInfinity \<Rightarrow> Some (CEnd, False, s)
      | Fin key \<Rightarrow>
          if heap_full \<and> \<not> force_emplace \<and> \<not> IsMeta (ccm_type s) \<and> \<not> read_only_req then Some (CEnd, False, s)
          else let fail_if_not_found = heap_full \<and> read_only_req in
            if ccmp s = [] \<and> fail_if_not_found then Some (CEnd, False, s)
            else let s0 = (if ccmp s = []
                           then let (a, s1) = new_page [] [] (Some (neg_inf_page s)) (Some (pos_inf_page s)) s
                                in s1\<lparr>ccmp := ccmp_insert key a (ccmp s)\<rparr>
                           else s);
                     i = target_index key s0;
                     p = snd (ccmp s0 ! i);
                     idx = page_Find key (page s0 p)
                 in if idx < page_Size (page s0 p)
                    then map_option (\<lambda>s1. (CAt p idx, False, s1)) (lift_lru (UpdateLruList p False) s0)
                    else if fail_if_not_found then Some (CEnd, False, s0)
                    else let (i1, s1) = choose_page key i s0 in
                      Option.bind (if page_Full (page s1 (snd (ccmp s1 ! i1))) then split_page ttl_of key i1 s1 else Some (i1, s1))
                        (\<lambda>(i2, s2). map_option (\<lambda>(c, s3). (c, True, s3)) (emplace_in key i2 s2)))"

end
