(* ===== verification/Page_Shape.thy ===== *)
theory Page_Shape
  imports Cc_Page
begin

text \<open>
  The ordered contents of a map of pages: what a list of pages with their keys and entries stands for, and
  what finding, inserting and splitting do to it, without the links between the pages.
\<close>

section \<open>Searching sorted keys\<close>

lemma lower_bound_append: "(\<And>x. x \<in> set xs \<Longrightarrow> x < k) \<Longrightarrow> lower_bound (xs @ ys) k = length xs + lower_bound ys k"
  by (simp add: lower_bound_def takeWhile_append2)

lemma upper_bound_append: "(\<And>x. x \<in> set xs \<Longrightarrow> x \<le> k) \<Longrightarrow> upper_bound (xs @ ys) k = length xs + upper_bound ys k"
  by (simp add: upper_bound_def takeWhile_append2)

lemma lower_bound_stop [simp]: "ys = [] \<or> k \<le> hd ys \<Longrightarrow> lower_bound ys k = 0"
  by (cases ys) (auto simp: lower_bound_def)

lemma upper_bound_stop [simp]: "ys = [] \<or> k < hd ys \<Longrightarrow> upper_bound ys k = 0"
  by (cases ys) (auto simp: upper_bound_def)

lemma lower_bound_le: "lower_bound ks k \<le> length ks"
  by (simp add: lower_bound_def length_takeWhile_le)

lemma upper_bound_le: "upper_bound ks k \<le> length ks"
  by (simp add: upper_bound_def length_takeWhile_le)

text \<open>A sorted list splits at the lower bound.\<close>

lemma lower_bound_split:
  fixes ks :: "'k::linorder list"
  assumes "sorted_wrt (<) ks"
  shows "x \<in> set (take (lower_bound ks k) ks) \<Longrightarrow> x < k" "x \<in> set (drop (lower_bound ks k) ks) \<Longrightarrow> k \<le> x"
proof -
  have t: "take (lower_bound ks k) ks = takeWhile (\<lambda>x. x < k) ks" unfolding lower_bound_def by (rule takeWhile_eq_take [symmetric])
  have d: "drop (lower_bound ks k) ks = dropWhile (\<lambda>x. x < k) ks" unfolding lower_bound_def by (rule dropWhile_eq_drop [symmetric])
  show "x \<in> set (take (lower_bound ks k) ks) \<Longrightarrow> x < k" using set_takeWhileD [of x] by (auto simp: t)
  show "x \<in> set (drop (lower_bound ks k) ks) \<Longrightarrow> k \<le> x"
    using assms unfolding d by (induction ks) (force split: if_splits)+
qed

lemma upper_bound_split:
  fixes ks :: "'k::linorder list"
  assumes "sorted_wrt (<) ks"
  shows "x \<in> set (take (upper_bound ks k) ks) \<Longrightarrow> x \<le> k" "x \<in> set (drop (upper_bound ks k) ks) \<Longrightarrow> k < x"
proof -
  have t: "take (upper_bound ks k) ks = takeWhile (\<lambda>x. x \<le> k) ks" unfolding upper_bound_def by (rule takeWhile_eq_take [symmetric])
  have d: "drop (upper_bound ks k) ks = dropWhile (\<lambda>x. x \<le> k) ks" unfolding upper_bound_def by (rule dropWhile_eq_drop [symmetric])
  show "x \<in> set (take (upper_bound ks k) ks) \<Longrightarrow> x \<le> k" using set_takeWhileD [of x] by (auto simp: t)
  show "x \<in> set (drop (upper_bound ks k) ks) \<Longrightarrow> k < x"
    using assms unfolding d by (induction ks) (force split: if_splits)+
qed

lemma lower_bound_nth:
  fixes ks :: "'k::linorder list"
  assumes "sorted_wrt (<) ks" "i < length ks" "ks ! i = k"
  shows "lower_bound ks k = i"
proof -
  have ks: "ks = take i ks @ k # drop (Suc i) ks" using id_take_nth_drop [OF assms(2)] assms(3) by simp
  then have "\<And>x. x \<in> set (take i ks) \<Longrightarrow> x < k" using assms(1) sorted_wrt_append [of "(<)" "take i ks" "k # drop (Suc i) ks"] by auto
  then have "lower_bound (take i ks @ k # drop (Suc i) ks) k = i" using lower_bound_append [of "take i ks" k] assms(2) by simp
  then show ?thesis using ks by simp
qed

text \<open>\<open>CcPage::Find\<close> finds a key exactly if the page has it.\<close>

lemma page_Find_found:
  assumes "sorted_wrt (<) (pg_keys p)" "i < length (pg_keys p)" "pg_keys p ! i = k"
  shows "page_Find k p = i"
proof -
  have "pg_keys p \<noteq> []" using assms(2) by auto
  moreover have "\<not> k < hd (pg_keys p)"
    using assms sorted_wrt_nth_less [OF assms(1), of 0 i] calculation by (cases i) (auto simp: hd_conv_nth)
  moreover have "\<not> last (pg_keys p) < k"
  proof (cases "i = length (pg_keys p) - 1")
    case False
    then have "i < length (pg_keys p) - 1" using assms(2) by linarith
    then show ?thesis using sorted_wrt_nth_less [OF assms(1), of i "length (pg_keys p) - 1"] assms(3) calculation(1)
      by (auto simp: last_conv_nth)
  qed (use assms(3) calculation(1) in \<open>auto simp: last_conv_nth\<close>)
  ultimately show ?thesis using lower_bound_nth [OF assms] assms(2,3) by (simp add: page_Find_def)
qed

lemma page_Find_less:
  assumes "page_Find k p < page_Size p"
  shows "pg_keys p ! page_Find k p = k"
  using assms by (auto simp: page_Find_def page_Size_def Let_def split: if_splits)

lemma page_Find_none:
  assumes "k \<notin> set (pg_keys p)"
  shows "page_Find k p = page_Size p"
proof -
  have "page_Find k p \<le> page_Size p" using lower_bound_le [of "pg_keys p" k] by (simp add: page_Find_def page_Size_def Let_def)
  moreover have "\<not> page_Find k p < page_Size p" using page_Find_less [of k p] assms nth_mem [of "page_Find k p" "pg_keys p"]
    by (auto simp: page_Size_def)
  ultimately show ?thesis by simp
qed

section \<open>Contents of a map\<close>

definition all_keys :: "(nat \<Rightarrow> 'k list) \<Rightarrow> ('k \<times> nat) list \<Rightarrow> 'k list" where
  "all_keys K m = concat (map (\<lambda>x. K (snd x)) m)"

definition all_entries :: "(nat \<Rightarrow> nat list) \<Rightarrow> ('k \<times> nat) list \<Rightarrow> nat list" where
  "all_entries E m = concat (map (\<lambda>x. E (snd x)) m)"

text \<open>
  The order of a map of pages: pages are of bounded size and known under their first key, the keys of all
  pages ascend. While a key is being inserted one page may still be empty: it is known under that key.
\<close>

definition page_shape :: "'k option \<Rightarrow> (nat \<Rightarrow> 'k list) \<Rightarrow> (nat \<Rightarrow> nat list) \<Rightarrow> 'k \<times> nat \<Rightarrow> bool" where
  "page_shape w K E x \<longleftrightarrow>
     (if K (snd x) = [] then w = Some (fst x) else fst x = hd (K (snd x))) \<and>
     length (K (snd x)) \<le> split_threshold \<and> length (E (snd x)) = length (K (snd x))"

definition shape :: "'k::linorder option \<Rightarrow> (nat \<Rightarrow> 'k list) \<Rightarrow> (nat \<Rightarrow> nat list) \<Rightarrow> ('k \<times> nat) list \<Rightarrow> bool" where
  "shape w K E m \<longleftrightarrow> list_all (page_shape w K E) m \<and> sorted_wrt (<) (all_keys K m) \<and> sorted_wrt (<) (map fst m) \<and>
     distinct (map snd m) \<and> distinct (all_entries E m)"

lemma all_simps [simp]:
  "all_keys K (xs @ ys) = all_keys K xs @ all_keys K ys" "all_keys K (x # xs) = K (snd x) @ all_keys K xs" "all_keys K [] = []"
  "all_entries E (xs @ ys) = all_entries E xs @ all_entries E ys" "all_entries E (x # xs) = E (snd x) @ all_entries E xs"
  "all_entries E [] = []"
  by (simp_all add: all_keys_def all_entries_def)

lemma all_cong:
  "(\<And>p. p \<in> snd ` set m \<Longrightarrow> K' p = K p) \<Longrightarrow> all_keys K' m = all_keys K m"
  "(\<And>p. p \<in> snd ` set m \<Longrightarrow> E' p = E p) \<Longrightarrow> all_entries E' m = all_entries E m"
  by (auto simp: all_keys_def all_entries_def intro!: arg_cong [where f = concat])

lemma all_upd [simp]:
  "p \<notin> snd ` set m \<Longrightarrow> all_keys (K(p := x)) m = all_keys K m"
  "p \<notin> snd ` set m \<Longrightarrow> all_entries (E(p := y)) m = all_entries E m"
  by (rule all_cong; auto)+

lemma shape_lengths: "list_all (page_shape w K E) m \<Longrightarrow> length (all_entries E m) = length (all_keys K m)"
  by (induction m) (auto simp: page_shape_def)

lemma page_shape_cong:
  "K' (snd x) = K (snd x) \<Longrightarrow> E' (snd x) = E (snd x) \<Longrightarrow> page_shape w K' E' x = page_shape w K E x"
  by (simp add: page_shape_def)

lemma page_shape_upd:
  "p \<notin> snd ` set m \<Longrightarrow> list_all (page_shape w (K(p := x)) (E(p := y))) m = list_all (page_shape w K E) m"
  by (induction m) (auto simp: page_shape_def)

lemma shape_cong:
  assumes "shape w K E m" "\<And>p. p \<in> snd ` set m \<Longrightarrow> K' p = K p" "\<And>p. p \<in> snd ` set m \<Longrightarrow> E' p = E p"
  shows "shape w K' E' m"
proof -
  have "list_all (page_shape w K' E') m"
    using assms by (auto simp: shape_def list_all_iff page_shape_def)
  then show ?thesis using assms(1) all_cong(1) [of m K' K] all_cong(2) [of m E' E] assms(2,3) by (simp add: shape_def)
qed

lemma shape_weaken: "shape None K E m \<Longrightarrow> shape w K E m"
  by (auto simp: shape_def list_all_iff page_shape_def split: if_splits)

lemma hd_le: "sorted_wrt (<) (ks :: 'k::linorder list) \<Longrightarrow> x \<in> set ks \<Longrightarrow> hd ks \<le> x"
  by (cases ks) auto

text \<open>The page where a key belongs: the pages before it hold smaller keys, those after it larger ones.\<close>

definition key_splits :: "(nat \<Rightarrow> 'k::linorder list) \<Rightarrow> 'k \<Rightarrow> ('k \<times> nat) list \<Rightarrow> ('k \<times> nat) list \<Rightarrow> bool" where
  "key_splits K key pre post \<longleftrightarrow> (\<forall>x \<in> set (all_keys K pre). x < key) \<and> (\<forall>x \<in> set (all_keys K post). key < x)"

lemma shape_page_sorted: "shape w K E m \<Longrightarrow> x \<in> set m \<Longrightarrow> sorted_wrt (<) (K (snd x))"
  by (auto simp: shape_def sorted_wrt_append dest!: split_list)

lemma shape_key_le:
  assumes "shape None K E m" "x \<in> set m" "k \<in> set (K (snd x))"
  shows "fst x \<le> k"
proof -
  have "page_shape None K E x" using assms by (auto simp: shape_def list_all_iff)
  moreover have "K (snd x) \<noteq> []" using assms(3) by auto
  ultimately show ?thesis using hd_le [OF shape_page_sorted [OF assms(1,2)] assms(3)] by (simp add: page_shape_def)
qed

lemma locate:
  assumes sh: "shape None K E m" and ne: "m \<noteq> []"
    and i: "i = (let ub = upper_bound (map fst m) key in if ub \<noteq> 0 then ub - 1 else ub)"
  obtains pre k p post where "m = pre @ (k, p) # post" "length pre = i" "key_splits K key pre post"
    "\<forall>x \<in> set post. key < fst x" "pre \<noteq> [] \<Longrightarrow> k \<le> key"
proof -
  let ?ub = "upper_bound (map fst m) key"
  have le: "?ub \<le> length m" using upper_bound_le [of "map fst m" key] by simp
  have im: "i < length m" using i le ne by (auto simp: Let_def)
  obtain k p where kp: "m ! i = (k, p)" by fastforce
  have m: "m = take i m @ (k, p) # drop (Suc i) m" using id_take_nth_drop [OF im] kp by simp
  have srt: "sorted_wrt (<) (map fst m)" using sh by (simp add: shape_def)
  have post: "key < fst x" if "x \<in> set (drop (Suc i) m)" for x
  proof -
    have "x \<in> set (drop ?ub m)" using that i set_drop_subset_set_drop [of ?ub "Suc i" m] by (auto simp: Let_def split: if_splits)
    then show ?thesis using upper_bound_split(2) [OF srt, of "fst x" key] by (simp add: drop_map)
  qed
  have pre: "k \<le> key" if "take i m \<noteq> []"
  proof -
    have ub: "?ub = Suc i" using that i by (auto simp: Let_def split: if_splits)
    have "k \<in> set (take ?ub (map fst m))" using im kp unfolding ub by (simp add: take_Suc_conv_app_nth)
    then show ?thesis using upper_bound_split(1) [OF srt] by blast
  qed
  have "x < key" if "x \<in> set (all_keys K (take i m))" for x
  proof -
    have "take i m \<noteq> []" using that by (cases "take i m") auto
    moreover have "k \<in> set (K p)"
      using sh m by (metis (no_types, lifting) fst_conv hd_in_set in_set_conv_decomp list_all_iff option.distinct(1) page_shape_def shape_def snd_conv)
    then have "x < k" using sh that unfolding shape_def by (subst (asm) m) (auto simp: sorted_wrt_append)
    ultimately show ?thesis using pre by (meson less_le_trans)
  qed
  moreover have "key < x" if inx: "x \<in> set (all_keys K (drop (Suc i) m))" for x
  proof -
    obtain y where y: "y \<in> set (drop (Suc i) m)" "x \<in> set (K (snd y))" using inx by (auto simp: all_keys_def)
    have "y \<in> set m" using y(1) in_set_dropD by metis
    then show ?thesis using shape_key_le [OF sh _ y(2)] post [OF y(1)] by (meson less_le_trans)
  qed
  ultimately have "key_splits K key (take i m) (drop (Suc i) m)" by (simp add: key_splits_def)
  moreover have "length (take i m) = i" using im by simp
  ultimately show thesis using that [of "take i m" k p "drop (Suc i) m"] m pre post by blast
qed

section \<open>Inserting a key\<close>

definition ins :: "'k::linorder \<Rightarrow> 'e \<Rightarrow> ('k \<times> 'e) list \<Rightarrow> ('k \<times> 'e) list" where
  "ins k e xs = takeWhile (\<lambda>x. fst x < k) xs @ (k, e) # dropWhile (\<lambda>x. fst x < k) xs"

lemma ins_split:
  assumes "\<And>x. x \<in> set ks1 \<Longrightarrow> x < k" "\<And>x. x \<in> set ks2 \<Longrightarrow> k < x" "length ks1 = length es1"
  shows "ins k e (zip (ks1 @ ks2) (es1 @ es2)) = zip (ks1 @ k # ks2) (es1 @ e # es2)"
proof -
  have a: "\<And>x. x \<in> set (zip ks1 es1) \<Longrightarrow> fst x < k" using assms(1) by (auto dest: set_zip_leftD)
  have b: "zip ks2 es2 = [] \<or> \<not> fst (hd (zip ks2 es2)) < k" using assms(2) by (cases ks2; cases es2) (auto simp: not_less less_imp_le)
  have "takeWhile (\<lambda>x. fst x < k) (zip ks2 es2) = []" "dropWhile (\<lambda>x. fst x < k) (zip ks2 es2) = zip ks2 es2"
    using b by (cases "zip ks2 es2"; auto)+
  then show ?thesis using a assms(3) by (simp add: ins_def takeWhile_append2 dropWhile_append2)
qed

lemma shape_firsts:
  "list_all (page_shape None K E) m \<Longrightarrow> sorted_wrt (<) (all_keys K m) \<Longrightarrow> sorted_wrt (<) (map fst m)"
proof (induction m)
  case (Cons x m)
  have "fst x < fst y" if "y \<in> set m" for y
  proof -
    have ne: "K (snd x) \<noteq> []" "K (snd y) \<noteq> []" "fst x = hd (K (snd x))" "fst y = hd (K (snd y))"
      using Cons.prems(1) that by (auto simp: list_all_iff page_shape_def split: if_splits)
    moreover have "hd (K (snd y)) \<in> set (all_keys K m)" using that ne(2) by (auto simp: all_keys_def intro!: bexI [of _ y])
    ultimately show ?thesis using Cons.prems(2) by (auto simp: sorted_wrt_append)
  qed
  then show ?case using Cons by (auto simp: sorted_wrt_append)
qed simp

lemma shapeI:
  assumes "list_all (page_shape None K E) m" "sorted_wrt (<) (all_keys K m)" "distinct (map snd m)" "distinct (all_entries E m)"
  shows "shape None K E m"
  using assms shape_firsts [OF assms(1,2)] by (simp add: shape_def)

lemma sorted_insert_mid:
  "sorted_wrt (<) (xs @ ys) \<Longrightarrow> (\<And>x. x \<in> set xs \<Longrightarrow> x < k) \<Longrightarrow> (\<And>y. y \<in> set ys \<Longrightarrow> k < y) \<Longrightarrow> sorted_wrt (<) (xs @ (k :: 'k::linorder) # ys)"
  by (auto simp: sorted_wrt_append)

lemma insert_at_simps:
  "set (insert_at i x xs) = insert x (set xs)" "i \<le> length xs \<Longrightarrow> length (insert_at i x xs) = Suc (length xs)"
  "insert_at i x xs \<noteq> []"
proof -
  have "set (take i xs) \<union> set (drop i xs) = set xs" by (metis append_take_drop_id set_append)
  then show "set (insert_at i x xs) = insert x (set xs)" by (simp add: insert_at_def)
qed (simp_all add: insert_at_def)

lemma all_keys_nonempty: "list_all (page_shape w K E) m \<Longrightarrow> (\<And>x. x \<in> set m \<Longrightarrow> K (snd x) \<noteq> []) \<Longrightarrow> list_all (page_shape None K E) m"
  by (auto simp: list_all_iff page_shape_def)

lemma shape_emplace:
  assumes sh: "shape (Some key) K E (pre @ (k, p) # post)" and sp: "key_splits K key pre post"
    and key: "key \<notin> set (K p)" and room: "length (K p) < split_threshold"
    and e: "e \<notin> set (all_entries E (pre @ (k, p) # post))" and ne: "\<And>x. x \<in> set (pre @ post) \<Longrightarrow> K (snd x) \<noteq> []"
  defines "pos \<equiv> lower_bound (K p) key"
  defines "K' \<equiv> K(p := insert_at pos key (K p))" and "E' \<equiv> E(p := insert_at pos e (E p))"
  shows "shape None K' E' (pre @ (hd (K' p), p) # post)"
    and "zip (all_keys K' (pre @ (hd (K' p), p) # post)) (all_entries E' (pre @ (hd (K' p), p) # post)) =
      ins key e (zip (all_keys K (pre @ (k, p) # post)) (all_entries E (pre @ (k, p) # post)))"
proof -
  have notp: "p \<notin> snd ` set pre" "p \<notin> snd ` set post" using sh by (auto simp: shape_def)
  have same: "all_keys K' pre = all_keys K pre" "all_keys K' post = all_keys K post" "all_entries E' pre = all_entries E pre"
    "all_entries E' post = all_entries E post"
    using notp by (simp_all add: K'_def E'_def)
  have len: "length (E p) = length (K p)" and lpre: "length (all_entries E pre) = length (all_keys K pre)"
    using sh shape_lengths [of "Some key" K E pre] by (auto simp: shape_def page_shape_def)
  have pos: "pos \<le> length (K p)" unfolding pos_def by (rule lower_bound_le)
  have srtp: "sorted_wrt (<) (K p)" using sh by (auto simp: shape_def sorted_wrt_append)
  have lo: "x < key" if "x \<in> set (take pos (K p))" for x using lower_bound_split(1) [OF srtp] that by (simp add: pos_def)
  have hi: "key < x" if "x \<in> set (drop pos (K p))" for x
    using lower_bound_split(2) [OF srtp, of x key] that key in_set_dropD [of x pos "K p"] by (auto simp: pos_def order.order_iff_strict)
  have keys: "all_keys K' (pre @ (h, p) # post) = (all_keys K pre @ take pos (K p)) @ key # (drop pos (K p) @ all_keys K post)" for h
    by (simp add: same) (simp add: K'_def insert_at_def)
  have ents: "all_entries E' (pre @ (h, p) # post) = (all_entries E pre @ take pos (E p)) @ e # (drop pos (E p) @ all_entries E post)" for h
    by (simp add: same) (simp add: E'_def insert_at_def)
  have old: "all_keys K (pre @ (k, p) # post) = (all_keys K pre @ take pos (K p)) @ (drop pos (K p) @ all_keys K post)"
    "all_entries E (pre @ (k, p) # post) = (all_entries E pre @ take pos (E p)) @ (drop pos (E p) @ all_entries E post)"
    by simp_all
  have below: "x < key" if "x \<in> set (all_keys K pre @ take pos (K p))" for x using that lo sp by (auto simp: key_splits_def)
  have above: "key < x" if "x \<in> set (drop pos (K p) @ all_keys K post)" for x using that hi sp by (auto simp: key_splits_def)
  show "zip (all_keys K' (pre @ (hd (K' p), p) # post)) (all_entries E' (pre @ (hd (K' p), p) # post)) =
      ins key e (zip (all_keys K (pre @ (k, p) # post)) (all_entries E (pre @ (k, p) # post)))"
    unfolding keys ents old by (rule ins_split [OF below above, symmetric]) (use lpre len pos in simp_all)
  show "shape None K' E' (pre @ (hd (K' p), p) # post)"
  proof (rule shapeI)
    have "sorted_wrt (<) (all_keys K (pre @ (k, p) # post))" using sh by (simp only: shape_def)
    then show "sorted_wrt (<) (all_keys K' (pre @ (hd (K' p), p) # post))"
      unfolding keys old by (rule sorted_insert_mid) (use below above in blast)+
    have "distinct (all_entries E (pre @ (k, p) # post))" using sh by (simp only: shape_def)
    then show "distinct (all_entries E' (pre @ (hd (K' p), p) # post))"
      using e unfolding ents old by auto
    have "list_all (page_shape None K' E') (pre @ post)"
      using sh ne notp all_keys_nonempty [of "Some key" K E "pre @ post"] by (simp add: shape_def page_shape_upd K'_def E'_def)
    moreover have "page_shape None K' E' (hd (K' p), p)"
      using room len pos by (simp add: page_shape_def K'_def E'_def insert_at_simps)
    ultimately show "list_all (page_shape None K' E') (pre @ (hd (K' p), p) # post)" by simp
  qed (use sh in \<open>simp add: shape_def\<close>)
qed

section \<open>Splitting a page\<close>

lemma ccmp_insert_at:
  assumes "\<And>x. x \<in> set xs \<Longrightarrow> fst x < k" "\<And>x. x \<in> set ys \<Longrightarrow> k < fst x"
  shows "ccmp_insert k p (xs @ ys) = xs @ (k, p) # ys" "lower_bound (map fst (xs @ ys)) k = length xs"
proof -
  have "map fst ys = [] \<or> k \<le> hd (map fst ys)" using assms(2) by (cases ys) (auto simp: less_imp_le)
  then show lb: "lower_bound (map fst (xs @ ys)) k = length xs"
    using assms(1) by (subst map_append, subst lower_bound_append) auto
  have "k \<notin> fst ` set (xs @ ys)" using assms by fastforce
  then show "ccmp_insert k p (xs @ ys) = xs @ (k, p) # ys" unfolding ccmp_insert_def lb by (simp add: insert_at_def)
qed

lemma shape_split:
  assumes sh: "shape None K E (pre @ (k, p) # post)" and K: "K p = ks1 @ ks2" "ks1 \<noteq> []" "ks2 \<noteq> []"
    and E: "E p = es1 @ es2" "length es1 = length ks1" and a: "a \<notin> snd ` set (pre @ (k, p) # post)"
  shows "shape None (K(p := ks1, a := ks2)) (E(p := es1, a := es2)) (pre @ (k, p) # (hd ks2, a) # post)" (is "shape None ?K ?E ?m")
    and "all_keys (K(p := ks1, a := ks2)) (pre @ (k, p) # (hd ks2, a) # post) = all_keys K (pre @ (k, p) # post)"
    and "all_entries (E(p := es1, a := es2)) (pre @ (k, p) # (hd ks2, a) # post) = all_entries E (pre @ (k, p) # post)"
proof -
  have notp: "p \<notin> snd ` set pre" "p \<notin> snd ` set post" using sh by (auto simp: shape_def)
  have ap: "a \<noteq> p" "a \<notin> snd ` set pre" "a \<notin> snd ` set post" using a by auto
  show keys: "all_keys ?K ?m = all_keys K (pre @ (k, p) # post)" using notp ap K by simp
  show ents: "all_entries ?E ?m = all_entries E (pre @ (k, p) # post)" using notp ap E by simp
  show "shape None ?K ?E ?m"
  proof (rule shapeI)
    have "list_all (page_shape None ?K ?E) (pre @ post)"
      using sh notp ap by (simp add: shape_def page_shape_upd)
    moreover have "page_shape None ?K ?E (k, p)" "page_shape None ?K ?E (hd ks2, a)"
      using sh ap K E by (auto simp: shape_def page_shape_def)
    ultimately show "list_all (page_shape None ?K ?E) ?m" by simp
    show "sorted_wrt (<) (all_keys ?K ?m)" "distinct (all_entries ?E ?m)" using sh unfolding keys ents shape_def by simp_all
    show "distinct (map snd ?m)" using sh a by (auto simp: shape_def)
  qed
qed

text \<open>The keys under which the neighbours of a page are known.\<close>

lemma shape_around:
  assumes sh: "shape None K E (pre @ (k, p) # post)" and x: "x \<in> set (K p)"
  shows "\<And>y. y \<in> set pre \<Longrightarrow> fst y < x" "\<And>y. y \<in> set post \<Longrightarrow> x < fst y"
proof -
  have ne: "fst y \<in> set (K (snd y))" if "y \<in> set (pre @ post)" for y
  proof -
    have "page_shape None K E y" using sh that by (auto simp: shape_def list_all_iff)
    then show ?thesis by (simp add: page_shape_def split: if_splits)
  qed
  have srt: "sorted_wrt (<) (all_keys K (pre @ (k, p) # post))" using sh by (simp only: shape_def)
  show "fst y < x" if "y \<in> set pre" for y
    using srt ne [of y] that x by (auto simp: sorted_wrt_append all_keys_def)
  show "x < fst y" if "y \<in> set post" for y
    using srt ne [of y] that x by (auto simp: sorted_wrt_append all_keys_def)
qed

end
