(* ===== verification/Page_Map.thy ===== *)
theory Page_Map
  imports Page_Shape
begin

text \<open>
  The invariant of the pages of a cc map and what \<open>FindEmplace\<close> does under it: the map of pages is a
  sorted list of keys with their entries, whatever the split of the keys into pages.
\<close>

section \<open>The invariant\<close>

definition pkeys :: "('k, 'v, 'o, 'c) ccmap \<Rightarrow> nat \<Rightarrow> 'k list" where
  "pkeys s a = pg_keys (page s a)"

definition pents :: "('k, 'v, 'o, 'c) ccmap \<Rightarrow> nat \<Rightarrow> nat list" where
  "pents s a = pg_entries (page s a)"

text \<open>The pages in key order, between the two sentinel pages.\<close>

definition page_seq :: "('k, 'v, 'o, 'c) ccmap \<Rightarrow> nat list" where
  "page_seq s = neg_inf_page s # map snd (ccmp s) @ [pos_inf_page s]"

definition links_ok :: "('k, 'v, 'o, 'c) ccmap \<Rightarrow> bool" where
  "links_ok s \<longleftrightarrow> linked (\<lambda>a. next_page (page s a)) (\<lambda>a. prev_page (page s a)) (page_seq s) \<and> distinct (page_seq s) \<and>
     (\<forall>a \<in> set (page_seq s). a < next_pg s \<and> a \<noteq> head_ccp \<and> a \<noteq> tail_ccp) \<and> head_ccp < next_pg s \<and> tail_ccp < next_pg s \<and>
     prev_page (page s (neg_inf_page s)) = None \<and> next_page (page s (pos_inf_page s)) = None"

text \<open>A page of a data table is in the LRU list as soon as it has a key.\<close>

definition lru_part :: "('k, 'v, 'o, 'c) ccmap \<Rightarrow> nat list \<Rightarrow> bool" where
  "lru_part s l \<longleftrightarrow> lru_ok (lst s) l \<and> (\<forall>a \<in> set l. a < next_pg s \<and> a \<noteq> neg_inf_page s \<and> a \<noteq> pos_inf_page s) \<and>
     (\<forall>p \<in> snd ` set (ccmp s). parent_type (page s p) = ccm_type s \<and> (p \<in> set l \<longleftrightarrow> in_lru_type (ccm_type s) \<and> pkeys s p \<noteq> []))"

text \<open>The lock of an entry knows the page of the entry.\<close>

definition locks_ok :: "('k, 'v, 'o, 'c) ccmap \<Rightarrow> bool" where
  "locks_ok s \<longleftrightarrow>
     (\<forall>e e' lk. lock_of (csh s) e = Some lk \<longrightarrow> lock_of (csh s) e' = Some lk \<longrightarrow> e = e') \<and>
     (\<forall>e. next_cce s \<le> e \<longrightarrow> lock_of (csh s) e = None) \<and>
     (\<forall>p \<in> snd ` set (ccmp s). \<forall>e \<in> set (pents s p). \<forall>lk. lock_of (csh s) e = Some lk \<longrightarrow> lk_page (locks (csh s) lk) = Some p)"

definition view :: "('k, 'v, 'o, 'c) ccmap \<Rightarrow> ('k \<times> nat) list" where
  "view s = zip (all_keys (pkeys s) (ccmp s)) (all_entries (pents s) (ccmp s))"

definition ents_ok :: "('k, 'v, 'o, 'c) ccmap \<Rightarrow> bool" where
  "ents_ok s \<longleftrightarrow> (\<forall>e \<in> set (all_entries (pents s) (ccmp s)). neg_inf_cce < e \<and> e < next_cce s) \<and> neg_inf_cce < next_cce s \<and> ccm_size s = length (all_keys (pkeys s) (ccmp s))"

text \<open>What is known of a map: \<open>w\<close> is the key being inserted while its page is still empty, \<open>l\<close> the LRU list.\<close>

definition ccm_ok :: "'k::linorder option \<Rightarrow> ('k, 'v, 'o, 'c) ccmap \<Rightarrow> nat list \<Rightarrow> bool" where
  "ccm_ok w s l \<longleftrightarrow> shape w (pkeys s) (pents s) (ccmp s) \<and> links_ok s \<and> lru_part s l \<and> locks_ok s \<and> ents_ok s"

text \<open>
  The newest commit a page records bounds the commits of those of its entries that are not in the data
  store yet. Checkpoint scans skip pages by it.
\<close>

definition dirty_ok :: "('k, 'v, 'o, 'c) ccmap \<Rightarrow> bool" where
  "dirty_ok s \<longleftrightarrow> (\<forall>p \<in> snd ` set (ccmp s). \<forall>e \<in> set (pents s p).
     IsPersistent True False (entry_info (cces s e)) \<or> cce_CommitTs (cces s e) \<le> last_dirty_commit_ts (page s p))"

section \<open>Frames\<close>

lemma page_mod [simp]: "page (mod_page a f s) b = (if b = a then f (page s a) else page s b)"
  by (simp add: page_def mod_page_def upd_page_def)

lemma mod_page_frame [simp]:
  "ccmp (mod_page a f s) = ccmp s" "cces (mod_page a f s) = cces s" "next_pg (mod_page a f s) = next_pg s"
  "next_cce (mod_page a f s) = next_cce s" "neg_inf_page (mod_page a f s) = neg_inf_page s" "pos_inf_page (mod_page a f s) = pos_inf_page s"
  "ccm_size (mod_page a f s) = ccm_size s" "ccm_type (mod_page a f s) = ccm_type s" "csh (mod_page a f s) = csh s"
  "lst (mod_page a f s) = upd_page a f (lst s)"
  by (simp_all add: mod_page_def)

lemma page_frame [simp]:
  "page (s\<lparr>ccmp := m\<rparr>) = page s" "page (s\<lparr>next_pg := n\<rparr>) = page s" "page (s\<lparr>cces := c\<rparr>) = page s" "page (s\<lparr>next_cce := i\<rparr>) = page s"
  "page (s\<lparr>ccm_size := i\<rparr>) = page s" "page (s\<lparr>csh := sh\<rparr>) = page s"
  by (simp_all add: page_def fun_eq_iff)

text \<open>A page that is created between two others.\<close>

definition fresh_page :: "('k, 'v, 'o, 'c) ccmap \<Rightarrow> 'k list \<Rightarrow> nat list \<Rightarrow> nat \<Rightarrow> nat \<Rightarrow> 'k CcPage" where
  "fresh_page s ks es b c =
     \<lparr>lru_prev = None, lru_next = None, parent_type = ccm_type s, last_access_ts = 0, last_dirty_commit_ts = 0,
      smallest_ttl = - 1, pg_keys = ks, pg_entries = es, prev_page = Some b, next_page = Some c\<rparr>"

lemma new_page_eq:
  assumes "new_page ks es (Some b) (Some c) s = (a, s')" "b \<noteq> c" "b < next_pg s" "c < next_pg s"
  shows "a = next_pg s" "next_pg s' = Suc a" "ccmp s' = ccmp s" "cces s' = cces s" "next_cce s' = next_cce s"
    "neg_inf_page s' = neg_inf_page s" "pos_inf_page s' = pos_inf_page s" "ccm_size s' = ccm_size s" "ccm_type s' = ccm_type s"
    "csh s' = csh s" "clean_start_ccp (lst s') = clean_start_ccp (lst s)" "access_counter (lst s') = access_counter (lst s)"
    "page s' x = (if x = a then fresh_page s ks es b c else if x = b then (page s b)\<lparr>next_page := Some a\<rparr>
      else if x = c then (page s c)\<lparr>prev_page := Some a\<rparr> else page s x)"
  using assms by (auto simp: new_page_def Let_def fresh_page_def)

lemma UpdateCcPage_frame [simp]:
  "lst (UpdateCcPage a e s) = lst s" "ccmp (UpdateCcPage a e s) = ccmp s" "cces (UpdateCcPage a e s) = cces s"
  "next_pg (UpdateCcPage a e s) = next_pg s" "next_cce (UpdateCcPage a e s) = next_cce s"
  "neg_inf_page (UpdateCcPage a e s) = neg_inf_page s" "pos_inf_page (UpdateCcPage a e s) = pos_inf_page s"
  "ccm_size (UpdateCcPage a e s) = ccm_size s" "ccm_type (UpdateCcPage a e s) = ccm_type s"
  "lock_of (csh (UpdateCcPage a e s)) = lock_of (csh s)" "page (UpdateCcPage a e s) = page s"
  by (auto simp: UpdateCcPage_def upd_lock_def page_def split: option.split)

lemma fold_UpdateCcPage_frame [simp]:
  "lst (fold (UpdateCcPage a) es s) = lst s" "ccmp (fold (UpdateCcPage a) es s) = ccmp s" "cces (fold (UpdateCcPage a) es s) = cces s"
  "next_pg (fold (UpdateCcPage a) es s) = next_pg s" "next_cce (fold (UpdateCcPage a) es s) = next_cce s"
  "neg_inf_page (fold (UpdateCcPage a) es s) = neg_inf_page s" "pos_inf_page (fold (UpdateCcPage a) es s) = pos_inf_page s"
  "ccm_size (fold (UpdateCcPage a) es s) = ccm_size s" "ccm_type (fold (UpdateCcPage a) es s) = ccm_type s"
  "lock_of (csh (fold (UpdateCcPage a) es s)) = lock_of (csh s)" "page (fold (UpdateCcPage a) es s) = page s"
  by (induction es arbitrary: s) simp_all

lemma fold_UpdateCcPage_lock:
  "lk_page (locks (csh (fold (UpdateCcPage a) es s)) lk) =
     (if \<exists>e \<in> set es. lock_of (csh s) e = Some lk then Some a else lk_page (locks (csh s) lk))"
proof (induction es arbitrary: s)
  case (Cons e es)
  show ?case by (simp add: Cons.IH) (auto simp: UpdateCcPage_def upd_lock_def split: option.split)
qed simp

section \<open>A new page\<close>

lemma last_hd_seq:
  assumes "ccmp s = pre @ post" "b = last (neg_inf_page s # map snd pre)" "c = hd (map snd post @ [pos_inf_page s])"
  obtains us vs where "page_seq s = us @ b # c # vs" "us @ [b] = neg_inf_page s # map snd pre" "c # vs = map snd post @ [pos_inf_page s]"
proof
  show b: "butlast (neg_inf_page s # map snd pre) @ [b] = neg_inf_page s # map snd pre"
    using assms(2) by (metis append_butlast_last_id list.distinct(1))
  show c: "c # tl (map snd post @ [pos_inf_page s]) = map snd post @ [pos_inf_page s]"
    using assms(3) by (metis Nil_is_append_conv list.collapse list.distinct(1))
  have "page_seq s = (butlast (neg_inf_page s # map snd pre) @ [b]) @ (c # tl (map snd post @ [pos_inf_page s]))"
    unfolding b c by (simp add: page_seq_def assms(1))
  then show "page_seq s = butlast (neg_inf_page s # map snd pre) @ b # c # tl (map snd post @ [pos_inf_page s])" by simp
qed

lemma new_page_links:
  assumes ok: "links_ok s" and m: "ccmp s = pre @ post"
    and bc: "b = last (neg_inf_page s # map snd pre)" "c = hd (map snd post @ [pos_inf_page s])"
    and new: "new_page ks es (Some b) (Some c) s = (a, s1)"
  shows "links_ok (s1\<lparr>ccmp := pre @ (k, a) # post\<rparr>)" "b \<noteq> c" "b < next_pg s" "c < next_pg s" "next_page (page s b) = Some c"
    "a \<notin> set (page_seq s)"
proof -
  obtain us vs where seq: "page_seq s = us @ b # c # vs" "us @ [b] = neg_inf_page s # map snd pre"
    "c # vs = map snd post @ [pos_inf_page s]"
    using last_hd_seq [OF m bc] by blast
  have lk: "linked (\<lambda>a. next_page (page s a)) (\<lambda>a. prev_page (page s a)) (us @ b # c # vs)"
    and dis: "distinct (us @ b # c # vs)" and lt: "\<forall>x \<in> set (us @ b # c # vs). x < next_pg s \<and> x \<noteq> head_ccp \<and> x \<noteq> tail_ccp"
    using ok by (simp_all add: links_ok_def seq(1))
  show neq: "b \<noteq> c" and b: "b < next_pg s" and c: "c < next_pg s" using dis lt by auto
  show "next_page (page s b) = Some c" using linked_at(1) [OF lk] .
  note eq = new_page_eq [OF new neq b c]
  show a: "a \<notin> set (page_seq s)" using lt eq(1) by (auto simp: seq(1))
  let ?s = "s1\<lparr>ccmp := pre @ (k, a) # post\<rparr>"
  have seq': "page_seq ?s = us @ b # a # c # vs"
  proof -
    have "page_seq ?s = (neg_inf_page s # map snd pre) @ a # (map snd post @ [pos_inf_page s])" by (simp add: page_seq_def eq)
    then show ?thesis unfolding seq(2) [symmetric] seq(3) [symmetric] by simp
  qed
  have ab: "a \<noteq> b" "a \<noteq> c" using b c eq(1) by auto
  have "distinct (us @ b # a # c # vs)" using dis a by (auto simp: seq(1))
  moreover from this have "linked (\<lambda>a. next_page (page ?s a)) (\<lambda>a. prev_page (page ?s a)) (us @ b # a # c # vs)"
    by (rule linked_link [OF lk]) (use neq ab in \<open>simp_all add: eq(13) fresh_page_def\<close>)
  moreover have "\<forall>x \<in> set (us @ b # a # c # vs). x < next_pg ?s \<and> x \<noteq> head_ccp \<and> x \<noteq> tail_ccp"
    using lt eq(1,2) ok by (auto simp: links_ok_def less_SucI)
  moreover have "prev_page (page ?s (neg_inf_page ?s)) = None \<and> next_page (page ?s (pos_inf_page ?s)) = None"
  proof -
    have "neg_inf_page s \<in> set (us @ [b])" "pos_inf_page s \<in> set (c # vs)" unfolding seq by simp_all
    then have "neg_inf_page s \<noteq> c" "pos_inf_page s \<noteq> b" "neg_inf_page s \<noteq> a" "pos_inf_page s \<noteq> a" using dis a by (auto simp: seq(1))
    then show ?thesis using ok by (auto simp: eq links_ok_def)
  qed
  ultimately show "links_ok ?s" using ok eq(1,2) unfolding links_ok_def seq' by simp
qed

lemma lru_ok_new_page:
  assumes ok: "lru_ok (lst s) l" "\<forall>x \<in> set (head_ccp # l @ [tail_ccp]). x < next_pg s"
    and new: "new_page ks es (Some b) (Some c) s = (a, s1)" "b \<noteq> c" "b < next_pg s" "c < next_pg s"
  shows "lru_ok (lst s1) l"
proof (rule lru_ok_cong [OF ok(1)])
  note eq = new_page_eq [OF new]
  have "a \<notin> set (head_ccp # l @ [tail_ccp])" using ok(2) eq(1) by auto
  then have "lru_next (page s a) = None \<and> lru_prev (page s a) = None" unfolding page_def by (rule lru_okD(5) [OF ok(1)])
  then show "lru_next (pg (lst s1) x) = lru_next (pg (lst s) x)" "lru_prev (pg (lst s1) x) = lru_prev (pg (lst s) x)" for x
    using eq(13) [of x] by (auto simp: page_def [symmetric] fresh_page_def)
qed (simp add: new_page_eq [OF new])

text \<open>What the preparation of a place for a key leaves alone.\<close>

definition prepared :: "('k, 'v, 'o, 'c) ccmap \<Rightarrow> ('k, 'v, 'o, 'c) ccmap \<Rightarrow> bool" where
  "prepared s s' \<longleftrightarrow> view s' = view s \<and> cces s' = cces s \<and> next_cce s' = next_cce s \<and> ccm_type s' = ccm_type s \<and>
     neg_inf_page s' = neg_inf_page s \<and> pos_inf_page s' = pos_inf_page s \<and> lock_of (csh s') = lock_of (csh s) \<and> (dirty_ok s \<longrightarrow> dirty_ok s')"

lemma prepared_trans: "prepared s s' \<Longrightarrow> prepared s' s'' \<Longrightarrow> prepared s s''"
  by (simp add: prepared_def)

text \<open>The place for a key: position \<open>i\<close> of the map.\<close>

definition slot_at ::
    "'k::linorder \<Rightarrow> nat \<Rightarrow> ('k, 'v, 'o, 'c) ccmap \<Rightarrow> ('k \<times> nat) list \<Rightarrow> 'k \<Rightarrow> nat \<Rightarrow> ('k \<times> nat) list \<Rightarrow> bool" where
  "slot_at key i s pre k p post \<longleftrightarrow> ccmp s = pre @ (k, p) # post \<and> length pre = i \<and> key_splits (pkeys s) key pre post \<and>
     key \<notin> set (pkeys s p) \<and> (\<forall>x \<in> set (pre @ post). pkeys s (snd x) \<noteq> [])"

lemma ccm_okD:
  assumes "ccm_ok w s l"
  shows "shape w (pkeys s) (pents s) (ccmp s)" "links_ok s" "lru_part s l" "locks_ok s" "ents_ok s"
  using assms by (simp_all add: ccm_ok_def)

lemma ccm_ok_lt:
  assumes "ccm_ok w s l"
  shows "\<forall>x \<in> set (head_ccp # l @ [tail_ccp]). x < next_pg s"
  using assms by (auto simp: ccm_ok_def lru_part_def links_ok_def)

lemma shape_ne: "shape None K E m \<Longrightarrow> x \<in> set m \<Longrightarrow> K (snd x) \<noteq> []"
  by (auto simp: shape_def list_all_iff page_shape_def)

lemma add_empty_page:
  assumes ok: "ccm_ok None s l" and m: "ccmp s = pre @ post"
    and bc: "b = last (neg_inf_page s # map snd pre)" "c = hd (map snd post @ [pos_inf_page s])"
    and new: "new_page [] [] (Some b) (Some c) s = (a, s1)"
    and ks: "\<And>x. x \<in> set pre \<Longrightarrow> fst x < key" "\<And>x. x \<in> set post \<Longrightarrow> key < fst x" and sp: "key_splits (pkeys s) key pre post"
  defines "s' \<equiv> s1\<lparr>ccmp := pre @ (key, a) # post\<rparr>"
  shows "ccm_ok (Some key) s' l" "slot_at key (length pre) s' pre key a post" "prepared s s'" "pkeys s' a = []"
proof -
  note links = new_page_links [OF ccm_okD(2) [OF ok] m bc new]
  note eq = new_page_eq [OF new links(2-4)]
  have a: "a \<notin> snd ` set pre" "a \<notin> snd ` set post" using links(6) by (auto simp: page_seq_def m)
  have page': "page s' x = (if x = a then fresh_page s [] [] b c else if x = b then (page s b)\<lparr>next_page := Some a\<rparr>
      else if x = c then (page s c)\<lparr>prev_page := Some a\<rparr> else page s x)" for x
    by (simp add: s'_def eq(13))
  have K: "pkeys s' = (pkeys s)(a := [])" and E: "pents s' = (pents s)(a := [])"
    by (auto simp: pkeys_def pents_def fun_eq_iff page' fresh_page_def)
  have sh: "shape None (pkeys s) (pents s) (pre @ post)" using ccm_okD(1) [OF ok] by (simp add: m)
  have m': "ccmp s' = pre @ (key, a) # post" by (simp add: s'_def)
  have fr: "next_pg s' = Suc a" "cces s' = cces s" "next_cce s' = next_cce s" "neg_inf_page s' = neg_inf_page s" "pos_inf_page s' = pos_inf_page s"
    "ccm_size s' = ccm_size s" "ccm_type s' = ccm_type s" "csh s' = csh s" "lst s' = lst s1"
    by (simp_all add: s'_def eq)
  have keys: "all_keys (pkeys s') (ccmp s') = all_keys (pkeys s) (ccmp s)" and ents: "all_entries (pents s') (ccmp s') = all_entries (pents s) (ccmp s)"
    using a by (simp_all add: K E m m')
  have "dirty_ok s'" if "dirty_ok s"
    using that a by (auto simp: dirty_ok_def fr page' E m m' fresh_page_def)
  then show "prepared s s'" by (simp add: prepared_def view_def keys ents fr)
  show "slot_at key (length pre) s' pre key a post"
    using sp a shape_ne [OF sh] by (auto simp: slot_at_def m' K key_splits_def)
  show "pkeys s' a = []" by (simp add: K)
  have "list_all (page_shape (Some key) (pkeys s') (pents s')) (pre @ post)"
    using shape_weaken [OF sh, of "Some key"] a by (simp add: K E shape_def page_shape_upd)
  moreover have "page_shape (Some key) (pkeys s') (pents s') (key, a)" by (simp add: page_shape_def K E)
  moreover have "sorted_wrt (<) (map fst pre @ key # map fst post)"
    using sh ks by (intro sorted_insert_mid) (auto simp: shape_def)
  moreover have "distinct (map snd (pre @ (key, a) # post))" using sh a by (auto simp: shape_def)
  ultimately have "shape (Some key) (pkeys s') (pents s') (ccmp s')"
    using sh keys ents unfolding shape_def m m' by simp
  moreover have "lru_part s' l"
  proof -
    have old: "lru_part s l" by (rule ccm_okD(3) [OF ok])
    have "lru_ok (lst s') l" using lru_ok_new_page [OF _ ccm_ok_lt [OF ok] new links(2-4)] old by (simp add: lru_part_def fr)
    moreover have "a \<notin> set l" using old eq(1) by (auto simp: lru_part_def)
    moreover have "parent_type (page s' x) = parent_type (page s x)" if "x \<noteq> a" for x using that by (simp add: page')
    moreover have "parent_type (page s' a) = ccm_type s" by (simp add: page' fresh_page_def)
    ultimately show ?thesis using old a unfolding lru_part_def fr K m m' eq(1) by (auto simp: less_SucI image_iff)
  qed
  moreover have "locks_ok s'" using ccm_okD(4) [OF ok] a by (auto simp: locks_ok_def fr E m m')
  moreover have "ents_ok s'" using ccm_okD(5) [OF ok] by (simp add: ents_ok_def keys ents fr)
  ultimately show "ccm_ok (Some key) s' l" using links(1) by (simp add: ccm_ok_def s'_def)
qed

section \<open>Choosing the page\<close>

lemma seq_adjacent:
  assumes "links_ok s" "ccmp s = pre @ post" "b = last (neg_inf_page s # map snd pre)" "c = hd (map snd post @ [pos_inf_page s])"
  shows "next_page (page s b) = Some c" "prev_page (page s c) = Some b"
proof -
  obtain us vs where "page_seq s = us @ b # c # vs" using last_hd_seq [OF assms(2-4)] by blast
  then have lk: "linked (\<lambda>a. next_page (page s a)) (\<lambda>a. prev_page (page s a)) (us @ b # c # vs)"
    using assms(1) by (simp add: links_ok_def)
  show "next_page (page s b) = Some c" "prev_page (page s c) = Some b" using linked_at [OF lk] .
qed

lemma ccm_ok_weaken: "ccm_ok None s l \<Longrightarrow> ccm_ok w s l"
  using shape_weaken by (auto simp: ccm_ok_def)

lemma prepared_refl [simp]: "prepared s s"
  by (simp add: prepared_def)

lemma shape_mid:
  assumes "shape None K E (pre @ (k, p) # post)"
  shows "K p \<noteq> []" "k = hd (K p)" "sorted_wrt (<) (K p)" "\<And>x. x \<in> set (pre @ post) \<Longrightarrow> fst x \<in> set (K (snd x)) \<and> K (snd x) \<noteq> []"
proof -
  have "page_shape None K E x" if "x \<in> set (pre @ (k, p) # post)" for x using assms that by (auto simp: shape_def list_all_iff)
  note ps = this [unfolded page_shape_def]
  show "K p \<noteq> []" "k = hd (K p)" using ps [of "(k, p)"] by (auto split: if_splits)
  show "sorted_wrt (<) (K p)" using shape_page_sorted [OF assms, of "(k, p)"] by simp
  show "fst x \<in> set (K (snd x)) \<and> K (snd x) \<noteq> []" if "x \<in> set (pre @ post)" for x using ps [of x] that by (auto split: if_splits)
qed

lemma sorted_le_last: "sorted_wrt (<) (ks :: 'k::linorder list) \<Longrightarrow> x \<in> set ks \<Longrightarrow> x \<le> last ks"
  by (induction ks) (auto simp: less_imp_le split: if_splits)

lemma all_keys_mem: "x \<in> set m \<Longrightarrow> y \<in> set (K (snd x)) \<Longrightarrow> y \<in> set (all_keys K m)"
  by (auto simp: all_keys_def)

lemma choose_page_ok:
  assumes ok: "ccm_ok None s l" and slot: "slot_at key i s pre k p post" and le: "pre \<noteq> [] \<Longrightarrow> k \<le> key"
    and ch: "choose_page key i s = (i1, s1)"
  shows "ccm_ok (Some key) s1 l \<and> prepared s s1 \<and> (\<exists>pre1 k1 p1 post1. slot_at key i1 s1 pre1 k1 p1 post1 \<and>
    (pkeys s1 p1 = [] \<or> ccm_ok None s1 l))"
proof -
  let ?ks = "pkeys s p"
  have m: "ccmp s = pre @ (k, p) # post" and len: "length pre = i" and sp: "key_splits (pkeys s) key pre post" and notin: "key \<notin> set ?ks"
    using slot by (auto simp: slot_at_def)
  have sh: "shape None (pkeys s) (pents s) (pre @ (k, p) # post)" using ccm_okD(1) [OF ok] by (simp add: m)
  note mid = shape_mid [OF sh]
  have lo: "fst x < key" if "x \<in> set pre" for x
    using sp mid(4) [of x] all_keys_mem [OF that] that by (auto simp: key_splits_def)
  have hi: "key < fst x" if "x \<in> set post" for x
    using sp mid(4) [of x] all_keys_mem [OF that] that by (auto simp: key_splits_def)
  have nth: "ccmp s ! i = (k, p)" unfolding m len [symmetric] by simp
  have stay: ?thesis if "i1 = i" "s1 = s"
    using that ccm_ok_weaken [OF ok] slot ok by (metis prepared_refl)
  consider (right) "page_Full (page s p)" "last ?ks < key" | (left) "page_Full (page s p)" "\<not> last ?ks < key" "key < hd ?ks"
    | (here) "\<not> page_Full (page s p) \<or> \<not> last ?ks < key \<and> \<not> key < hd ?ks" by blast
  then show ?thesis
  proof cases
    case right
    have pk: "x < key" if "x \<in> set ?ks" for x using sorted_le_last [OF mid(3) that] right(2) by (rule le_less_trans)
    have sp': "key_splits (pkeys s) key (pre @ [(k, p)]) post" using sp pk by (auto simp: key_splits_def)
    have lo': "fst x < key" if "x \<in> set (pre @ [(k, p)])" for x using that lo [of x] pk [of k] mid(1,2) by auto
    show ?thesis
    proof (cases post)
      case Nil
      obtain a s2 where new: "new_page [] [] (Some p) (Some (pos_inf_page s)) s = (a, s2)" by fastforce
      have m2: "ccmp s = (pre @ [(k, p)]) @ []" by (simp add: m Nil)
      have bc: "p = last (neg_inf_page s # map snd (pre @ [(k, p)]))" "pos_inf_page s = hd (map snd [] @ [pos_inf_page s])" by simp_all
      note add = add_empty_page [OF ok m2 bc new lo' _ sp' [unfolded Nil]]
      note ins = ccmp_insert_at [where xs = "pre @ [(k, p)]" and k = key and ys = "[]", OF lo']
      have "choose_page key i s = (length (pre @ [(k, p)]), s2\<lparr>ccmp := (pre @ [(k, p)]) @ [(key, a)]\<rparr>)"
      proof -
        have "ccmp_insert key a (ccmp s) = (pre @ [(k, p)]) @ [(key, a)]" "lower_bound (map fst (ccmp s)) key = length (pre @ [(k, p)])"
          "Suc i = length (ccmp s)" using ins len unfolding m2 by simp_all
        then show ?thesis
          using right new seq_adjacent(1) [OF ccm_okD(2) [OF ok] m2 bc] by (simp add: choose_page_def nth pkeys_def Let_def)
      qed
      then show ?thesis using add ch by auto
    next
      case (Cons x post')
      obtain k2 p2 where x: "x = (k2, p2)" by (cases x)
      have "slot_at key (i + 1) s (pre @ [(k, p)]) k2 p2 post'"
        using sp' slot mid(1) len unfolding slot_at_def key_splits_def m Cons x by auto
      moreover have "choose_page key i s = (i + 1, s)"
        using right len unfolding choose_page_def nth by (simp add: pkeys_def Let_def m Cons)
      ultimately show ?thesis using ch ccm_ok_weaken [OF ok] ok prepared_refl by (metis Pair_inject)
    qed
  next
    case left
    have pre: "pre = []" using le left(3) mid(2) by fastforce
    obtain a s2 where new: "new_page [] [] (Some (neg_inf_page s)) (Some p) s = (a, s2)" by fastforce
    have m2: "ccmp s = [] @ ((k, p) # post)" by (simp add: m pre)
    have bc: "neg_inf_page s = last (neg_inf_page s # map snd [])" "p = hd (map snd ((k, p) # post) @ [pos_inf_page s])" by simp_all
    have hi': "key < fst x" if "x \<in> set ((k, p) # post)" for x using that hi [of x] left(3) mid(2) by auto
    have sp': "key_splits (pkeys s) key [] ((k, p) # post)"
      using sp hd_le [OF mid(3)] left(3) by (auto simp: key_splits_def intro: less_le_trans)
    note add = add_empty_page [OF ok m2 bc new _ hi' sp']
    note ins = ccmp_insert_at [where xs = "[]" and k = key and ys = "(k, p) # post", OF _ hi']
    have "choose_page key i s = (0, s2\<lparr>ccmp := [(key, a)] @ (k, p) # post\<rparr>)"
    proof -
      have "ccmp_insert key a (ccmp s) = [(key, a)] @ (k, p) # post" "lower_bound (map fst (ccmp s)) key = 0" "i = 0"
        using ins len pre unfolding m2 by simp_all
      then show ?thesis
        using left nth new seq_adjacent(2) [OF ccm_okD(2) [OF ok] m2 bc] by (simp add: choose_page_def pkeys_def Let_def)
    qed
    then show ?thesis using add ch by auto
  next
    case here
    then have "choose_page key i s = (i, s)" unfolding choose_page_def nth by (auto simp: pkeys_def Let_def)
    then show ?thesis using stay ch by simp
  qed
qed

section \<open>Splitting a full page\<close>

lemma fold_split_step_ts:
  "fst (fold (\<lambda>a. split_step ttl_of (cs a)) es (ts, ttl)) = fold (\<lambda>a t. max t (cce_CommitTs (cs a))) es ts"
  by (induction es arbitrary: ts ttl) (simp_all add: split_step_def split_beta)

lemma fold_max_base: "(ts :: u64) \<le> fold (\<lambda>a t. max t (f a)) es ts"
proof (induction es arbitrary: ts)
  case (Cons a es)
  show ?case using order_trans [OF max.cobounded1 Cons.IH [of "max ts (f a)"]] by simp
qed simp

lemma fold_max_ge: "e \<in> set es \<Longrightarrow> f e \<le> fold (\<lambda>a t. max t (f a)) es (ts :: u64)"
proof (induction es arbitrary: ts)
  case (Cons a es)
  show ?case
  proof (cases "e = a")
    case True
    then show ?thesis using order_trans [OF max.cobounded2 fold_max_base [of "max ts (f a)" f es]] by simp
  next
    case False
    then show ?thesis using Cons by simp
  qed
qed simp

lemma lift_lru_page:
  assumes "lift_lru f s = Some s'"
  obtains l where "f (lst s) = Some l" "s' = s\<lparr>lst := l\<rparr>" "\<And>x. page s' x = pg l x"
  using assms by (auto simp: lift_lru_def page_def)

text \<open>The effect of the split on the pages, before the new page enters the LRU list.\<close>

definition after_split :: "nat \<Rightarrow> nat \<Rightarrow> nat \<Rightarrow> u64 \<Rightarrow> u64 \<Rightarrow> ('k, 'v, 'o, 'c) ccmap \<Rightarrow> ('k, 'v, 'o, 'c) ccmap \<Rightarrow> bool" where
  "after_split p a c ts ttl s s' \<longleftrightarrow>
     (\<forall>x. page s' x =
        (if x = a then (fresh_page s (drop 32 (pkeys s p)) (drop 32 (pents s p)) p c)
             \<lparr>last_dirty_commit_ts := ts, smallest_ttl := ttl\<rparr>
         else if x = p then (page s p)\<lparr>pg_keys := take 32 (pkeys s p), pg_entries := take 32 (pents s p), next_page := Some a\<rparr>
         else if x = c then (page s c)\<lparr>prev_page := Some a\<rparr> else page s x)) \<and>
     (\<forall>e \<in> set (drop 32 (pents s p)). cce_CommitTs (cces s e) \<le> ts) \<and>
     a = next_pg s \<and> next_pg s' = Suc a \<and> cces s' = cces s \<and> next_cce s' = next_cce s \<and> neg_inf_page s' = neg_inf_page s \<and>
     pos_inf_page s' = pos_inf_page s \<and> ccm_size s' = ccm_size s \<and> ccm_type s' = ccm_type s \<and> lock_of (csh s') = lock_of (csh s) \<and>
     clean_start_ccp (lst s') = clean_start_ccp (lst s) \<and>
     (\<forall>lk. lk_page (locks (csh s') lk) =
        (if \<exists>e \<in> set (drop 32 (pents s p)). lock_of (csh s) e = Some lk then Some a else lk_page (locks (csh s) lk)))"

lemma split_page_eq:
  assumes ok: "ccm_ok None s l" and m: "ccmp s = pre @ (k, p) # post" and full: "page_Full (page s p)"
  obtains a ts ttl s5 where "after_split p a (hd (map snd post @ [pos_inf_page s])) ts ttl s s5"
    "ccmp s5 = pre @ (k, p) # (hd (drop 32 (pkeys s p)), a) # post" "links_ok s5" "lru_ok (lst s5) l" "a \<notin> set (page_seq s)"
    "split_page ttl_of key (length pre) s =
      map_option (\<lambda>s6. (if hd (drop 32 (pkeys s p)) \<le> key then Suc (length pre) else length pre, s6))
        (if lru_next (page s5 p) \<noteq> None then lift_lru (lru_insert_after p a) s5 else Some s5)"
proof -
  let ?c = "hd (map snd post @ [pos_inf_page s])" and ?k2 = "drop 32 (pkeys s p)" and ?e2 = "drop 32 (pents s p)"
  have sh: "shape None (pkeys s) (pents s) (pre @ (k, p) # post)" using ccm_okD(1) [OF ok] by (simp add: m)
  note mid = shape_mid [OF sh]
  have len: "length (pkeys s p) = 64" using full by (simp add: page_Full_def page_Size_def split_threshold_def pkeys_def)
  let ?q = "(page s p)\<lparr>pg_keys := take 32 (pkeys s p), pg_entries := take 32 (pents s p)\<rparr>"
  let ?s1 = "mod_page p (\<lambda>_. ?q) s"
  obtain ts ttl where tt: "fold (\<lambda>a. split_step ttl_of (cces s a)) ?e2 (0, - 1) = (ts, ttl)" by fastforce
  have split: "page_Split ttl_of (cces s) (page s p) = (?k2, ?e2, ts, ttl, ?q)"
    using len tt by (simp add: page_Split_def pkeys_def pents_def)
  have m1: "ccmp ?s1 = (pre @ [(k, p)]) @ post" by (simp add: m)
  have bc: "p = last (neg_inf_page ?s1 # map snd (pre @ [(k, p)]))" "?c = hd (map snd post @ [pos_inf_page ?s1])" by simp_all
  have links1: "links_ok ?s1"
  proof -
    have "(\<lambda>a. next_page (page ?s1 a)) = (\<lambda>a. next_page (page s a))" "(\<lambda>a. prev_page (page ?s1 a)) = (\<lambda>a. prev_page (page s a))" by auto
    note this fun_cong [OF this(1)] fun_cong [OF this(2)]
    then show ?thesis using ccm_okD(2) [OF ok] unfolding links_ok_def page_seq_def by simp
  qed
  obtain a s2 where new: "new_page ?k2 ?e2 (Some p) (Some ?c) ?s1 = (a, s2)" by fastforce
  note links = new_page_links [OF links1 m1 bc new]
  note eq = new_page_eq [OF new links(2-4)]
  let ?s3 = "s2\<lparr>ccmp := (pre @ [(k, p)]) @ (hd ?k2, a) # post\<rparr>"
  let ?s4 = "mod_page a (\<lambda>r. r\<lparr>last_dirty_commit_ts := ts, smallest_ttl := ttl\<rparr>) ?s3"
  let ?s5 = "fold (UpdateCcPage a) ?e2 ?s4"
  have h2: "hd ?k2 \<in> set (pkeys s p)" using len by (metis drop_eq_Nil hd_in_set in_set_dropD not_less numeral_less_iff semiring_norm(68,76,78))
  have k: "k < hd ?k2"
  proof -
    have "pkeys s p ! 0 < pkeys s p ! 32" using sorted_wrt_nth_less [OF mid(3), of 0 32] len by simp
    then show ?thesis using mid(1,2) len by (simp add: hd_conv_nth hd_drop_conv_nth)
  qed
  have lo: "fst x < hd ?k2" if "x \<in> set (pre @ [(k, p)])" for x
    using that k shape_around(1) [OF sh h2, of x] by auto
  have hi: "hd ?k2 < fst x" if "x \<in> set post" for x using that shape_around(2) [OF sh h2, of x] by auto
  note ins = ccmp_insert_at [where xs = "pre @ [(k, p)]" and k = "hd ?k2" and ys = post, OF lo hi]
  have nth: "ccmp s ! length pre = (k, p)" by (simp add: m)
  have ins2: "ccmp_insert (hd ?k2) a (ccmp s2) = (pre @ [(k, p)]) @ (hd ?k2, a) # post"
    "lower_bound (map fst (ccmp s2)) (hd ?k2) = Suc (length pre)"
    using ins eq(3) m1 by simp_all
  have next1: "next_page (page ?s1 p) = Some ?c" using links(5) .
  have res: "split_page ttl_of key (length pre) s =
      map_option (\<lambda>s6. (if hd ?k2 \<le> key then Suc (length pre) else length pre, s6))
        (if lru_next (page ?s5 p) \<noteq> None then lift_lru (lru_insert_after p a) ?s5 else Some ?s5)"
    unfolding split_page_def nth snd_conv split Let_def prod.case next1 new ins2 by simp
  have pa: "p \<noteq> a" "?c \<noteq> a" using links(3,4) eq(1) by auto
  have dirty: "\<forall>e \<in> set ?e2. cce_CommitTs (cces s e) \<le> ts"
    using fold_max_ge [of _ ?e2 "\<lambda>a. cce_CommitTs (cces s a)" 0] fold_split_step_ts [of ttl_of "cces s" ?e2 0 "- 1"] tt by auto
  have as: "after_split p a ?c ts ttl s ?s5"
    unfolding after_split_def using pa links(2) dirty eq(1,2)
    by (auto simp: eq(4-13) fold_UpdateCcPage_lock fresh_page_def)
  have "lru_ok (lst ?s1) l"
    by (rule lru_ok_cong [of "lst s"]) (use ccm_okD(3) [OF ok] in \<open>simp_all add: lru_part_def upd_page_def page_def\<close>)
  then have "lru_ok (lst s2) l" using lru_ok_new_page [OF _ _ new links(2-4)] ccm_ok_lt [OF ok] by simp
  then have "lru_ok (lst ?s5) l" by (rule lru_ok_cong) (simp_all add: upd_page_def)
  moreover have "links_ok ?s5"
  proof -
    have "(\<lambda>x. next_page (page ?s5 x)) = (\<lambda>x. next_page (page ?s3 x))" "(\<lambda>x. prev_page (page ?s5 x)) = (\<lambda>x. prev_page (page ?s3 x))" by auto
    note this fun_cong [OF this(1)] fun_cong [OF this(2)]
    then show ?thesis using links(1) [of "hd ?k2"] unfolding links_ok_def page_seq_def by simp
  qed
  moreover have "a \<notin> set (page_seq s)" using links(6) by (simp add: page_seq_def)
  ultimately show thesis using that [OF as _ _ _ _ res] by simp
qed

end
