(* ===== verification/Page_Split.thy ===== *)
theory Page_Split
  imports Page_Map
begin

text \<open>
  Splitting a full page: the upper half of the keys moves to a new page behind it, in the chain of the pages,
  in the map and in the LRU list, and the contents of the map stay.
\<close>

section \<open>The split keeps the contents\<close>

text \<open>Putting the LRU links aside, an update of them leaves the pages alone.\<close>

lemma lru_same_page:
  assumes "lru_same s1 s2"
  shows "pg_keys (pg s2 x) = pg_keys (pg s1 x)" "pg_entries (pg s2 x) = pg_entries (pg s1 x)" "prev_page (pg s2 x) = prev_page (pg s1 x)"
    "next_page (pg s2 x) = next_page (pg s1 x)"
proof -
  have "LruPage.more (pg s2 x) = LruPage.more (pg s1 x)" by (rule lru_sameD(5) [OF assms])
  then show "pg_keys (pg s2 x) = pg_keys (pg s1 x)" "pg_entries (pg s2 x) = pg_entries (pg s1 x)" "prev_page (pg s2 x) = prev_page (pg s1 x)"
    "next_page (pg s2 x) = next_page (pg s1 x)"
    by (cases "pg s2 x"; cases "pg s1 x"; simp)+
qed

text \<open>Replacing the LRU state of a map by one with the same pages up to links and access times.\<close>

lemma ccm_ok_lst:
  assumes ok: "shape w (pkeys s) (pents s) (ccmp s)" "links_ok s" "locks_ok s" "ents_ok s" and par: "\<And>p. p \<in> snd ` set (ccmp s) \<Longrightarrow> parent_type (page s p) = ccm_type s"
    and same: "\<And>x. LruPage.more (pg L x) = LruPage.more (pg (lst s) x)" "\<And>x. parent_type (pg L x) = parent_type (pg (lst s) x)"
    and L: "lru_ok L l'" "\<And>a. a \<in> set l' \<Longrightarrow> a < next_pg s \<and> a \<noteq> neg_inf_page s \<and> a \<noteq> pos_inf_page s"
      "\<And>p. p \<in> snd ` set (ccmp s) \<Longrightarrow> p \<in> set l' \<longleftrightarrow> in_lru_type (ccm_type s) \<and> pkeys s p \<noteq> []"
  shows "ccm_ok w (s\<lparr>lst := L\<rparr>) l'" "pkeys (s\<lparr>lst := L\<rparr>) = pkeys s" "pents (s\<lparr>lst := L\<rparr>) = pents s" "view (s\<lparr>lst := L\<rparr>) = view s"
proof -
  have pg: "pg_keys (pg L x) = pg_keys (pg (lst s) x) \<and> pg_entries (pg L x) = pg_entries (pg (lst s) x) \<and>
    prev_page (pg L x) = prev_page (pg (lst s) x) \<and> next_page (pg L x) = next_page (pg (lst s) x)" for x
    using same(1) [of x] by (cases "pg L x"; cases "pg (lst s) x") simp
  show K: "pkeys (s\<lparr>lst := L\<rparr>) = pkeys s" and E: "pents (s\<lparr>lst := L\<rparr>) = pents s"
    using pg by (auto simp: pkeys_def pents_def page_def fun_eq_iff)
  then show "view (s\<lparr>lst := L\<rparr>) = view s" by (simp add: view_def)
  have "links_ok (s\<lparr>lst := L\<rparr>)" using ok(2) pg by (simp add: links_ok_def page_seq_def page_def)
  moreover have "locks_ok (s\<lparr>lst := L\<rparr>)" "ents_ok (s\<lparr>lst := L\<rparr>)" using ok(3,4) by (simp_all add: locks_ok_def ents_ok_def K E)
  moreover have "lru_part (s\<lparr>lst := L\<rparr>) l'"
    using par L same(2) by (auto simp: lru_part_def K page_def)
  ultimately show "ccm_ok w (s\<lparr>lst := L\<rparr>) l'" using ok(1) by (simp add: ccm_ok_def K E)
qed

lemma entry_page_unique:
  assumes "distinct (all_entries E m)" "x \<in> set m" "y \<in> set m" "e \<in> set (E (snd x))" "e \<in> set (E (snd y))"
  shows "x = y"
  using assms
proof (induction m)
  case (Cons z m)
  have "e \<in> set (all_entries E m)" if "w \<in> set m" "e \<in> set (E (snd w))" for w using that by (auto simp: all_entries_def)
  then have w: "w \<notin> set m \<or> e \<notin> set (E (snd w))" if "e \<in> set (E (snd z))" for w
    using Cons.prems(1) that by (metis (no_types, lifting) all_simps(5) disjoint_iff distinct_append)
  consider "x = z" "y = z" | "x = z" "y \<in> set m" | "y = z" "x \<in> set m" | "x \<in> set m" "y \<in> set m" using Cons.prems(2,3) by auto
  then show ?case
  proof cases
    case 4
    then show ?thesis using Cons by auto
  qed (use Cons.prems(4,5) w in auto)
qed simp

lemma split_locks:
  assumes ok: "ccm_ok None s l" and m: "ccmp s = pre @ (k, p) # post" and as: "after_split p a c ts ttl s s5"
    and E: "pents s5 = (pents s)(p := take 32 (pents s p), a := drop 32 (pents s p))"
    and m5: "ccmp s5 = pre @ (k, p) # (k2, a) # post" and ap: "a \<noteq> p" "a \<notin> snd ` set (pre @ (k, p) # post)"
  shows "locks_ok s5"
proof -
  let ?e2 = "drop 32 (pents s p)"
  have old: "locks_ok s" by (rule ccm_okD(4) [OF ok])
  have inj: "e = e'" if "lock_of (csh s) e = Some lk" "lock_of (csh s) e' = Some lk" for e e' lk
    using old that by (auto simp: locks_ok_def)
  have lockof: "lock_of (csh s5) = lock_of (csh s)" and "next_cce s5 = next_cce s" using as by (simp_all add: after_split_def)
  have new: "lk_page (locks (csh s5) lk) = (if e \<in> set ?e2 then Some a else lk_page (locks (csh s) lk))" if "lock_of (csh s) e = Some lk" for e lk
  proof -
    have "lk_page (locks (csh s5) lk) =
        (if \<exists>e \<in> set ?e2. lock_of (csh s) e = Some lk then Some a else lk_page (locks (csh s) lk))"
      using as unfolding after_split_def by blast
    moreover have "(\<exists>e \<in> set ?e2. lock_of (csh s) e = Some lk) \<longleftrightarrow> e \<in> set ?e2" using that inj [OF that] by blast
    ultimately show ?thesis by simp
  qed
  have dis: "distinct (all_entries (pents s) (ccmp s))" using ccm_okD(1) [OF ok] by (simp add: shape_def)
  then have disp: "distinct (pents s p)" by (simp add: m)
  have "lk_page (locks (csh s5) lk) = Some q" if q: "q \<in> snd ` set (ccmp s5)" and e: "e \<in> set (pents s5 q)" and lk: "lock_of (csh s) e = Some lk" for q e lk
  proof -
    have o: "lk_page (locks (csh s) lk) = Some q'" if "q' \<in> snd ` set (ccmp s)" "e \<in> set (pents s q')" for q'
      using old that lk by (auto simp: locks_ok_def)
    consider "q = a" | "q = p" | "q \<noteq> a" "q \<noteq> p" by blast
    then show ?thesis
    proof cases
      case 1
      then show ?thesis using e new [OF lk] by (simp add: E)
    next
      case 2
      then have "e \<in> set (take 32 (pents s p))" using e ap by (simp add: E)
      then have "e \<notin> set ?e2" "e \<in> set (pents s p)" using disp set_take_disj_set_drop_if_distinct [OF disp, of 32 32] by (auto dest: in_set_takeD)
      then show ?thesis using new [OF lk] o [of p] 2 by (simp add: m)
    next
      case 3
      then obtain x where x: "x \<in> set (ccmp s)" "snd x = q" using q by (auto simp: m m5)
      have eq: "e \<in> set (pents s q)" using e 3 by (simp add: E)
      then have "e \<notin> set (pents s p)" using entry_page_unique [OF dis x(1), of "(k, p)" e] x(2) 3 by (auto simp: m)
      then have "e \<notin> set ?e2" by (auto dest: in_set_dropD)
      then show ?thesis using new [OF lk] o [of q] eq x by auto
    qed
  qed
  then show ?thesis using old unfolding locks_ok_def lockof \<open>next_cce s5 = next_cce s\<close> by blast
qed

text \<open>The new page enters the LRU list behind the one it was split from.\<close>

lemma split_lru:
  fixes s5 :: "('k::linorder, 'v, 'o, 'c) ccmap"
  assumes ok: "lru_ok (lst s5) l" and a: "a \<notin> set (head_ccp # l @ [tail_ccp])" and p: "p \<noteq> head_ccp" "p \<noteq> tail_ccp"
  obtains L l' where "(if lru_next (page s5 p) \<noteq> None then lift_lru (lru_insert_after p a) s5 else Some s5) = Some (s5\<lparr>lst := L\<rparr>)"
    "lru_ok L l'" "set l' = (if p \<in> set l then insert a (set l) else set l)"
    "\<forall>x. LruPage.more (pg L x) = LruPage.more (pg (lst s5) x) \<and> parent_type (pg L x) = parent_type (pg (lst s5) x) \<and>
      last_dirty_commit_ts (pg L x) = last_dirty_commit_ts (pg (lst s5) x)"
proof (cases "p \<in> set l")
  case True
  then obtain ys zs where l: "l = ys @ p # zs" by (auto dest: split_list)
  have "lru_next (page s5 p) \<noteq> None" using True lru_ok_in_iff [OF ok p] by (simp add: page_def)
  moreover obtain L where "lru_insert_after p a (lst s5) = Some L" "lru_ok L (ys @ p # a # zs)"
    "lru_same (upd_page a (\<lambda>q. q\<lparr>last_access_ts := last_access_ts (pg (lst s5) p)\<rparr>) (lst s5)) L"
    using lru_insert_after_ok [of "lst s5" ys p zs a] ok a unfolding l by auto
  moreover from this have "LruPage.more (pg L x) = LruPage.more (pg (lst s5) x) \<and> parent_type (pg L x) = parent_type (pg (lst s5) x) \<and>
      last_dirty_commit_ts (pg L x) = last_dirty_commit_ts (pg (lst s5) x)" for x
    by (simp add: lru_same_def upd_page_def)
  ultimately show ?thesis
    using that [of L "ys @ p # a # zs"] True l by (auto simp: lift_lru_def)
next
  case False
  then have "lru_next (page s5 p) = None" using lru_ok_in_iff [OF ok p] by (simp add: page_def)
  then show ?thesis using that [of "lst s5" l] ok False by simp
qed

lemma split_page_ok:
  assumes ok: "ccm_ok None s l" and slot: "slot_at key i s pre k p post" and full: "page_Full (page s p)"
  shows "\<exists>i2 s2 l2 pre2 k2 p2 post2. split_page ttl_of key i s = Some (i2, s2) \<and> ccm_ok None s2 l2 \<and> prepared s s2 \<and>
    slot_at key i2 s2 pre2 k2 p2 post2 \<and> \<not> page_Full (page s2 p2)"
proof -
  have m: "ccmp s = pre @ (k, p) # post" and i: "i = length pre" and sp: "key_splits (pkeys s) key pre post" and notin: "key \<notin> set (pkeys s p)"
    using slot by (auto simp: slot_at_def)
  let ?c = "hd (map snd post @ [pos_inf_page s])" and ?k1 = "take 32 (pkeys s p)" and ?k2 = "drop 32 (pkeys s p)"
    and ?e1 = "take 32 (pents s p)" and ?e2 = "drop 32 (pents s p)"
  obtain a ts ttl s5 where as: "after_split p a ?c ts ttl s s5" and m5: "ccmp s5 = pre @ (k, p) # (hd ?k2, a) # post" and links5: "links_ok s5"
    and lru5: "lru_ok (lst s5) l" and a: "a \<notin> set (page_seq s)"
    and res: "split_page ttl_of key (length pre) s = map_option (\<lambda>s6. (if hd ?k2 \<le> key then Suc (length pre) else length pre, s6))
        (if lru_next (page s5 p) \<noteq> None then lift_lru (lru_insert_after p a) s5 else Some s5)"
    using split_page_eq [OF ok m full] by metis
  have sh: "shape None (pkeys s) (pents s) (pre @ (k, p) # post)" using ccm_okD(1) [OF ok] by (simp add: m)
  note mid = shape_mid [OF sh]
  have len: "length (pkeys s p) = 64" "length (pents s p) = 64"
    using full sh by (auto simp: page_Full_def page_Size_def split_threshold_def pkeys_def shape_def page_shape_def)
  have ap: "a \<noteq> p" "a \<notin> snd ` set (pre @ (k, p) # post)" using a by (auto simp: page_seq_def m)
  have pc: "p \<noteq> ?c" "a \<noteq> ?c"
  proof -
    have "distinct (page_seq s)" using ccm_okD(2) [OF ok] by (simp add: links_ok_def)
    moreover have "?c \<in> set (map snd post @ [pos_inf_page s])" by (rule hd_in_set) simp
    ultimately show "p \<noteq> ?c" "a \<noteq> ?c" using a by (auto simp: page_seq_def m)
  qed
  have K: "pkeys s5 = (pkeys s)(p := ?k1, a := ?k2)" and E: "pents s5 = (pents s)(p := ?e1, a := ?e2)"
    using as pc ap by (auto simp: after_split_def pkeys_def pents_def fresh_page_def fun_eq_iff)
  have ne: "?k1 \<noteq> []" "?k2 \<noteq> []" "length ?e1 = length ?k1" using len by auto
  note shs = shape_split [OF sh, of ?k1 ?k2 ?e1 ?e2 a, OF _ ne(1,2) _ ne(3) ap(2)]
  have sh5: "shape None (pkeys s5) (pents s5) (ccmp s5)" and keys: "all_keys (pkeys s5) (ccmp s5) = all_keys (pkeys s) (ccmp s)"
    and ents: "all_entries (pents s5) (ccmp s5) = all_entries (pents s) (ccmp s)"
    using shs by (simp_all add: K E m m5)
  have lr: "p \<in> set l \<longleftrightarrow> in_lru_type (ccm_type s)" "a \<notin> set (head_ccp # l @ [tail_ccp])" "p \<noteq> head_ccp" "p \<noteq> tail_ccp"
    using ccm_okD(3) [OF ok] ccm_ok_lt [OF ok] ccm_okD(2) [OF ok] mid(1) as
    by (auto simp: lru_part_def m after_split_def links_ok_def page_seq_def)
  have par: "parent_type (page s5 x) = (if x = a then ccm_type s else parent_type (page s x))" for x
    using as by (simp add: after_split_def fresh_page_def)
  have fr: "next_pg s5 = Suc a" "a = next_pg s" "cces s5 = cces s" "next_cce s5 = next_cce s" "neg_inf_page s5 = neg_inf_page s"
    "pos_inf_page s5 = pos_inf_page s" "ccm_size s5 = ccm_size s" "ccm_type s5 = ccm_type s" "lock_of (csh s5) = lock_of (csh s)"
    using as by (simp_all add: after_split_def)
  have ents5: "ents_ok s5" using ccm_okD(5) [OF ok] by (simp add: ents_ok_def keys ents fr)
  have locks5: "locks_ok s5" by (rule split_locks [OF ok m as E m5 ap])
  obtain L l' where L: "(if lru_next (page s5 p) \<noteq> None then lift_lru (lru_insert_after p a) s5 else Some s5) = Some (s5\<lparr>lst := L\<rparr>)"
    "lru_ok L l'" "set l' = (if p \<in> set l then insert a (set l) else set l)"
    "\<forall>x. LruPage.more (pg L x) = LruPage.more (pg (lst s5) x) \<and> parent_type (pg L x) = parent_type (pg (lst s5) x) \<and>
      last_dirty_commit_ts (pg L x) = last_dirty_commit_ts (pg (lst s5) x)"
    by (rule split_lru [OF lru5 lr(2-4)])
  let ?s6 = "s5\<lparr>lst := L\<rparr>"
  have inm: "q \<in> snd ` set (ccmp s)" if "q \<in> snd ` set (ccmp s5)" "q \<noteq> a" for q using that by (auto simp: m m5)
  have lp: "parent_type (page s q) = ccm_type s \<and> (q \<in> set l \<longleftrightarrow> in_lru_type (ccm_type s))" if "q \<in> snd ` set (ccmp s)" for q
    using ccm_okD(3) [OF ok] shape_ne [OF ccm_okD(1) [OF ok]] that by (auto simp: lru_part_def)
  have lb: "x < next_pg s \<and> x \<noteq> neg_inf_page s \<and> x \<noteq> pos_inf_page s" if "x \<in> set l" for x
    using ccm_okD(3) [OF ok] that by (simp add: lru_part_def)
  have p5: "parent_type (page s5 q) = ccm_type s5" if "q \<in> snd ` set (ccmp s5)" for q using lp inm [OF that] by (simp add: par fr)
  have b5: "x < next_pg s5 \<and> x \<noteq> neg_inf_page s5 \<and> x \<noteq> pos_inf_page s5" if "x \<in> set l'" for x
    using that L(3) lb [of x] a unfolding fr by (auto simp: page_seq_def fr split: if_splits)
  have i5: "q \<in> set l' \<longleftrightarrow> in_lru_type (ccm_type s5) \<and> pkeys s5 q \<noteq> []" if "q \<in> snd ` set (ccmp s5)" for q
  proof -
    have ne: "pkeys s5 q \<noteq> []" using that shape_ne [OF sh5] by auto
    show ?thesis
    proof (cases "q = a")
      case True
      then show ?thesis using ne L(3) lr(1,2) by (simp add: fr(8))
    next
      case False
      then show ?thesis using ne L(3) lp [OF inm [OF that]] by (simp add: fr(8))
    qed
  qed
  have s6: "ccm_ok None ?s6 l'" "pkeys ?s6 = pkeys s5" "pents ?s6 = pents s5" "view ?s6 = view s5"
    by (rule ccm_ok_lst [OF sh5 links5 locks5 ents5 p5 _ _ L(2) b5 i5]; use L(4) in simp)+
  have dirty: "last_dirty_commit_ts (page ?s6 x) = (if x = a then ts else last_dirty_commit_ts (page s x))" for x
    using L(4) as by (simp add: page_def after_split_def)
  have newer: "\<forall>e \<in> set ?e2. cce_CommitTs (cces s e) \<le> ts" using as by (simp add: after_split_def)
  have "dirty_ok ?s6" if d: "dirty_ok s"
    unfolding dirty_ok_def
  proof (intro ballI)
    fix q e assume "q \<in> snd ` set (ccmp ?s6)" and "e \<in> set (pents ?s6 q)"
    then have q: "q \<in> snd ` set (ccmp s5)" and e: "e \<in> set (((pents s)(p := ?e1, a := ?e2)) q)" by (simp_all add: s6(3) E)
    show "IsPersistent True False (entry_info (cces ?s6 e)) \<or> cce_CommitTs (cces ?s6 e) \<le> last_dirty_commit_ts (page ?s6 q)"
    proof (cases "q = a")
      case True
      then show ?thesis using e newer by (simp add: dirty fr(3))
    next
      case False
      then have "e \<in> set (pents s q)" using e by (auto split: if_splits dest: in_set_takeD)
      then show ?thesis using d inm [OF q False] False by (auto simp: dirty fr(3) dirty_ok_def)
    qed
  qed
  then have prep: "prepared s ?s6" by (simp add: prepared_def s6(4) fr) (simp add: view_def keys ents)
  have "sorted_wrt (<) (?k1 @ ?k2)" using mid(3) by simp
  then have srt: "sorted_wrt (<) ?k2" "\<forall>x \<in> set ?k1. \<forall>y \<in> set ?k2. x < y" unfolding sorted_wrt_append by blast+
  have notp: "p \<notin> snd ` set pre" "p \<notin> snd ` set post" using sh by (auto simp: shape_def)
  have ap': "a \<notin> snd ` set pre" "a \<notin> snd ` set post" using ap(2) by auto
  have k5: "all_keys (pkeys s5) pre = all_keys (pkeys s) pre" "all_keys (pkeys s5) post = all_keys (pkeys s) post" "pkeys s5 p = ?k1" "pkeys s5 a = ?k2"
    using ap(1) ap' notp by (simp_all add: K)
  have notin12: "key \<notin> set ?k1" "key \<notin> set ?k2" using notin by (auto dest: in_set_takeD in_set_dropD)
  have other: "pkeys s5 (snd x) \<noteq> []" if "x \<in> set (ccmp s5)" for x using shape_ne [OF sh5 that] .
  have len5: "\<not> page_Full (page ?s6 x)" if "length (pkeys s5 x) = 32" for x
    using that s6(2) by (simp add: page_Full_def page_Size_def split_threshold_def pkeys_def fun_eq_iff)
  show ?thesis
  proof (cases "hd ?k2 \<le> key")
    case True
    have "\<forall>x \<in> set ?k1. x < key" using srt(2) hd_in_set [OF ne(2)] less_le_trans [OF _ True] by blast
    then have "slot_at key (Suc i) ?s6 (pre @ [(k, p)]) (hd ?k2) a post"
      using sp notin12 other mid(1) ne by (simp add: slot_at_def s6(2) m5 i key_splits_def k5 ) (auto simp: k5)
    then show ?thesis using res L(1) s6(1) prep True len5 [of a] len by (auto simp: i k5)
  next
    case False
    have "\<forall>x \<in> set ?k2. key < x" using hd_le [OF srt(1)] False by fastforce
    then have "slot_at key i ?s6 pre k p ((hd ?k2, a) # post)"
      using sp notin12 other mid(1) ne by (simp add: slot_at_def s6(2) m5 i key_splits_def k5 ) (auto simp: k5)
    then show ?thesis using res L(1) s6(1) prep False len5 [of p] len ap by (auto simp: i k5)
  qed
qed


end
