(* ===== verification/Page_Emplace.thy ===== *)
theory Page_Emplace
  imports Page_Split Shard_Properties
begin

text \<open>
  Finding and inserting a key: \<open>FindEmplace\<close> implements lookup and insertion on the sorted list of keys and
  entries of the map.
\<close>

section \<open>Accessing a page\<close>

lemma access_page:
  assumes ok: "shape None (pkeys s) (pents s) (ccmp s)" "links_ok s" "locks_ok s" "ents_ok s" and lru: "lru_ok (lst s) l"
    and p: "p \<in> snd ` set (ccmp s)"
    and par: "\<And>q. q \<in> snd ` set (ccmp s) \<Longrightarrow> parent_type (page s q) = ccm_type s"
    and lb: "\<And>x. x \<in> set l \<Longrightarrow> x < next_pg s \<and> x \<noteq> neg_inf_page s \<and> x \<noteq> pos_inf_page s"
    and li: "\<And>q. q \<in> snd ` set (ccmp s) \<Longrightarrow> q \<noteq> p \<or> \<not> in_lru_type (ccm_type s) \<Longrightarrow> q \<in> set l \<longleftrightarrow> in_lru_type (ccm_type s)"
  shows "\<exists>L l'. UpdateLruList p em (lst s) = Some L \<and> ccm_ok None (s\<lparr>lst := L\<rparr>) l' \<and> pkeys (s\<lparr>lst := L\<rparr>) = pkeys s \<and>
    pents (s\<lparr>lst := L\<rparr>) = pents s \<and> view (s\<lparr>lst := L\<rparr>) = view s \<and> (\<forall>x. last_dirty_commit_ts (pg L x) = last_dirty_commit_ts (page s x))"
proof -
  have pb: "p < next_pg s" "p \<noteq> neg_inf_page s" "p \<noteq> pos_inf_page s" "p \<noteq> head_ccp" "p \<noteq> tail_ccp"
    using ok(2) p by (simp_all add: links_ok_def page_seq_def) (cases "p = neg_inf_page s"; cases "p = pos_inf_page s"; auto)+
  have ne: "pkeys s q \<noteq> []" if "q \<in> snd ` set (ccmp s)" for q using shape_ne [OF ok(1)] that by auto
  obtain L l' where L: "UpdateLruList p em (lst s) = Some L" "lru_ok L l'" "set l' = (if in_lru_type (ccm_type s) then insert p (set l) else set l)"
    "\<forall>x. LruPage.more (pg L x) = LruPage.more (pg (lst s) x) \<and> parent_type (pg L x) = parent_type (pg (lst s) x) \<and>
      last_dirty_commit_ts (pg L x) = last_dirty_commit_ts (pg (lst s) x)"
  proof (cases "in_lru_type (ccm_type s)")
    case True
    then have ty: "in_lru_type (parent_type (pg (lst s) p))" using par [OF p] by (simp add: page_def)
    obtain L where "UpdateLruList p em (lst s) = Some L" "lru_ok L (remove1 p l @ [p])" "lru_same (touch p (lst s)) L"
      using UpdateLruList_refines [OF lru pb(4,5) ty] by blast
    moreover have "set (remove1 p l @ [p]) = insert p (set l)" using lru_okD(2) [OF lru] by auto
    ultimately show ?thesis using that [of L "remove1 p l @ [p]"] True by (simp add: lru_same_def touch_def upd_page_def)
  next
    case False
    then show ?thesis using that [of "lst s" l] lru par [OF p] by (simp add: UpdateLruList_def page_def)
  qed
  have b: "x < next_pg s \<and> x \<noteq> neg_inf_page s \<and> x \<noteq> pos_inf_page s" if "x \<in> set l'" for x
    using that lb [of x] pb L(3) by (auto split: if_splits)
  have i: "q \<in> set l' \<longleftrightarrow> in_lru_type (ccm_type s) \<and> pkeys s q \<noteq> []" if "q \<in> snd ` set (ccmp s)" for q
    using li [OF that] ne [OF that] L(3) by (auto split: if_splits)
  have "ccm_ok None (s\<lparr>lst := L\<rparr>) l'" "pkeys (s\<lparr>lst := L\<rparr>) = pkeys s" "pents (s\<lparr>lst := L\<rparr>) = pents s" "view (s\<lparr>lst := L\<rparr>) = view s"
    by (rule ccm_ok_lst [OF ok par _ _ L(2) b i]; use L(4) in simp)+
  then show ?thesis using L(1,4) by (auto simp: page_def)
qed

section \<open>Inserting into a page\<close>

lemma page_Emplace_eq:
  fixes key :: "'k::linorder"
  assumes "sorted_wrt (<) (pg_keys p)"
  shows "page_Emplace key e p = (lower_bound (pg_keys p) key,
    p\<lparr>pg_keys := insert_at (lower_bound (pg_keys p) key) key (pg_keys p), pg_entries := insert_at (lower_bound (pg_keys p) key) e (pg_entries p)\<rparr>)"
proof -
  have "lower_bound (pg_keys p) key = length (pg_keys p)" if "last (pg_keys p) < key"
  proof -
    have "\<forall>x \<in> set (pg_keys p). x < key" using sorted_le_last [OF assms] that by fastforce
    then have "takeWhile (\<lambda>x. x < key) (pg_keys p) = pg_keys p" by (simp only: takeWhile_eq_all_conv)
    then show ?thesis by (simp only: lower_bound_def)
  qed
  then show ?thesis by (auto simp: page_Emplace_def Let_def)
qed

lemma TryUpdatePageKey_eq:
  assumes m: "ccmp s = pre @ (k, p) # post" and i: "length pre = i"
    and ks: "\<And>x. x \<in> set pre \<Longrightarrow> fst x < hd (pkeys s p)" "\<And>x. x \<in> set post \<Longrightarrow> hd (pkeys s p) < fst x"
  shows "TryUpdatePageKey i s = (i, s\<lparr>ccmp := pre @ (hd (pkeys s p), p) # post\<rparr>)"
proof -
  have "ccmp s ! i = (k, p)" "remove_at i (ccmp s) = pre @ post" using i by (auto simp: m remove_at_def)
  then show ?thesis
    using ccmp_insert_at [OF ks] i m by (cases s) (auto simp: TryUpdatePageKey_def Let_def pkeys_def [symmetric])
qed

text \<open>The state of the map after the insertion, before the LRU list learns of it.\<close>

definition emplaced :: "'k::linorder \<Rightarrow> ('k \<times> nat) list \<Rightarrow> nat \<Rightarrow> ('k \<times> nat) list \<Rightarrow> ('k, 'v, 'o, 'c) ccmap \<Rightarrow> ('k, 'v, 'o, 'c) ccmap" where
  "emplaced key pre p post s =
     (let pos = lower_bound (pkeys s p) key; ks = insert_at pos key (pkeys s p)
      in (mod_page p (\<lambda>q. q\<lparr>pg_keys := ks, pg_entries := insert_at pos (next_cce s) (pents s p)\<rparr>) s)
           \<lparr>cces := (cces s)(next_cce s := CcEntry_new), next_cce := next_cce s + 1, ccmp := pre @ (hd ks, p) # post, ccm_size := ccm_size s + 1\<rparr>)"

lemma emplaced_simps [simp]:
  "pkeys (emplaced key pre p post s) = (pkeys s)(p := insert_at (lower_bound (pkeys s p) key) key (pkeys s p))"
  "pents (emplaced key pre p post s) = (pents s)(p := insert_at (lower_bound (pkeys s p) key) (next_cce s) (pents s p))"
  "ccmp (emplaced key pre p post s) = pre @ (hd (insert_at (lower_bound (pkeys s p) key) key (pkeys s p)), p) # post"
  "cces (emplaced key pre p post s) = (cces s)(next_cce s := CcEntry_new)" "next_cce (emplaced key pre p post s) = Suc (next_cce s)"
  "csh (emplaced key pre p post s) = csh s" "next_pg (emplaced key pre p post s) = next_pg s" "ccm_type (emplaced key pre p post s) = ccm_type s"
  "neg_inf_page (emplaced key pre p post s) = neg_inf_page s" "pos_inf_page (emplaced key pre p post s) = pos_inf_page s"
  "ccm_size (emplaced key pre p post s) = Suc (ccm_size s)"
  "next_page (page (emplaced key pre p post s) x) = next_page (page s x)" "prev_page (page (emplaced key pre p post s) x) = prev_page (page s x)"
  "parent_type (page (emplaced key pre p post s) x) = parent_type (page s x)"
  "lru_next (page (emplaced key pre p post s) x) = lru_next (page s x)" "lru_prev (page (emplaced key pre p post s) x) = lru_prev (page s x)"
  "last_dirty_commit_ts (page (emplaced key pre p post s) x) = last_dirty_commit_ts (page s x)"
  "clean_start_ccp (lst (emplaced key pre p post s)) = clean_start_ccp (lst s)"
  by (auto simp: emplaced_def Let_def pkeys_def pents_def fun_eq_iff)

lemma emplace_in_eq:
  assumes slot: "slot_at key i s pre k p post" and srt: "sorted_wrt (<) (pkeys s p)"
    and ks: "sorted_wrt (<) (map fst (ccmp (emplaced key pre p post s)))"
  shows "emplace_in key i s = map_option (\<lambda>L. (CAt p (lower_bound (pkeys s p) key), (emplaced key pre p post s)\<lparr>lst := L\<rparr>))
    (UpdateLruList p True (lst (emplaced key pre p post s)))"
proof -
  have m: "ccmp s = pre @ (k, p) # post" and i: "length pre = i" using slot by (auto simp: slot_at_def)
  let ?pos = "lower_bound (pkeys s p) key"
  let ?q = "(page s p)\<lparr>pg_keys := insert_at ?pos key (pkeys s p), pg_entries := insert_at ?pos (next_cce s) (pents s p)\<rparr>"
  let ?s1 = "(mod_page p (\<lambda>_. ?q) s)\<lparr>cces := (cces s)(next_cce s := CcEntry_new), next_cce := next_cce s + 1\<rparr>"
  have em: "page_Emplace key (next_cce s) (page s p) = (?pos, ?q)" using page_Emplace_eq srt by (simp add: pkeys_def pents_def)
  have p1: "pkeys ?s1 p = insert_at ?pos key (pkeys s p)" "ccmp ?s1 = pre @ (k, p) # post" by (simp_all add: pkeys_def m)
  have tk: "TryUpdatePageKey i ?s1 = (i, ?s1\<lparr>ccmp := pre @ (hd (pkeys ?s1 p), p) # post\<rparr>)"
    by (rule TryUpdatePageKey_eq [OF p1(2) i]) (use ks p1 in \<open>auto simp: sorted_wrt_append\<close>)
  have at: "snd (ccmp s ! i) = p" using i by (auto simp: m)
  have l: "lst (emplaced key pre p post s) = lst (?s1\<lparr>ccmp := pre @ (hd (pkeys ?s1 p), p) # post\<rparr>)"
    by (simp add: emplaced_def Let_def upd_page_def page_def)
  show ?thesis unfolding emplace_in_def at em Let_def prod.case tk [unfolded p1(1)] lift_lru_def l [unfolded p1(1), symmetric] option.map_comp
    by (rule arg_cong [where f = "\<lambda>f. map_option f _"]) (simp add: fun_eq_iff emplaced_def Let_def mod_page_def upd_page_def page_def)
qed

lemma emplaced_locks:
  assumes ok: "locks_ok s" and m: "ccmp s = pre @ (k, p) # post"
  shows "locks_ok (emplaced key pre p post s)"
proof -
  have new: "lock_of (csh s) (next_cce s) = None" using ok by (simp add: locks_ok_def)
  have "lk_page (locks (csh s) lk) = Some q"
    if "q \<in> snd ` set (ccmp (emplaced key pre p post s))" "e \<in> set (pents (emplaced key pre p post s) q)" "lock_of (csh s) e = Some lk" for q e lk
  proof -
    have "q \<in> snd ` set (ccmp s)" using that(1) by (auto simp: m)
    moreover have "e \<in> set (pents s q)" using that(2,3) new by (auto simp: insert_at_simps split: if_splits)
    ultimately show ?thesis using ok that(3) by (auto simp: locks_ok_def)
  qed
  then show ?thesis using ok unfolding locks_ok_def emplaced_simps(5,6) by (meson Suc_leD)
qed

lemma emplaced_contents:
  assumes ok: "ccm_ok (Some key) s l" and slot: "slot_at key i s pre k p post" and room: "\<not> page_Full (page s p)"
  shows "shape None (pkeys (emplaced key pre p post s)) (pents (emplaced key pre p post s)) (ccmp (emplaced key pre p post s))"
    "view (emplaced key pre p post s) = ins key (next_cce s) (view s)" "ents_ok (emplaced key pre p post s)"
proof -
  let ?s' = "emplaced key pre p post s"
  have m: "ccmp s = pre @ (k, p) # post" and sp: "key_splits (pkeys s) key pre post" and notin: "key \<notin> set (pkeys s p)"
    and ne: "\<And>x. x \<in> set (pre @ post) \<Longrightarrow> pkeys s (snd x) \<noteq> []"
    using slot by (auto simp: slot_at_def)
  have sh: "shape (Some key) (pkeys s) (pents s) (pre @ (k, p) # post)" using ccm_okD(1) [OF ok] by (simp add: m)
  have ents: "\<forall>e \<in> set (all_entries (pents s) (ccmp s)). neg_inf_cce < e \<and> e < next_cce s" "neg_inf_cce < next_cce s" "ccm_size s = length (all_keys (pkeys s) (ccmp s))"
    using ccm_okD(5) [OF ok] by (simp_all add: ents_ok_def)
  have "page_shape (Some key) (pkeys s) (pents s) (k, p)" using sh by (simp add: shape_def)
  then have lt: "length (pkeys s p) < split_threshold" using room by (auto simp: page_shape_def page_Full_def page_Size_def pkeys_def)
  have fresh: "next_cce s \<notin> set (all_entries (pents s) (pre @ (k, p) # post))" using ents(1) unfolding m by blast
  note em = shape_emplace [OF sh sp notin lt fresh ne]
  show sh': "shape None (pkeys ?s') (pents ?s') (ccmp ?s')" using em(1) by simp
  show v: "view ?s' = ins key (next_cce s) (view s)" using em(2) by (simp add: view_def m)
  have len: "length (view t) = length (all_keys (pkeys t) (ccmp t)) \<and> set (map snd (view t)) = set (all_entries (pents t) (ccmp t))"
    if "shape w (pkeys t) (pents t) (ccmp t)" for w and t :: "('a, 'b, 'c, 'd) ccmap"
    using that shape_lengths [of w "pkeys t" "pents t" "ccmp t"] by (simp add: shape_def view_def del: set_map)
  have l: "length (ins key e xs) = Suc (length xs)" "set (map snd (ins key e xs)) = insert e (set (map snd xs))" for e :: nat and xs :: "('a \<times> nat) list"
    unfolding ins_def length_append list.size add_Suc_right by (simp_all flip: length_append) (metis image_Un set_append takeWhile_dropWhile_id)
  have "set (all_entries (pents ?s') (ccmp ?s')) = insert (next_cce s) (set (all_entries (pents s) (ccmp s)))"
    "length (all_keys (pkeys ?s') (ccmp ?s')) = Suc (length (all_keys (pkeys s) (ccmp s)))"
    using len [OF sh'] len [OF ccm_okD(1) [OF ok]] l unfolding v by metis+
  then show "ents_ok ?s'"
    using ents unfolding ents_ok_def emplaced_simps(5,11) by (simp only: ball_simps less_Suc_eq) blast
qed

definition at_entry :: "('k, 'v, 'o, 'c) ccmap \<Rightarrow> cursor \<Rightarrow> 'k \<Rightarrow> nat \<Rightarrow> bool" where
  "at_entry s c key e \<longleftrightarrow> (\<exists>p i. c = CAt p i \<and> p \<in> snd ` set (ccmp s) \<and> i < length (pkeys s p) \<and> i < length (pents s p) \<and>
     pkeys s p ! i = key \<and> pents s p ! i = e)"

lemma CommitTs_new [simp]: "cce_CommitTs CcEntry_new = 0"
  by (simp add: cce_CommitTs_def CcEntry_new_def CommitTs_def ei_new_def pack_word_def)

lemma emplace_in_ok:
  assumes ok: "ccm_ok (Some key) s l" and slot: "slot_at key i s pre k p post" and room: "\<not> page_Full (page s p)"
  shows "\<exists>c s' l'. emplace_in key i s = Some (c, s') \<and> ccm_ok None s' l' \<and> view s' = ins key (next_cce s) (view s) \<and>
    at_entry s' c key (next_cce s) \<and> cces s' = (cces s)(next_cce s := CcEntry_new) \<and> (dirty_ok s \<longrightarrow> dirty_ok s')"
proof -
  let ?e = "emplaced key pre p post s" and ?pos = "lower_bound (pkeys s p) key"
  note con = emplaced_contents [OF ok slot room]
  have m: "ccmp s = pre @ (k, p) # post" and ne: "\<And>x. x \<in> set (pre @ post) \<Longrightarrow> pkeys s (snd x) \<noteq> []" using slot by (auto simp: slot_at_def)
  have inm: "q \<in> snd ` set (ccmp ?e) \<longleftrightarrow> q \<in> snd ` set (ccmp s)" for q by (auto simp: m)
  have lru: "lru_ok (lst s) l" and lb: "\<And>x. x \<in> set l \<Longrightarrow> x < next_pg s \<and> x \<noteq> neg_inf_page s \<and> x \<noteq> pos_inf_page s"
    and par: "\<And>q. q \<in> snd ` set (ccmp s) \<Longrightarrow> parent_type (page s q) = ccm_type s \<and> (q \<in> set l \<longleftrightarrow> in_lru_type (ccm_type s) \<and> pkeys s q \<noteq> [])"
    using ccm_okD(3) [OF ok] by (auto simp: lru_part_def)
  have links: "links_ok ?e" using ccm_okD(2) [OF ok] by (simp add: links_ok_def page_seq_def m)
  have lru': "lru_ok (lst ?e) l" by (rule lru_ok_cong [OF lru]) (use emplaced_simps(15,16,18) in \<open>simp_all add: page_def\<close>)
  have li: "q \<in> set l \<longleftrightarrow> in_lru_type (ccm_type ?e)" if "q \<in> snd ` set (ccmp ?e)" "q \<noteq> p \<or> \<not> in_lru_type (ccm_type ?e)" for q
    using that par [of q] ne by (auto simp: m)
  have "\<exists>L l'. UpdateLruList p True (lst ?e) = Some L \<and> ccm_ok None (?e\<lparr>lst := L\<rparr>) l' \<and> pkeys (?e\<lparr>lst := L\<rparr>) = pkeys ?e \<and>
    pents (?e\<lparr>lst := L\<rparr>) = pents ?e \<and> view (?e\<lparr>lst := L\<rparr>) = view ?e \<and> (\<forall>x. last_dirty_commit_ts (pg L x) = last_dirty_commit_ts (page ?e x))"
    by (rule access_page [OF con(1) links emplaced_locks [OF ccm_okD(4) [OF ok] m] con(3) lru' _ _ _ li]) (use par inm lb in auto)
  then obtain L l' where L: "UpdateLruList p True (lst ?e) = Some L" "ccm_ok None (?e\<lparr>lst := L\<rparr>) l'" "pkeys (?e\<lparr>lst := L\<rparr>) = pkeys ?e"
    "pents (?e\<lparr>lst := L\<rparr>) = pents ?e" "view (?e\<lparr>lst := L\<rparr>) = view ?e" "\<forall>x. last_dirty_commit_ts (pg L x) = last_dirty_commit_ts (page ?e x)"
    by blast
  have srt: "sorted_wrt (<) (pkeys s p)" using shape_page_sorted [OF ccm_okD(1) [OF ok], of "(k, p)"] by (simp add: m)
  have res: "emplace_in key i s = Some (CAt p ?pos, ?e\<lparr>lst := L\<rparr>)"
    using emplace_in_eq [OF slot srt] con(1) L(1) by (simp add: shape_def)
  have len: "length (pents s p) = length (pkeys s p)" using ccm_okD(1) [OF ok] by (simp add: shape_def page_shape_def m)
  have "at_entry (?e\<lparr>lst := L\<rparr>) (CAt p ?pos) key (next_cce s)"
    using lower_bound_le [of "pkeys s p" key] len by (simp add: at_entry_def L(3,4) insert_at_def nth_append)
  moreover have "dirty_ok (?e\<lparr>lst := L\<rparr>)" if d: "dirty_ok s"
    unfolding dirty_ok_def
  proof (intro ballI)
    fix q e assume "q \<in> snd ` set (ccmp (?e\<lparr>lst := L\<rparr>))" "e \<in> set (pents (?e\<lparr>lst := L\<rparr>) q)"
    then have "q \<in> snd ` set (ccmp s)" "e = next_cce s \<or> e \<in> set (pents s q)" using inm [of q] by (auto simp: L(4) insert_at_simps split: if_splits)
    then show "IsPersistent True False (entry_info (cces (?e\<lparr>lst := L\<rparr>) e)) \<or> cce_CommitTs (cces (?e\<lparr>lst := L\<rparr>) e) \<le> last_dirty_commit_ts (page (?e\<lparr>lst := L\<rparr>) q)"
      using d L(6) by (auto simp: dirty_ok_def page_def [of "?e\<lparr>lst := L\<rparr>"])
  qed
  ultimately show ?thesis using res L(2,5) con(2) by auto
qed

section \<open>Finding or inserting a key\<close>

text \<open>What an insertion of \<open>key\<close> achieves.\<close>

definition inserts :: "'k::linorder \<Rightarrow> ('k, 'v, 'o, 'c) ccmap \<Rightarrow> (cursor \<times> bool \<times> ('k, 'v, 'o, 'c) ccmap) option \<Rightarrow> bool" where
  "inserts key s r \<longleftrightarrow> (\<exists>c s' l'. r = Some (c, True, s') \<and> ccm_ok None s' l' \<and> view s' = ins key (next_cce s) (view s) \<and>
     at_entry s' c key (next_cce s) \<and> cces s' = (cces s)(next_cce s := CcEntry_new) \<and> (dirty_ok s \<longrightarrow> dirty_ok s'))"

lemma insert_in_slot:
  assumes ok: "ccm_ok (Some key) s1 l" and slot: "slot_at key i s1 pre k p post" and ne: "pkeys s1 p = [] \<or> ccm_ok None s1 l"
    and prep: "prepared s s1"
  shows "inserts key s (Option.bind (if page_Full (page s1 (snd (ccmp s1 ! i))) then split_page ttl_of key i s1 else Some (i, s1))
    (\<lambda>(i2, s2). map_option (\<lambda>(c, s3). (c, True, s3)) (emplace_in key i2 s2)))"
proof -
  have at: "snd (ccmp s1 ! i) = p" using slot by (auto simp: slot_at_def)
  obtain i2 s2 l2 pre2 k2 p2 post2 where s2: "(if page_Full (page s1 p) then split_page ttl_of key i s1 else Some (i, s1)) = Some (i2, s2)"
    "ccm_ok (Some key) s2 l2" "prepared s1 s2" "slot_at key i2 s2 pre2 k2 p2 post2" "\<not> page_Full (page s2 p2)"
  proof (cases "page_Full (page s1 p)")
    case True
    then have "pkeys s1 p \<noteq> []" by (auto simp: page_Full_def page_Size_def split_threshold_def pkeys_def)
    then have "ccm_ok None s1 l" using ne by blast
    then show ?thesis using split_page_ok [OF _ slot True, of l ttl_of] that True ccm_ok_weaken by metis
  next
    case False
    then show ?thesis using that [of i s1] ok slot by simp
  qed
  obtain c s' l' where "emplace_in key i2 s2 = Some (c, s')" "ccm_ok None s' l'" "view s' = ins key (next_cce s2) (view s2)"
    "at_entry s' c key (next_cce s2)" "cces s' = (cces s2)(next_cce s2 := CcEntry_new)" "dirty_ok s2 \<longrightarrow> dirty_ok s'"
    using emplace_in_ok [OF s2(2,4,5)] by blast
  then show ?thesis
    using prepared_trans [OF prep s2(3)] by (auto simp: inserts_def at s2(1) prepared_def)
qed

lemma view_at:
  assumes sh: "shape w (pkeys s) (pents s) (ccmp s)" and m: "ccmp s = pre @ (k, p) # post" and sp: "key_splits (pkeys s) key pre post"
  shows "map_of (view s) key = map_of (zip (pkeys s p) (pents s p)) key"
proof -
  have len: "length (all_entries (pents s) pre) = length (all_keys (pkeys s) pre)" "length (pents s p) = length (pkeys s p)"
    using sh shape_lengths [of w "pkeys s" "pents s" pre] by (auto simp: shape_def m page_shape_def)
  have "key \<notin> set (all_keys (pkeys s) pre)" "key \<notin> set (all_keys (pkeys s) post)" using sp by (auto simp: key_splits_def)
  then have nn: "map_of (zip (all_keys (pkeys s) pre) es) key = None" "map_of (zip (all_keys (pkeys s) post) es) key = None" for es
    by (auto simp: map_of_eq_None_iff dest: set_zip_leftD)
  then show ?thesis using len by (cases "map_of (zip (pkeys s p) (pents s p)) key") (simp_all add: view_def m map_add_def nn del: map_of_zip_is_None)
qed

lemma FindEmplace_empty:
  fixes key :: "'k::linorder"
  assumes ok: "ccm_ok None s l" and m: "ccmp s = []" and new: "new_page [] [] (Some (neg_inf_page s)) (Some (pos_inf_page s)) s = (a, s1)"
  defines "s0 \<equiv> s1\<lparr>ccmp := ccmp_insert key a (ccmp s)\<rparr>"
  shows "snd (ccmp s0 ! target_index key s0) = a" "page_Find key (page s0 a) = page_Size (page s0 a)"
    "choose_page key (target_index key s0) s0 = (0, s0)" "ccm_ok (Some key) s0 l" "slot_at key 0 s0 [] key a []" "prepared s s0" "pkeys s0 a = []"
proof -
  have s0: "s0 = s1\<lparr>ccmp := [] @ (key, a) # []\<rparr>" by (simp add: s0_def m ccmp_insert_def insert_at_def)
  have c: "ccmp s0 = [(key, a)]" by (simp add: s0)
  show ok': "ccm_ok (Some key) s0 l" "slot_at key 0 s0 [] key a []" "prepared s s0" "pkeys s0 a = []"
    using add_empty_page [OF ok _ _ _ new, of "[]" "[]" key] unfolding s0 by (simp_all add: m key_splits_def)
  have t: "target_index key s0 = 0" by (simp add: target_index_def c upper_bound_def)
  then show "snd (ccmp s0 ! target_index key s0) = a" by (simp add: c)
  show "page_Find key (page s0 a) = page_Size (page s0 a)" using ok'(4) by (simp add: page_Find_def page_Size_def pkeys_def)
  show "choose_page key (target_index key s0) s0 = (0, s0)"
    using ok'(4) by (simp add: choose_page_def t c page_Full_def page_Size_def pkeys_def split_threshold_def)
qed

lemma FindEmplace_found:
  assumes ok: "ccm_ok None s l" and p: "p \<in> snd ` set (ccmp s)"
  shows "\<exists>s' l'. lift_lru (UpdateLruList p em) s = Some s' \<and> ccm_ok None s' l' \<and> view s' = view s \<and> cces s' = cces s \<and>
    ccmp s' = ccmp s \<and> pkeys s' = pkeys s \<and> pents s' = pents s \<and> (dirty_ok s \<longrightarrow> dirty_ok s')"
proof -
  have lp: "lru_ok (lst s) l" "\<And>x. x \<in> set l \<Longrightarrow> x < next_pg s \<and> x \<noteq> neg_inf_page s \<and> x \<noteq> pos_inf_page s"
    "\<And>q. q \<in> snd ` set (ccmp s) \<Longrightarrow> parent_type (page s q) = ccm_type s \<and> (q \<in> set l \<longleftrightarrow> in_lru_type (ccm_type s))"
    using ccm_okD(3) [OF ok] shape_ne [OF ccm_okD(1) [OF ok]] by (auto simp: lru_part_def)
  have "\<exists>L l'. UpdateLruList p em (lst s) = Some L \<and> ccm_ok None (s\<lparr>lst := L\<rparr>) l' \<and> pkeys (s\<lparr>lst := L\<rparr>) = pkeys s \<and>
    pents (s\<lparr>lst := L\<rparr>) = pents s \<and> view (s\<lparr>lst := L\<rparr>) = view s \<and> (\<forall>x. last_dirty_commit_ts (pg L x) = last_dirty_commit_ts (page s x))"
    by (rule access_page [OF ccm_okD(1,2,4,5) [OF ok] lp(1) p]) (use lp in auto)
  then show ?thesis by (auto simp: lift_lru_def dirty_ok_def page_def)
qed

text \<open>The branches of \<open>FindEmplace\<close> once the request may proceed.\<close>

lemma FindEmplace_nonempty:
  assumes ok: "ccm_ok None s l" and m: "ccmp s \<noteq> []"
  shows "let i = target_index key s; p = snd (ccmp s ! i); idx = page_Find key (page s p) in
    (case map_of (view s) key of
       Some e \<Rightarrow> idx < page_Size (page s p) \<and> p \<in> snd ` set (ccmp s) \<and> pkeys s p ! idx = key \<and> idx < length (pents s p) \<and> pents s p ! idx = e
     | None \<Rightarrow> \<not> idx < page_Size (page s p) \<and>
         (\<forall>i1 s1. choose_page key i s = (i1, s1) \<longrightarrow>
            inserts key s (Option.bind (if page_Full (page s1 (snd (ccmp s1 ! i1))) then split_page ttl_of key i1 s1 else Some (i1, s1))
              (\<lambda>(i2, s2). map_option (\<lambda>(c, s3). (c, True, s3)) (emplace_in key i2 s2)))))"
proof -
  let ?i = "target_index key s"
  obtain pre k p post where sp: "ccmp s = pre @ (k, p) # post" "length pre = ?i" "key_splits (pkeys s) key pre post" "pre \<noteq> [] \<Longrightarrow> k \<le> key"
    using locate [OF ccm_okD(1) [OF ok] m target_index_def] by metis
  have at: "snd (ccmp s ! ?i) = p" using sp(1,2) by (metis nth_append_length snd_conv)
  have v: "map_of (view s) key = map_of (zip (pkeys s p) (pents s p)) key" by (rule view_at [OF ccm_okD(1) [OF ok] sp(1,3)])
  have srt: "sorted_wrt (<) (pkeys s p)" using shape_page_sorted [OF ccm_okD(1) [OF ok], of "(k, p)"] by (simp add: sp)
  have len: "length (pents s p) = length (pkeys s p)" using ccm_okD(1) [OF ok] by (simp add: shape_def page_shape_def sp)
  show ?thesis
  proof (cases "key \<in> set (pkeys s p)")
    case True
    then obtain j where j: "j < length (pkeys s p)" "pkeys s p ! j = key" by (auto simp: in_set_conv_nth)
    have "page_Find key (page s p) = j" by (rule page_Find_found) (use srt j in \<open>simp_all add: pkeys_def\<close>)
    moreover have "distinct (pkeys s p)" using srt strict_sorted_iff by blast
    then have "map_of (view s) key = Some (pents s p ! j)" unfolding v using map_of_zip_nth [of "pkeys s p" "pents s p" j] len j by simp
    moreover have "p \<in> snd ` set (ccmp s)" by (simp add: sp(1))
    ultimately show ?thesis using j len by (simp add: Let_def at page_Size_def pkeys_def)
  next
    case False
    then have "map_of (view s) key = None" unfolding v using len by simp
    moreover have "page_Find key (page s p) = page_Size (page s p)" using page_Find_none False by (simp add: pkeys_def)
    moreover have slot: "slot_at key ?i s pre k p post"
      using sp False shape_ne [OF ccm_okD(1) [OF ok]] by (simp add: slot_at_def)
    have "inserts key s (Option.bind (if page_Full (page s1 (snd (ccmp s1 ! i1))) then split_page ttl_of key i1 s1 else Some (i1, s1))
              (\<lambda>(i2, s2). map_option (\<lambda>(c, s3). (c, True, s3)) (emplace_in key i2 s2)))" if ch: "choose_page key ?i s = (i1, s1)" for i1 s1
      using choose_page_ok [OF ok slot sp(4) ch] insert_in_slot by metis
    ultimately show ?thesis by (simp add: Let_def at)
  qed
qed

lemma FindEmplace_absent:
  assumes ok: "ccm_ok None s l" and full: "full \<Longrightarrow> r = Some (CEnd, False, s)" and ins: "\<not> full \<Longrightarrow> inserts key s r"
  shows "\<exists>c inserted s' l'. r = Some (c, inserted, s') \<and> ccm_ok None s' l' \<and> (dirty_ok s \<longrightarrow> dirty_ok s') \<and>
    (if full then c = CEnd \<and> \<not> inserted \<and> s' = s
     else at_entry s' c key (next_cce s) \<and> inserted \<and> view s' = ins key (next_cce s) (view s) \<and> cces s' = (cces s)(next_cce s := CcEntry_new))"
proof (cases full)
  case True
  then show ?thesis using full ok by (intro exI [of _ CEnd] exI [of _ False] exI [of _ s] exI [of _ l]) simp
next
  case False
  then obtain c s' l' where "r = Some (c, True, s')" "ccm_ok None s' l'" "view s' = ins key (next_cce s) (view s)"
    "at_entry s' c key (next_cce s)" "cces s' = (cces s)(next_cce s := CcEntry_new)" "dirty_ok s \<longrightarrow> dirty_ok s'"
    using ins by (auto simp: inserts_def)
  then show ?thesis using False by (intro exI [of _ c] exI [of _ True] exI [of _ s'] exI [of _ l']) simp
qed

text \<open>A new map is well-formed and empty.\<close>

lemma ccm_init_ok:
  assumes "\<And>e. lock_of sh e = None"
  shows "ccm_ok None (ccm_init ty sh) []" "view (ccm_init ty sh) = []" "dirty_ok (ccm_init ty sh)" "next_cce (ccm_init ty sh) = 1"
    "ccm_type (ccm_init ty sh) = ty"
proof -
  have "lru_ok (lst (ccm_init ty sh)) []"
    by (rule lru_ok_cong [OF lru_init_ok [of "\<lambda>_. sentinel_page ty"]]) (simp_all add: sentinel_page_def ccm_init_def Let_def upd_page_def lru_init_def head_ccp_def tail_ccp_def)
  then have "lru_part (ccm_init ty sh) []" by (simp add: lru_part_def) (simp add: ccm_init_def Let_def)
  moreover have "links_ok (ccm_init ty sh)"
    by (simp add: links_ok_def page_seq_def page_def ccm_init_def Let_def upd_page_def head_ccp_def tail_ccp_def)
  moreover have "shape None (pkeys (ccm_init ty sh)) (pents (ccm_init ty sh)) (ccmp (ccm_init ty sh))" by (simp add: shape_def ccm_init_def Let_def)
  moreover have "locks_ok (ccm_init ty sh)" using assms by (simp add: locks_ok_def ccm_init_def Let_def)
  moreover have "ents_ok (ccm_init ty sh)" by (simp add: ents_ok_def ccm_init_def Let_def)
  ultimately show "ccm_ok None (ccm_init ty sh) []" by (simp add: ccm_ok_def)
qed (simp_all add: view_def dirty_ok_def ccm_init_def Let_def neg_inf_cce_def)

lemma FindEmplace_spec:
  assumes ok: "ccm_ok None s l"
  shows "\<exists>c inserted s' l'. FindEmplace ttl_of heap_full (Fin key) force_emplace read_only_req s = Some (c, inserted, s') \<and>
    ccm_ok None s' l' \<and> (dirty_ok s \<longrightarrow> dirty_ok s') \<and>
    (if heap_full \<and> \<not> force_emplace \<and> \<not> IsMeta (ccm_type s) \<and> \<not> read_only_req then c = CEnd \<and> \<not> inserted \<and> s' = s
     else case map_of (view s) key of
       Some e \<Rightarrow> at_entry s' c key e \<and> \<not> inserted \<and> view s' = view s \<and> cces s' = cces s
     | None \<Rightarrow>
         if heap_full \<and> read_only_req then c = CEnd \<and> \<not> inserted \<and> s' = s
         else at_entry s' c key (next_cce s) \<and> inserted \<and> view s' = ins key (next_cce s) (view s) \<and>
              cces s' = (cces s)(next_cce s := CcEntry_new))"
proof (cases "heap_full \<and> \<not> force_emplace \<and> \<not> IsMeta (ccm_type s) \<and> \<not> read_only_req")
  case True
  then show ?thesis using ok by (simp add: FindEmplace_def) blast
next
  case go: False
  show ?thesis
  proof (cases "ccmp s = []")
    case m: True
    then have v: "map_of (view s) key = None" by (simp add: view_def)
    obtain a s1 where new: "new_page [] [] (Some (neg_inf_page s)) (Some (pos_inf_page s)) s = (a, s1)" by fastforce
    define s0 where "s0 = s1\<lparr>ccmp := ccmp_insert key a (ccmp s)\<rparr>"
    note e = FindEmplace_empty [OF ok m new, of key, folded s0_def]
    have c1: "inserts key s (FindEmplace ttl_of heap_full (Fin key) force_emplace read_only_req s)" if f: "\<not> (heap_full \<and> read_only_req)"
    proof -
      have f': "\<not> (ccmp s = [] \<and> heap_full \<and> read_only_req)" using f by blast
      show ?thesis using insert_in_slot [OF e(4,5) disjI1 [OF e(7)] e(6), of ttl_of]
        unfolding FindEmplace_def bound.case if_not_P [OF go] Let_def if_not_P [OF f'] if_P [OF m] new prod.case s0_def [symmetric] e(1-3)
          if_not_P [OF f] by simp
    qed
    have c2: "FindEmplace ttl_of heap_full (Fin key) force_emplace read_only_req s = Some (CEnd, False, s)" if "heap_full \<and> read_only_req"
      using that m by (simp add: FindEmplace_def)
    show ?thesis unfolding if_not_P [OF go] v option.case by (rule FindEmplace_absent [OF ok]) (fact c2, fact c1)
  next
    case m: False
    let ?i = "target_index key s"
    let ?p = "snd (ccmp s ! ?i)"
    let ?idx = "page_Find key (page s ?p)"
    obtain i1 s1 where ch: "choose_page key ?i s = (i1, s1)" by fastforce
    let ?ins = "Option.bind (if page_Full (page s1 (snd (ccmp s1 ! i1))) then split_page ttl_of key i1 s1 else Some (i1, s1))
              (\<lambda>(i2, s2). map_option (\<lambda>(c, s3). (c, True, s3)) (emplace_in key i2 s2))"
    have f': "\<not> (ccmp s = [] \<and> heap_full \<and> read_only_req)" using m by blast
    have r: "FindEmplace ttl_of heap_full (Fin key) force_emplace read_only_req s =
        (if ?idx < page_Size (page s ?p) then map_option (\<lambda>s1. (CAt ?p ?idx, False, s1)) (lift_lru (UpdateLruList ?p False) s)
         else if heap_full \<and> read_only_req then Some (CEnd, False, s) else ?ins)"
      unfolding FindEmplace_def bound.case if_not_P [OF go] Let_def if_not_P [OF f'] if_not_P [OF m] ch prod.case ..
    note b = FindEmplace_nonempty [OF ok m, of key ttl_of, unfolded Let_def]
    show ?thesis
    proof (cases "map_of (view s) key")
      case None
      then have "\<not> ?idx < page_Size (page s ?p)" "inserts key s ?ins" using b ch by auto
      then show ?thesis unfolding if_not_P [OF go] None option.case r by (intro FindEmplace_absent [OF ok]) (simp_all only: if_True if_False simp_thms)
    next
      case (Some e)
      then have e: "?idx < page_Size (page s ?p)" "?p \<in> snd ` set (ccmp s)" "pkeys s ?p ! ?idx = key" "?idx < length (pents s ?p)"
        "pents s ?p ! ?idx = e"
        using b by simp_all
      obtain s' l' where s': "lift_lru (UpdateLruList ?p False) s = Some s'" "ccm_ok None s' l'" "view s' = view s" "cces s' = cces s"
        "ccmp s' = ccmp s" "pkeys s' = pkeys s" "pents s' = pents s" "dirty_ok s \<longrightarrow> dirty_ok s'"
        using FindEmplace_found [OF ok e(2)] by blast
      have "at_entry s' (CAt ?p ?idx) key e" unfolding at_entry_def s'(5-7) using e by (auto simp: page_Size_def pkeys_def)
      then show ?thesis unfolding if_not_P [OF go] Some option.case r if_P [OF e(1)] s'(1) option.map
        by (intro exI [of _ "CAt ?p ?idx"] exI [of _ False] exI [of _ s'] exI [of _ l'] conjI) (use s' in simp_all)
    qed
  qed
qed

section \<open>Properties\<close>

text \<open>
  C4: \<open>FindEmplace\<close> never follows a null pointer on a well-formed map, and it implements lookup and insertion
  on the sorted list of keys: a request that the full heap stops is sent back to the end position; a key
  that is present is found, whatever page it is in, and the contents do not change; a key that is absent
  is inserted at its place with a new entry, a page being created, chosen or split for it, unless a
  read-only request met a full heap. The result is well-formed again: pages of at most 64 keys, known under
  their first keys, chained in key order, data pages in the LRU list, locks knowing their pages; and
  no page claims to be older than one of its entries.
\<close>

theorem FindEmplace_refines:
  assumes ok: "ccm_ok None s l"
  shows "\<exists>c inserted s' l'. FindEmplace ttl_of heap_full (Fin key) force_emplace read_only_req s = Some (c, inserted, s') \<and>
    ccm_ok None s' l' \<and> (dirty_ok s \<longrightarrow> dirty_ok s') \<and>
    (if heap_full \<and> \<not> force_emplace \<and> \<not> IsMeta (ccm_type s) \<and> \<not> read_only_req then c = CEnd \<and> \<not> inserted \<and> s' = s
     else case map_of (view s) key of
       Some e \<Rightarrow> at_entry s' c key e \<and> \<not> inserted \<and> view s' = view s \<and> cces s' = cces s
     | None \<Rightarrow>
         if heap_full \<and> read_only_req then c = CEnd \<and> \<not> inserted \<and> s' = s
         else at_entry s' c key (next_cce s) \<and> inserted \<and> view s' = ins key (next_cce s) (view s) \<and>
              cces s' = (cces s)(next_cce s := CcEntry_new))"
  by (rule FindEmplace_spec [OF ok])

theorem FindEmplace_refines_witness:
  "\<exists>c s'. FindEmplace (\<lambda>_. None) True (Fin (5 :: nat)) True False (ccm_init Primary shard_init :: (nat, nat, nat, nat) ccmap) = Some (c, True, s') \<and>
     at_entry s' c 5 1 \<and> view s' = [(5, 1)]"
proof -
  have none: "lock_of (shard_init :: (nat, nat) shard) e = None" for e by (simp add: shard_init_def)
  let ?s = "ccm_init Primary shard_init :: (nat, nat, nat, nat) ccmap"
  have init: "ccm_ok None ?s []" "view ?s = []" "next_cce ?s = 1" "ccm_type ?s = Primary" using ccm_init_ok [OF none, of Primary] by simp_all
  show ?thesis
    using FindEmplace_refines [OF init(1), of "\<lambda>_. None" True "5 :: nat" True False] by (auto simp: init ins_def)
qed

end
