(* ===== verification/Page_Iter.thy ===== *)
theory Page_Iter
  imports Page_Emplace
begin

text \<open>
  The iterators of a cc map and the searches that return them (\<open>Iterator\<close>, \<open>LowerBound\<close>, \<open>UpperBound\<close>,
  \<open>Floor\<close>, \<open>Find\<close> and \<open>VerifyOrdering\<close> of \<open>include/cc/template_cc_map.h\<close>). A position is a sentinel or an index in
  a page; following a null page or an index out of range is undefined and gives \<open>None\<close>.
\<close>

section \<open>Model\<close>

definition IsNegInf :: "'k CcPage \<Rightarrow> bool" where
  "IsNegInf p \<longleftrightarrow> prev_page p = None"

definition IsPosInf :: "'k CcPage \<Rightarrow> bool" where
  "IsPosInf p \<longleftrightarrow> next_page p = None"

definition UpdateCurrent :: "('k, 'v, 'o, 'c) ccmap \<Rightarrow> nat \<Rightarrow> nat \<Rightarrow> cursor option" where
  "UpdateCurrent s p i = (if i < page_Size (page s p) then Some (CAt p i) else None)"

definition it_of_entry :: "('k, 'v, 'o, 'c) ccmap \<Rightarrow> nat \<Rightarrow> nat \<Rightarrow> cursor option" where
  "it_of_entry s p e =
     (if IsNegInf (page s p) then Some CBegin else if IsPosInf (page s p) then Some CEnd
      else UpdateCurrent s p (page_FindEntry e (page s p)))"


definition it_prev :: "('k, 'v, 'o, 'c) ccmap \<Rightarrow> cursor \<Rightarrow> cursor option" where
  "it_prev s c =
     (let back = (\<lambda>p. Option.bind (prev_page (page s p)) (\<lambda>q. if IsNegInf (page s q) then Some CBegin else
            if page_Size (page s q) = 0 then None else UpdateCurrent s q (page_Size (page s q) - 1)))
      in case c of
           CEnd \<Rightarrow> back (pos_inf_page s)
         | CBegin \<Rightarrow> Some CBegin
         | CAt p i \<Rightarrow> if i = 0 then back p else UpdateCurrent s p (i - 1))"

definition page_at :: "('k, 'v, 'o, 'c) ccmap \<Rightarrow> nat \<Rightarrow> nat option" where
  "page_at s j = (if j < length (ccmp s) then Some (snd (ccmp s ! j)) else None)"

definition page_before :: "('k, 'v, 'o, 'c) ccmap \<Rightarrow> nat \<Rightarrow> nat option" where
  "page_before s j = (if j \<noteq> 0 then Some (snd (ccmp s ! (j - 1))) else None)"

text \<open>\<open>LastKey\<close> of a page of the map, which is not a sentinel.\<close>

definition last_key :: "'k CcPage \<Rightarrow> 'k" where
  "last_key p = last (pg_keys p)"

definition ccm_LowerBound :: "'k::linorder bound \<Rightarrow> ('k, 'v, 'o, 'c) ccmap \<Rightarrow> cursor option" where
  "ccm_LowerBound b s =
     (case b of
        NegativeInfinity \<Rightarrow> Some CBegin
      | PositiveInfinity \<Rightarrow> Some CEnd
      | Fin key \<Rightarrow>
          let j = lower_bound (map fst (ccmp s)) key; page1 = page_before s j; page2 = page_at s j in
          if page2 = None \<and> (case page1 of None \<Rightarrow> True | Some p \<Rightarrow> last_key (page s p) < key) then Some CEnd
          else if (case page1 of None \<Rightarrow> False | Some p \<Rightarrow> key \<le> last_key (page s p))
               then Option.bind page1 (\<lambda>p. UpdateCurrent s p (lower_bound (pg_keys (page s p)) key))
               else Option.bind page2 (\<lambda>q. UpdateCurrent s q 0))"

definition ccm_UpperBound :: "'k::linorder bound \<Rightarrow> ('k, 'v, 'o, 'c) ccmap \<Rightarrow> cursor option" where
  "ccm_UpperBound b s =
     (case b of
        NegativeInfinity \<Rightarrow> (if page_at s 0 = None then Some CEnd else Option.bind (page_at s 0) (\<lambda>q. UpdateCurrent s q 0))
      | PositiveInfinity \<Rightarrow> Some CEnd
      | Fin key \<Rightarrow>
          let j = upper_bound (map fst (ccmp s)) key; page1 = page_before s j; page2 = page_at s j in
          if page2 = None \<and> (case page1 of None \<Rightarrow> True | Some p \<Rightarrow> last_key (page s p) \<le> key) then Some CEnd
          else if (case page1 of None \<Rightarrow> False | Some p \<Rightarrow> key < last_key (page s p))
               then Option.bind page1 (\<lambda>p. UpdateCurrent s p (upper_bound (pg_keys (page s p)) key))
               else Option.bind page2 (\<lambda>q. UpdateCurrent s q 0))"

text \<open>The key an iterator points to.\<close>

definition it_key :: "('k, 'v, 'o, 'c) ccmap \<Rightarrow> cursor \<Rightarrow> 'k bound" where
  "it_key s c = (case c of CBegin \<Rightarrow> NegativeInfinity | CEnd \<Rightarrow> PositiveInfinity | CAt p i \<Rightarrow> Fin (pg_keys (page s p) ! i))"

definition Floor :: "'k::linorder bound \<Rightarrow> ('k, 'v, 'o, 'c) ccmap \<Rightarrow> cursor option" where
  "Floor b s = Option.bind (ccm_LowerBound b s) (\<lambda>it. if it_key s it \<noteq> b \<or> it = CEnd then it_prev s it else Some it)"

definition ccm_Find :: "'k::linorder bound \<Rightarrow> ('k, 'v, 'o, 'c) ccmap \<Rightarrow> (cursor \<times> ('k, 'v, 'o, 'c) ccmap) option" where
  "ccm_Find b s =
     (if b = NegativeInfinity then Some (CBegin, s)
      else Option.bind (ccm_LowerBound b s) (\<lambda>it.
        case it of
          CAt p i \<Rightarrow> if it_key s it = b then map_option (\<lambda>s'. (it, s')) (lift_lru (UpdateLruList p False) s) else Some (CEnd, s)
        | _ \<Rightarrow> Some (CEnd, s)))"





section \<open>Positions\<close>

text \<open>Position \<open>n\<close> of the sorted list of keys, the end included.\<close>

definition cur_at :: "('k, 'v, 'o, 'c) ccmap \<Rightarrow> cursor \<Rightarrow> nat \<Rightarrow> bool" where
  "cur_at s c n \<longleftrightarrow>
     (case c of
        CBegin \<Rightarrow> False
      | CEnd \<Rightarrow> n = length (view s)
      | CAt p i \<Rightarrow> \<exists>pre k post. ccmp s = pre @ (k, p) # post \<and> i < length (pkeys s p) \<and> n = length (all_keys (pkeys s) pre) + i)"

lemma sentinels:
  assumes "links_ok s"
  shows "IsPosInf (page s (pos_inf_page s))" "IsNegInf (page s (neg_inf_page s))"
    "ccmp s = pre @ (k, p) # post \<Longrightarrow> \<not> IsPosInf (page s p) \<and> \<not> IsNegInf (page s p)"
proof -
  show "IsPosInf (page s (pos_inf_page s))" "IsNegInf (page s (neg_inf_page s))"
    using assms by (simp_all add: links_ok_def IsPosInf_def IsNegInf_def)
  assume m: "ccmp s = pre @ (k, p) # post"
  have "next_page (page s p) \<noteq> None" using seq_adjacent(1) [OF assms, of "pre @ [(k, p)]" post] m by simp
  moreover have "prev_page (page s p) \<noteq> None" using seq_adjacent(2) [OF assms, of pre "(k, p) # post"] m by simp
  ultimately show "\<not> IsPosInf (page s p) \<and> \<not> IsNegInf (page s p)" by (simp add: IsPosInf_def IsNegInf_def)
qed

lemma view_length: "ccm_ok None s l \<Longrightarrow> length (view s) = length (all_keys (pkeys s) (ccmp s))"
  using shape_lengths [of None "pkeys s" "pents s" "ccmp s"] by (simp add: ccm_ok_def shape_def view_def)

lemma pkeys_Size: "page_Size (page s p) = length (pkeys s p)"
  by (simp add: page_Size_def pkeys_def)

text \<open>Entering the pages from \<open>post\<close> on.\<close>

lemma enter_page:
  assumes ok: "ccm_ok None s l" and m: "ccmp s = pre @ post"
  shows "\<exists>c. (let q = hd (map snd post @ [pos_inf_page s]) in if IsPosInf (page s q) then Some CEnd else UpdateCurrent s q 0) = Some c \<and>
    cur_at s c (length (all_keys (pkeys s) pre))"
proof (cases post)
  case Nil
  then show ?thesis using sentinels(1) [OF ccm_okD(2) [OF ok]] m view_length [OF ok] by (simp add: cur_at_def)
next
  case (Cons x post')
  obtain k p where x: "x = (k, p)" by fastforce
  have ne: "pkeys s p \<noteq> []" using shape_ne [OF ccm_okD(1) [OF ok], of "(k, p)"] m Cons x by simp
  have "cur_at s (CAt p 0) (length (all_keys (pkeys s) pre))" using ne m Cons x by (auto simp: cur_at_def)
  then show ?thesis
    using sentinels(3) [OF ccm_okD(2) [OF ok]] m Cons x ne by (auto simp: UpdateCurrent_def pkeys_Size)
qed

lemma enter_first:
  assumes ok: "ccm_ok None s l" and m: "ccmp s = pre @ post"
  shows "\<exists>c. (if post = [] then Some CEnd else UpdateCurrent s (snd (hd post)) 0) = Some c \<and> cur_at s c (length (all_keys (pkeys s) pre))"
proof (cases post)
  case Nil
  then show ?thesis using m view_length [OF ok] by (simp add: cur_at_def)
next
  case (Cons x post')
  then have "\<not> IsPosInf (page s (snd x))" using sentinels(3) [OF ccm_okD(2) [OF ok], of pre "fst x" "snd x" post'] m by simp
  then show ?thesis using enter_page [OF ok m] Cons by simp
qed



text \<open>Leaving to the pages of \<open>pre\<close>.\<close>

lemma leave_page:
  assumes ok: "ccm_ok None s l" and m: "ccmp s = pre @ post"
  shows "\<exists>c. (let q = last (neg_inf_page s # map snd pre) in if IsNegInf (page s q) then Some CBegin else
      if page_Size (page s q) = 0 then None else UpdateCurrent s q (page_Size (page s q) - 1)) = Some c \<and>
    (if length (all_keys (pkeys s) pre) = 0 then c = CBegin else cur_at s c (length (all_keys (pkeys s) pre) - 1))"
proof (cases pre rule: rev_cases)
  case Nil
  then show ?thesis using sentinels(2) [OF ccm_okD(2) [OF ok]] by simp
next
  case (snoc pre' x)
  obtain k p where x: "x = (k, p)" by fastforce
  have ne: "pkeys s p \<noteq> []" using shape_ne [OF ccm_okD(1) [OF ok], of "(k, p)"] m snoc x by simp
  have "cur_at s (CAt p (length (pkeys s p) - 1)) (length (all_keys (pkeys s) pre) - 1)"
    unfolding cur_at_def cursor.case by (rule exI [of _ pre'], rule exI [of _ k], rule exI [of _ post]) (use ne m snoc x in \<open>cases "pkeys s p"; simp\<close>)
  then show ?thesis
    using sentinels(3) [OF ccm_okD(2) [OF ok], of pre' k p post] m snoc x ne by (auto simp: UpdateCurrent_def pkeys_Size)
qed

lemma it_prev_at:
  assumes ok: "ccm_ok None s l" and c: "cur_at s c n"
  shows "\<exists>c'. it_prev s c = Some c' \<and> (if n = 0 then c' = CBegin else cur_at s c' (n - 1))"
proof (cases c)
  case CEnd
  then have n: "n = length (all_keys (pkeys s) (ccmp s))" using c view_length [OF ok] by (simp add: cur_at_def)
  have pv: "prev_page (page s (pos_inf_page s)) = Some (last (neg_inf_page s # map snd (ccmp s)))"
    using seq_adjacent(2) [OF ccm_okD(2) [OF ok], of "ccmp s" "[]"] by simp
  show ?thesis
    using leave_page [OF ok, of "ccmp s" "[]"] unfolding it_prev_def CEnd n cursor.case Let_def pv Option.bind.simps by simp
next
  case (CAt p i)
  then obtain pre k post where p: "ccmp s = pre @ (k, p) # post" "i < length (pkeys s p)" "n = length (all_keys (pkeys s) pre) + i"
    using c by (auto simp: cur_at_def)
  show ?thesis
  proof (cases "i = 0")
    case True
    have pv: "prev_page (page s p) = Some (last (neg_inf_page s # map snd pre))"
      using seq_adjacent(2) [OF ccm_okD(2) [OF ok] p(1)] by simp
    show ?thesis
      using leave_page [OF ok p(1)] unfolding it_prev_def CAt p(3) cursor.case Let_def if_P [OF True] pv Option.bind.simps True add_0_right by simp
  next
    case False
    then show ?thesis using p CAt by (auto simp: it_prev_def UpdateCurrent_def pkeys_Size cur_at_def)
  qed
qed (use c in \<open>simp add: cur_at_def\<close>)

section \<open>Searches\<close>

lemma view_keys: "ccm_ok None s l \<Longrightarrow> map fst (view s) = all_keys (pkeys s) (ccmp s)"
  using shape_lengths [of None "pkeys s" "pents s" "ccmp s"] by (simp add: ccm_ok_def shape_def view_def)

lemma takeWhile_view:
  assumes "ccm_ok None s l"
  shows "length (takeWhile (\<lambda>x. P (fst x)) (view s)) = length (takeWhile P (all_keys (pkeys s) (ccmp s)))"
  using arg_cong [OF takeWhile_map [of P fst "view s"], of length] view_keys [OF assms] by (simp add: comp_def)

text \<open>
  Both searches look for the first key that fails a test which holds for a prefix of the keys: the page whose
  first key passes and the one behind it.
\<close>

definition bound_search :: "('k \<Rightarrow> bool) \<Rightarrow> ('k::linorder, 'v, 'o, 'c) ccmap \<Rightarrow> cursor option" where
  "bound_search P s =
     (let j = length (takeWhile P (map fst (ccmp s))); page1 = page_before s j; page2 = page_at s j in
      if page2 = None \<and> (case page1 of None \<Rightarrow> True | Some p \<Rightarrow> P (last_key (page s p))) then Some CEnd
      else if (case page1 of None \<Rightarrow> False | Some p \<Rightarrow> \<not> P (last_key (page s p)))
           then Option.bind page1 (\<lambda>p. UpdateCurrent s p (length (takeWhile P (pg_keys (page s p)))))
           else Option.bind page2 (\<lambda>q. UpdateCurrent s q 0))"

lemma bound_search_eq:
  "ccm_LowerBound (Fin key) s = bound_search (\<lambda>k. k < key) s" "ccm_UpperBound (Fin key) s = bound_search (\<lambda>k. k \<le> key) s"
  by (simp_all add: ccm_LowerBound_def ccm_UpperBound_def bound_search_def lower_bound_def upper_bound_def not_less not_le Let_def split: option.split)

lemma bound_search_at:
  assumes ok: "ccm_ok None s l" and down: "\<And>a b. P b \<Longrightarrow> a \<le> b \<Longrightarrow> P a"
  shows "\<exists>c. bound_search P s = Some c \<and> cur_at s c (length (takeWhile P (all_keys (pkeys s) (ccmp s))))"
proof -
  let ?j = "length (takeWhile P (map fst (ccmp s)))"
  define pre post where "pre = take ?j (ccmp s)" and "post = drop ?j (ccmp s)"
  have m: "ccmp s = pre @ post" by (simp add: pre_def post_def)
  have sh: "shape None (pkeys s) (pents s) (pre @ post)" using ccm_okD(1) [OF ok] by (simp add: m)
  have first: "x \<in> set (ccmp s) \<Longrightarrow> pkeys s (snd x) \<noteq> [] \<and> fst x = hd (pkeys s (snd x))" for x
    using ccm_okD(1) [OF ok] by (auto simp: shape_def list_all_iff page_shape_def split: if_splits)
  have lenpre: "length pre = ?j" using length_takeWhile_le [of P "map fst (ccmp s)"] by (simp add: pre_def)
  have pre: "P (fst x)" if "x \<in> set pre" for x
  proof -
    have "map fst pre = takeWhile P (map fst (ccmp s))" unfolding pre_def take_map [symmetric] by (rule takeWhile_eq_take [symmetric])
    then have "fst x \<in> set (takeWhile P (map fst (ccmp s)))" using that by (metis image_eqI list.set_map)
    then show ?thesis by (rule set_takeWhileD [THEN conjunct2])
  qed
  have post: "\<not> P (hd (pkeys s (snd (hd post))))" if "post \<noteq> []"
  proof -
    have lt: "?j < length (map fst (ccmp s))" using that by (auto simp: post_def)
    have "\<not> P (map fst (ccmp s) ! ?j)" by (rule nth_length_takeWhile [OF lt])
    moreover have "hd post = ccmp s ! ?j" using lt by (simp add: post_def hd_drop_conv_nth)
    moreover have "hd post \<in> set (ccmp s)" using hd_in_set [OF that] unfolding post_def by (rule in_set_dropD)
    ultimately show ?thesis using first [of "hd post"] lt by simp
  qed
  have p2: "page_at s ?j = (if post = [] then None else Some (snd (hd post)))" by (auto simp: page_at_def post_def hd_drop_conv_nth)
  have stop: "takeWhile P (all_keys (pkeys s) post) = []"
    using post first [of "hd post"] m by (cases post) (auto simp: takeWhile_eq_Nil_iff)
  show ?thesis
  proof (cases pre rule: rev_cases)
    case Nil
    then have p1: "page_before s ?j = None" using lenpre by (simp add: page_before_def)
    have "bound_search P s = (if post = [] then Some CEnd else UpdateCurrent s (snd (hd post)) 0)"
      unfolding bound_search_def Let_def p1 p2 by simp
    then show ?thesis using enter_first [OF ok m] Nil stop by (simp add: m)
  next
    case (snoc pre' x)
    obtain k p where x: "x = (k, p)" by fastforce
    have p1: "page_before s ?j = Some p" unfolding lenpre [symmetric] page_before_def by (simp add: m snoc x nth_append)
    have in_p: "(k, p) \<in> set (ccmp s)" by (simp add: m snoc x)
    have ne: "pkeys s p \<noteq> []" and Pk: "P (hd (pkeys s p))" using first [OF in_p] pre [of x] by (simp_all add: snoc x)
    have "sorted_wrt (<) (all_keys (pkeys s) (pre' @ (k, p) # post))" using sh by (simp add: shape_def snoc x)
    then have srt: "sorted_wrt (<) (pkeys s p)" and below: "\<forall>y \<in> set (all_keys (pkeys s) pre'). y < hd (pkeys s p)"
      using ne by (auto simp: sorted_wrt_append)
    have P': "\<forall>y \<in> set (all_keys (pkeys s) pre'). P y" using below down [OF Pk] less_imp_le by blast
    let ?i = "length (takeWhile P (pkeys s p))"
    have cnt: "length (takeWhile P (all_keys (pkeys s) (ccmp s))) = length (all_keys (pkeys s) pre') + length (takeWhile P (pkeys s p @ all_keys (pkeys s) post))"
      using P' by (simp add: m snoc x takeWhile_append2)
    show ?thesis
    proof (cases "P (last_key (page s p))")
      case True
      have "bound_search P s = (if post = [] then Some CEnd else UpdateCurrent s (snd (hd post)) 0)"
        unfolding bound_search_def Let_def p1 p2 using True by simp
      moreover have "\<forall>y \<in> set (pkeys s p). P y" using sorted_le_last [OF srt] down [OF True] by (simp add: last_key_def pkeys_def)
      then have "length (takeWhile P (all_keys (pkeys s) (ccmp s))) = length (all_keys (pkeys s) pre)"
        unfolding cnt using stop by (simp add: snoc x takeWhile_append2)
      ultimately show ?thesis using enter_first [OF ok m] by simp
    next
      case False
      have lt: "?i < length (pkeys s p)"
      proof (rule ccontr)
        assume "\<not> ?thesis"
        then have "take ?i (pkeys s p) = pkeys s p" by simp
        then have "takeWhile P (pkeys s p) = pkeys s p" using takeWhile_eq_take [of P "pkeys s p"] by metis
        then show False using False ne by (metis last_key_def last_in_set pkeys_def set_takeWhileD)
      qed
      have "bound_search P s = UpdateCurrent s p ?i"
        unfolding bound_search_def Let_def p1 p2 using False by (simp add: pkeys_def)
      moreover have "takeWhile P (pkeys s p @ all_keys (pkeys s) post) = takeWhile P (pkeys s p)"
        using False ne takeWhile_append1 [of "last (pkeys s p)" "pkeys s p" P] by (simp add: last_key_def pkeys_def)
      ultimately show ?thesis unfolding cnt using lt by (auto simp: UpdateCurrent_def pkeys_Size cur_at_def m snoc x)
    qed
  qed
qed

lemma cur_at_bounds: "ccm_ok None s l \<Longrightarrow> cur_at s c n \<Longrightarrow> n \<le> length (view s) \<and> (c = CEnd \<longleftrightarrow> n = length (view s))"
  using view_length [of s l] by (auto simp: cur_at_def split: cursor.splits)

text \<open>What is found at a position.\<close>

lemma cur_at_entry:
  assumes ok: "ccm_ok None s l" and c: "cur_at s c n" and n: "n < length (view s)"
  shows "at_entry s c (fst (view s ! n)) (snd (view s ! n))" "it_key s c = Fin (fst (view s ! n))"
proof -
  obtain p i pre k post where p: "c = CAt p i" "ccmp s = pre @ (k, p) # post" "i < length (pkeys s p)" "n = length (all_keys (pkeys s) pre) + i"
    using c n by (cases c) (auto simp: cur_at_def)
  have sh: "list_all (page_shape None (pkeys s) (pents s)) (ccmp s)" using ccm_okD(1) [OF ok] by (simp add: shape_def)
  have len: "length (all_entries (pents s) pre) = length (all_keys (pkeys s) pre)" "length (pents s p) = length (pkeys s p)"
    using sh shape_lengths [of None "pkeys s" "pents s" pre] by (auto simp: p(2) page_shape_def)
  have "view s ! n = (pkeys s p ! i, pents s p ! i)" using p(3) len by (simp add: view_def p(2,4) nth_append)
  then show "at_entry s c (fst (view s ! n)) (snd (view s ! n))" "it_key s c = Fin (fst (view s ! n))"
    using p len by (auto simp: at_entry_def it_key_def pkeys_def)
qed

lemma view_sorted: "ccm_ok None s l \<Longrightarrow> sorted_wrt (<) (map fst (view s))"
  using view_keys [of s l] by (simp add: ccm_ok_def shape_def)

lemma bounds_apart:
  fixes ks :: "'k::linorder list"
  assumes "sorted_wrt (<) ks"
  shows "length (takeWhile (\<lambda>k. k \<le> key) ks) =
    length (takeWhile (\<lambda>k. k < key) ks) + (if length (takeWhile (\<lambda>k. k < key) ks) < length ks \<and> ks ! length (takeWhile (\<lambda>k. k < key) ks) = key then 1 else 0)"
  using assms
proof (induction ks)
  case (Cons a ks)
  consider "a < key" | "a = key" | "key < a" by (rule linorder_cases)
  then show ?case
  proof cases
    case 2
    then have "takeWhile (\<lambda>k. k \<le> key) ks = []" using Cons.prems by (cases ks) auto
    then show ?thesis using 2 by simp
  qed (use Cons in auto)
qed simp

lemma LowerBound_at:
  assumes ok: "ccm_ok None s l"
  shows "\<exists>c. ccm_LowerBound (Fin key) s = Some c \<and> cur_at s c (length (takeWhile (\<lambda>x. fst x < key) (view s)))"
    "\<exists>c. ccm_UpperBound (Fin key) s = Some c \<and> cur_at s c (length (takeWhile (\<lambda>x. fst x \<le> key) (view s)))"
  using bound_search_at [OF ok, of "\<lambda>k. k < key"] bound_search_at [OF ok, of "\<lambda>k. k \<le> key"]
  by (auto simp: bound_search_eq takeWhile_view [OF ok, of "\<lambda>k. k < key"] takeWhile_view [OF ok, of "\<lambda>k. k \<le> key"])

lemma length_takeWhile_fst: "length (takeWhile (\<lambda>x. P (fst x)) xs) = length (takeWhile P (map fst xs))"
  by (simp add: takeWhile_map comp_def)

lemma Floor_at:
  assumes ok: "ccm_ok None s l"
  shows "\<exists>c. Floor (Fin key) s = Some c \<and>
    (let n = length (takeWhile (\<lambda>x. fst x \<le> key) (view s)) in if n = 0 then c = CBegin else cur_at s c (n - 1))"
proof -
  let ?m = "length (takeWhile (\<lambda>x. fst x < key) (view s))" and ?n = "length (takeWhile (\<lambda>x. fst x \<le> key) (view s))"
  obtain c where c: "ccm_LowerBound (Fin key) s = Some c" "cur_at s c ?m" using LowerBound_at(1) [OF ok] by blast
  have n: "?n = ?m + (if ?m < length (view s) \<and> map fst (view s) ! ?m = key then 1 else 0)"
    using bounds_apart [OF view_sorted [OF ok], of key] unfolding length_takeWhile_fst [of "\<lambda>k. k < key"] length_takeWhile_fst [of "\<lambda>k. k \<le> key"] by simp
  show ?thesis
  proof (cases "?m < length (view s) \<and> map fst (view s) ! ?m = key")
    case True
    then have "Floor (Fin key) s = Some c" using cur_at_entry(2) [OF ok c(2)] cur_at_bounds [OF ok c(2)] c(1) by (auto simp: Floor_def)
    then show ?thesis using c(2) n True by (simp add: Let_def)
  next
    case False
    then have "Floor (Fin key) s = it_prev s c"
      using cur_at_entry(2) [OF ok c(2)] cur_at_bounds [OF ok c(2)] c(1) by (cases "?m < length (view s)") (auto simp: Floor_def)
    moreover have "?n = ?m" using n False by simp
    ultimately show ?thesis using it_prev_at [OF ok c(2)] by (simp add: Let_def)
  qed
qed

lemma Find_at:
  assumes ok: "ccm_ok None s l"
  shows "case map_of (view s) key of
      None \<Rightarrow> ccm_Find (Fin key) s = Some (CEnd, s)
    | Some e \<Rightarrow> \<exists>c s' l'. ccm_Find (Fin key) s = Some (c, s') \<and> at_entry s' c key e \<and> view s' = view s \<and> ccm_ok None s' l'"
proof -
  let ?m = "length (takeWhile (\<lambda>x. fst x < key) (view s))"
  obtain c where c: "ccm_LowerBound (Fin key) s = Some c" "cur_at s c ?m" using LowerBound_at(1) [OF ok] by blast
  have dist: "distinct (map fst (view s))" using view_sorted [OF ok] strict_sorted_iff by blast
  show ?thesis
  proof (cases "map_of (view s) key")
    case None
    then have "key \<notin> fst ` set (view s)" by (simp add: map_of_eq_None_iff)
    then have "?m < length (view s) \<Longrightarrow> fst (view s ! ?m) \<noteq> key" by (metis image_eqI nth_mem)
    then show ?thesis using None c cur_at_entry(2) [OF ok c(2)] cur_at_bounds [OF ok c(2)]
      by (cases "?m < length (view s)") (auto simp: ccm_Find_def split: cursor.split)
  next
    case (Some e)
    then have "(key, e) \<in> set (view s)" by (rule map_of_SomeD)
    then obtain j where j: "j < length (view s)" "view s ! j = (key, e)" by (auto simp: in_set_conv_nth)
    then have m: "?m = j"
      using lower_bound_nth [OF view_sorted [OF ok], of j key] unfolding length_takeWhile_fst [of "\<lambda>k. k < key"] lower_bound_def by simp
    have at: "at_entry s c key e" "it_key s c = Fin key" using cur_at_entry [OF ok c(2)] j m by simp_all
    then obtain p i where p: "c = CAt p i" "p \<in> snd ` set (ccmp s)" by (auto simp: at_entry_def)
    obtain s' l' where s': "lift_lru (UpdateLruList p False) s = Some s'" "ccm_ok None s' l'" "view s' = view s" "ccmp s' = ccmp s" "pkeys s' = pkeys s" "pents s' = pents s"
      using FindEmplace_found [OF ok p(2), of False] by blast
    have "ccm_Find (Fin key) s = Some (c, s')" using c(1) at(2) p(1) s'(1) by (simp add: ccm_Find_def)
    moreover have "at_entry s' c key e" using at(1) s' by (simp add: at_entry_def)
    ultimately show ?thesis using Some s' by auto
  qed
qed

section \<open>Walking over the map\<close>



text \<open>A map with two keys, for the examples below.\<close>

lemma sample_map:
  obtains s :: "(nat, nat, nat, nat) ccmap" and l e where "ccm_ok None s l" "view s = [(3, e), (5, 1)]"
proof -
  have none: "lock_of (shard_init :: (nat, nat) shard) e = None" for e by (simp add: shard_init_def)
  let ?s = "ccm_init Primary shard_init :: (nat, nat, nat, nat) ccmap"
  have init: "ccm_ok None ?s []" "view ?s = []" "next_cce ?s = 1" using ccm_init_ok [OF none, of Primary] by simp_all
  obtain c s1 l1 where s1: "ccm_ok None s1 l1" "view (s1 :: (nat, nat, nat, nat) ccmap) = [(5, 1)]"
    using FindEmplace_spec [OF init(1), of "\<lambda>_. None" False "5 :: nat" False False] init by (auto simp: ins_def)
  show thesis
    using FindEmplace_spec [OF s1(1), of "\<lambda>_. None" False "3 :: nat" False False] s1 that by (auto simp: ins_def)
qed

section \<open>Properties\<close>



text \<open>
  C6: The searches of a cc map are those of the sorted list of its keys, wherever the pages are cut:
  \<open>LowerBound\<close> points to the first key that is not smaller, \<open>UpperBound\<close> to the first that is larger, both to the
  end if there is none (the comment of \<open>LowerBound\<close> promises \<open>Begin()\<close> then; the code returns \<open>End()\<close>),
  \<open>Floor\<close> to the last that is not larger, negative infinity if there is none, and \<open>Find\<close> to the entry of the key
  itself, leaving the contents as they are, or to the end.
\<close>

theorem ccmap_searches:
  assumes ok: "ccm_ok None s l"
  shows "(\<exists>c. ccm_LowerBound (Fin key) s = Some c \<and> cur_at s c (length (takeWhile (\<lambda>x. fst x < key) (view s)))) \<and>
    (\<exists>c. ccm_UpperBound (Fin key) s = Some c \<and> cur_at s c (length (takeWhile (\<lambda>x. fst x \<le> key) (view s)))) \<and>
    (\<exists>c. Floor (Fin key) s = Some c \<and>
      (let n = length (takeWhile (\<lambda>x. fst x \<le> key) (view s)) in if n = 0 then c = CBegin else cur_at s c (n - 1))) \<and>
    (case map_of (view s) key of
       None \<Rightarrow> ccm_Find (Fin key) s = Some (CEnd, s)
     | Some e \<Rightarrow> \<exists>c s' l'. ccm_Find (Fin key) s = Some (c, s') \<and> at_entry s' c key e \<and> view s' = view s \<and> ccm_ok None s' l')"
  using LowerBound_at [OF ok, of key] Floor_at [OF ok, of key] Find_at [OF ok, of key] by blast

theorem ccmap_searches_witness:
  "\<exists>(s :: (nat, nat, nat, nat) ccmap) c c'. ccm_LowerBound (Fin 4) s = Some c \<and> at_entry s c 5 1 \<and> Floor (Fin 2) s = Some c' \<and> c' = CBegin"
proof -
  obtain s :: "(nat, nat, nat, nat) ccmap" and l e where s: "ccm_ok None s l" "view s = [(3, e), (5, 1)]" by (rule sample_map)
  obtain c where c: "ccm_LowerBound (Fin 4) s = Some c" "cur_at s c 1" using ccmap_searches [OF s(1), of 4] s(2) by auto
  have "at_entry s c 5 1" using cur_at_entry(1) [OF s(1) c(2)] s(2) by simp
  moreover have "Floor (Fin 2) s = Some CBegin" using ccmap_searches [OF s(1), of 2] s(2) by auto
  ultimately show ?thesis using c(1) by blast
qed

end
