(* ===== verification/Spec2Isabelle.thy ===== *)
theory Spec2Isabelle
  imports Lock_Properties Deadlock_Properties Ckpt_Properties Txn_Cmd_Replay Holder_System Meta_Roundtrip Page_Iter
begin

text \<open>
  A verification library for the transaction service: the concurrency control of an in-memory,
  sharded, multi-version store.

  \<^bold>\<open>The program.\<close> A node runs one shard (\<open>CcShard\<close>) per core. A shard owns cc maps, a cc map owns
  pages of cc entries, and a cc entry holds the current version of a record, its older versions and,
  while it is locked, a pointer to a lock structure of the shard. Transactions send requests to the
  shards. A request locks the entry through \<open>CcMap::AcquireCceKeyLock\<close>, waits in the queue of the key
  lock if there is a conflict, reads or writes a version, and releases the lock, which wakes the
  requests that can proceed. The checkpointer asks the shards for a timestamp below which no
  transaction is writing and exports the versions up to it. A background thread gathers the waiting
  requests of all nodes and breaks deadlocks. Standby nodes and log replay apply commands to objects
  in the order of the object versions, in whatever order they arrive.

  \<^bold>\<open>The theories, in the order of their imports.\<close>

  \<^item> \<open>Tx_Prelude\<close>: names of the machine integers, generic lemmas, the locale
    \<open>transition_invariant\<close> of a system whose steps keep an invariant.
  \<^item> \<open>Circular_Queue\<close>: \<open>CircularQueue\<close> of \<open>include/circular_queue.h\<close>: array, head, count, capacity.
    The locale \<open>indexed_queue\<close> is what clients rely on; the ring buffer interprets it, and every
    history of operations behaves as on a list.
  \<^item> \<open>Cc_Protocol\<close>: lock types, isolation levels, operations and \<open>DeduceLockType\<close> of
    \<open>include/cc_protocol.h\<close>, \<open>TxId\<close>, record status and error codes.
  \<^item> \<open>Non_Blocking_Lock\<close>, \<open>Lock_Spec\<close>, \<open>Lock_Refinement\<close>, \<open>Lock_Properties\<close>: \<open>NonBlockingLock\<close> of
    \<open>src/cc/non_blocking_lock.cpp\<close>, all operations, with the wake-up loop as a terminating recursion;
    an abstract lock with a conflict table and a list of waiting requests; that the code refines it;
    and mutual exclusion, no lost wake-up, the order and the effect of waking.
  \<^item> \<open>Deadlock_Check\<close>, \<open>Deadlock_Properties\<close>: \<open>src/dead_lock_check.cpp\<close>: merging of the reports of the
    nodes, the wait-for graph, the search, the victim. The search is exact when each transaction waits
    for one other, and is shown to fail otherwise.
  \<^item> \<open>Entry_Info\<close>: the word of \<open>VersionedLruEntry\<close> that packs commit timestamp, status and checkpoint
    flags (\<open>include/cc/cc_entry.h\<close>, \<open>src/cc/cc_entry.cpp\<close>), at the bit level, refined by its fields.
  \<^item> \<open>Mvcc_Entry\<close>, \<open>Mvcc_Properties\<close>: \<open>CcEntry\<close>: archiving, visible versions, recycling, and the update
    by \<open>PostWriteCc\<close> of \<open>include/cc/template_cc_map.h\<close>; snapshot reads are stable.
  \<^item> \<open>Ckpt_Export\<close>, \<open>Ckpt_Properties\<close>: \<open>FlushRecord\<close> and \<open>CcEntry::ExportForCkpt\<close>: which versions a
    checkpoint writes to the base and to the archive table.
  \<^item> \<open>Txn_Cmd\<close>, \<open>Txn_Cmd_Replay\<close>: the buffer of commands that arrive out of order
    (\<open>include/tx_command.h\<close>) and its replay; every order of arrival gives the same object.
  \<^item> \<open>Lock_Extra\<close>: \<open>KeyGapLockAndExtraData\<close>: the lock structure with the pending command, the dirty
    object and the requests blocked on the contents of an object.
  \<^item> \<open>Cc_Shard\<close>, \<open>Shard_Properties\<close>: the lock array of \<open>src/cc/cc_shard.cpp\<close> with growth and compaction,
    its assignment to entries, the table of lock holders, recovery of orphan locks and the
    checkpoint timestamp; no lock structure is shared or lost.
  \<^item> \<open>Cc_Map_Lock\<close>, \<open>Lock_Holders\<close>, \<open>Holder_Steps\<close>, \<open>Lock_Discipline\<close>, \<open>Holder_System\<close>: the locking
    operations of \<open>src/cc/cc_map.cpp\<close> on the shard, and the transition system of a shard in use: every
    holder of a lock is in the table of lock holders or about to be resumed, so that clearing a
    transaction finds all its locks. This needs a rule for clients that no code checks
    (\<open>one_request\<close>): a transaction does not send a second request that locks an entry while one of it
    waits there or was woken and is to be resumed, nor a snapshot read of an entry it has write-locked.
    Without it a transaction can hold two kinds of lock on one entry, and releasing one of them drops
    the record of both.
  \<^item> \<open>Tx_Serialize\<close>, \<open>Meta_Records\<close>, \<open>Meta_Roundtrip\<close>: the serializers of \<open>include/tx_serialize.h\<close> on
    byte buffers, and the keys, records and entries of the meta tables (\<open>include/cluster_config_record.h\<close>,
    \<open>src/catalog_key_record.cpp\<close>, \<open>src/range_bucket_key_record.cpp\<close>) with the pointers they own or
    borrow. The locale \<open>codec\<close> is the contract of a writer and its reader, interpreted for each of them;
    configurations and buckets survive the wire, schema versions grow, and two vector forms overrun.
  \<^item> \<open>Linked_List\<close>, \<open>Lru_List\<close>: doubly linked lists in a store, and the LRU list of the pages of a shard
    (\<open>UpdateLruList\<close>, \<open>DetachLru\<close>, \<open>ReplaceLru\<close> of \<open>src/cc/cc_shard.cpp\<close>) with the page where cleaning
    resumes, refined by a list in the order of recency.
  \<^item> \<open>Cc_Page\<close>, \<open>Page_Shape\<close>, \<open>Page_Map\<close>, \<open>Page_Split\<close>, \<open>Page_Emplace\<close>, \<open>Page_Iter\<close>: the map of pages of
    \<open>include/cc/template_cc_map.h\<close> and \<open>CcPage\<close> of \<open>include/cc/cc_entry.h\<close>: the ordered map, the chain of
    pages, the LRU links and the page pointers of the lock structures. \<open>FindEmplace\<close>, with the split of a
    full page, is lookup and insertion on the sorted list of keys; iterators, \<open>LowerBound\<close>, \<open>UpperBound\<close>,
    \<open>Floor\<close> and \<open>Find\<close> are the searches of that list; \<open>VerifyOrdering\<close> returns.

  \<^bold>\<open>How code becomes definitions.\<close> A class is a record and a method a function that returns the updated
  object beside its result. \<open>uint64_t\<close> timestamps and transaction numbers are 64-bit words. Lock
  structures live in a store, since entries keep pointers to them. Hash maps are association lists, and
  hash sets are sets; where the code iterates over one, the order is that of the list or of the numbers.
  Pages and entries live in stores by address; following a null pointer, or an access outside of a
  buffer, is an undefined result (\<open>None\<close> or an error). Logging and tracing are left out, and so are
  assertions, except those of \<open>VerifyOrdering\<close>, whose purpose they are: there they are collected in a flag.
  An assertion never stops the model. The records and keys of the storage engine, commands, the clock,
  leader terms and memory sizes are parameters. Every loop of the code is a total function, except the
  walk of \<open>VerifyOrdering\<close> along the pages (\<open>verify_keys\<close>), which follows pointers: it is a partial function
  into options, and it is proved to return on every well-formed map. No definition needs fuel.

  \<^bold>\<open>Labels of requests.\<close> In the transition system of the lock holders, \<open>site\<close> and \<open>want\<close> name the entry at
  which a request waits and the lock it waits for, by the identity of the request; a request that is sent
  again counts as a new one. They are universally quantified in the theorems.

  \<^bold>\<open>Not modelled.\<close> Network transport, protobuf messages and remote handlers, threads and memory
  ordering, the storage engine and the log service are outside of the program's own logic. The
  transaction state machine (\<open>src/tx_operation.cpp\<close>, \<open>src/tx_execution.cpp\<close>) mostly issues asynchronous
  requests and is not modelled; that it keeps to \<open>one_request\<close> is therefore a hypothesis and not proved.
  Of the handlers of the cc maps only the update of an entry by \<open>PostWriteCc\<close> is modelled, of the map of
  pages neither scans nor the cleaning, merging, redistribution and defragmentation of pages. The request
  classes, range slices, read and write sets, statistics, the sharder, the handlers of the meta tables and
  the snapshot manager are not modelled.
\<close>

end
